(* ===== verification/GoBase.thy ===== *)
theory GoBase
  imports Main "HOL-Library.AList" "HOL-Library.Word"
begin

text \<open>
  Prelude of the development: the Go vocabulary every component shares.
  Instants (\<^verbatim>\<open>time.Time\<close>) and durations (\<^verbatim>\<open>time.Duration\<close>) are integer nanoseconds;
  \<open>zero_time\<close> is the zero \<^verbatim>\<open>time.Time\<close>. Go's integer division truncates (\<open>quot\<close>),
  \<^verbatim>\<open>time.Time.Sub\<close> saturates at the 64-bit range (\<open>time_sub\<close>), and 64-bit signed
  arithmetic wraps (\<open>wrap64\<close>). A fallible operation returns \<open>error + result\<close>.
  The collections \<open>go_defs\<close> (definitions a functional proof unfolds) and \<open>go_inv\<close>
  (invariant preservation facts) are filled by the components.
\<close>

named_theorems go_defs "definitions unfolded by functional proofs"
named_theorems go_inv "preservation facts of component invariants"

section \<open>Numbers, instants, durations\<close>

type_synonym instant = int
type_synonym duration = int

definition zero_time :: instant where
  "zero_time = 0"

definition quot :: "int \<Rightarrow> int \<Rightarrow> int" where
  "quot a b = sgn a * sgn b * (\<bar>a\<bar> div \<bar>b\<bar>)"

definition max_duration :: duration where
  "max_duration = 2 ^ 63 - 1"

definition min_duration :: duration where
  "min_duration = - (2 ^ 63)"

definition time_sub :: "instant \<Rightarrow> instant \<Rightarrow> duration" where
  "time_sub a b = max min_duration (min max_duration (a - b))"

definition wrap64 :: "int \<Rightarrow> int" where
  "wrap64 x = (x + 2 ^ 63) mod 2 ^ 64 - 2 ^ 63"

abbreviation second :: duration where
  "second \<equiv> 1000000000"

lemma quot_nonneg: "0 \<le> a \<Longrightarrow> 0 < b \<Longrightarrow> quot a b = a div b"
  by (cases "a = 0") (auto simp: quot_def)

lemma quot_nonpos: "a \<le> 0 \<Longrightarrow> 0 < b \<Longrightarrow> quot a b \<le> 0"
  by (cases "a = 0") (auto simp: quot_def pos_imp_zdiv_nonneg_iff)

lemma quot_pos_iff: "0 < b \<Longrightarrow> 0 < quot a b \<longleftrightarrow> b \<le> a"
  by (cases "0 \<le> a") (use quot_nonpos [of a b] in \<open>auto simp: quot_nonneg pos_imp_zdiv_pos_iff\<close>)

lemma time_sub_le_iff: "min_duration \<le> d \<Longrightarrow> d < max_duration \<Longrightarrow> time_sub a b \<le> d \<longleftrightarrow> a - b \<le> d"
  by (auto simp: time_sub_def min_duration_def max_duration_def)

lemma time_sub_less_iff: "min_duration < d \<Longrightarrow> d \<le> max_duration \<Longrightarrow> time_sub a b < d \<longleftrightarrow> a - b < d"
  by (auto simp: time_sub_def min_duration_def max_duration_def)

lemma time_sub_self [simp]: "time_sub a a = 0"
  by (simp add: time_sub_def min_duration_def max_duration_def)

lemma time_sub_small: "\<bar>a - b\<bar> < 2 ^ 63 \<Longrightarrow> time_sub a b = a - b"
  by (auto simp: time_sub_def min_duration_def max_duration_def)

lemma wrap64_range: "- (2 ^ 63) \<le> wrap64 x \<and> wrap64 x < 2 ^ 63"
proof -
  have "0 \<le> (x + 2 ^ 63) mod 2 ^ 64" and "(x + 2 ^ 63) mod 2 ^ 64 < (2 :: int) ^ 64"
    by simp_all
  then show ?thesis by (simp add: wrap64_def)
qed

lemma wrap64_id: "- (2 ^ 63) \<le> x \<Longrightarrow> x < 2 ^ 63 \<Longrightarrow> wrap64 x = x"
  by (simp add: wrap64_def)

section \<open>Results\<close>

definition is_ok :: "'e + 'a \<Rightarrow> bool" where
  "is_ok r = (case r of Inl _ \<Rightarrow> False | Inr _ \<Rightarrow> True)"

lemma is_ok_simps [simp]: "is_ok (Inr x)" "\<not> is_ok (Inl e)"
  by (simp_all add: is_ok_def)

lemma is_ok_iff: "is_ok r \<longleftrightarrow> (\<exists>x. r = Inr x)"
  by (cases r) auto

section \<open>Lists and association lists\<close>

definition or_default :: "'a::zero \<Rightarrow> 'a \<Rightarrow> 'a" where
  \<comment> \<open>the \<^verbatim>\<open>if v == 0 { v = def }\<close> idiom of the constructors\<close>
  "or_default v d = (if v = 0 then d else v)"

definition pos_or_default :: "'a::{zero, linorder} \<Rightarrow> 'a \<Rightarrow> 'a" where
  \<comment> \<open>the \<^verbatim>\<open>if v <= 0 { v = def }\<close> idiom of the constructors\<close>
  "pos_or_default v d = (if v \<le> 0 then d else v)"

lemma pos_or_default_pos: "0 < d \<Longrightarrow> 0 < pos_or_default v d"
  by (auto simp: pos_or_default_def)

lemma map_of_filter_snd:
  "distinct (map fst xs) \<Longrightarrow>
    map_of (filter (\<lambda>(k, v). P v) xs) k =
      (case map_of xs k of None \<Rightarrow> None | Some v \<Rightarrow> if P v then Some v else None)"
  by (induction xs) (auto split: option.splits simp: map_of_eq_None_iff image_iff)

lemma distinct_map_fst_filter:
  "distinct (map fst xs) \<Longrightarrow> distinct (map fst (filter P xs))"
  by (induction xs) auto

lemma AList_update_new: "k \<notin> fst ` set xs \<Longrightarrow> AList.update k v xs = xs @ [(k, v)]"
  by (induction xs) auto

lemma length_update_new:
  "k \<notin> fst ` set xs \<Longrightarrow> length (AList.update k v xs) = Suc (length xs)"
  by (induction xs) auto

lemma length_update_old:
  "k \<in> fst ` set xs \<Longrightarrow> length (AList.update k v xs) = length xs"
  by (induction xs) auto

lemma length_delete_mem:
  "distinct (map fst xs) \<Longrightarrow> k \<in> fst ` set xs \<Longrightarrow>
    Suc (length (AList.delete k xs)) = length xs"
proof (induction xs)
  case (Cons x xs)
  then show ?case
    by (cases x) (force simp: delete_id)
qed simp

lemma sum_list_replicate_zero [simp]: "sum_list (replicate n (0 :: 'a :: comm_monoid_add)) = 0"
  by (induction n) auto

end
