(* ===== verification/GoRunes.thy ===== *)
theory GoRunes
  imports GoStrings
begin

text \<open>
  Runes: Go's UTF-8 decoder and encoder (\<^verbatim>\<open>unicode/utf8\<close>), the conversions \<^verbatim>\<open>[]rune(s)\<close>
  (\<open>runes\<close>) and \<^verbatim>\<open>string(rs)\<close> (\<open>utf8\<close>), \<^verbatim>\<open>unicode.IsSpace\<close> and \<^verbatim>\<open>strings.TrimSpace\<close>.
  A string is cut into \<open>chunks\<close>, each a decoded rune with the bytes it came from; a byte
  that starts no valid sequence is a chunk of its own and decodes to U+FFFD.
\<close>

section \<open>Decoding and encoding one rune\<close>

abbreviation rune_error :: nat where
  "rune_error \<equiv> 0xFFFD"

definition cont :: "char \<Rightarrow> bool" where
  "cont c \<longleftrightarrow> 0x80 \<le> byte_of c \<and> byte_of c \<le> 0xBF"

definition second_lo :: "nat \<Rightarrow> nat" where
  "second_lo b = (if b = 0xE0 then 0xA0 else if b = 0xF0 then 0x90 else 0x80)"

definition second_hi :: "nat \<Rightarrow> nat" where
  "second_hi b = (if b = 0xED then 0x9F else if b = 0xF4 then 0x8F else 0xBF)"

definition seq_len :: "nat \<Rightarrow> nat" where
  \<comment> \<open>bytes in the sequence a lead byte starts; 0 for a byte that starts none\<close>
  "seq_len b =
     (if b < 0x80 then 1
      else if 0xC2 \<le> b \<and> b \<le> 0xDF then 2
      else if 0xE0 \<le> b \<and> b \<le> 0xEF then 3
      else if 0xF0 \<le> b \<and> b \<le> 0xF4 then 4
      else 0)"

fun decode_rune :: "string \<Rightarrow> nat \<times> nat" where
  "decode_rune [] = (rune_error, 0)"
| "decode_rune (c # cs) =
     (let b = byte_of c; n = seq_len b in
      if n = 1 then (b, 1)
      else if n = 0 \<or> length cs < n - 1 then (rune_error, 1)
      else if byte_of (cs ! 0) < second_lo b \<or> second_hi b < byte_of (cs ! 0) then (rune_error, 1)
      else if n = 2 then (b mod 0x20 * 0x40 + byte_of (cs ! 0) mod 0x40, 2)
      else if \<not> cont (cs ! 1) then (rune_error, 1)
      else if n = 3 then
        ((b mod 0x10 * 0x40 + byte_of (cs ! 0) mod 0x40) * 0x40 + byte_of (cs ! 1) mod 0x40, 3)
      else if \<not> cont (cs ! 2) then (rune_error, 1)
      else (((b mod 8 * 0x40 + byte_of (cs ! 0) mod 0x40) * 0x40 + byte_of (cs ! 1) mod 0x40) * 0x40
             + byte_of (cs ! 2) mod 0x40, 4))"

declare decode_rune.simps(2) [simp del]

definition valid_rune :: "nat \<Rightarrow> bool" where
  "valid_rune r \<longleftrightarrow> r \<le> 0x10FFFF \<and> \<not> (0xD800 \<le> r \<and> r \<le> 0xDFFF)"

definition encode_rune :: "nat \<Rightarrow> string" where
  "encode_rune r =
     (if r < 0x80 then [char_of r]
      else if r < 0x800 then [char_of (0xC0 + r div 0x40), char_of (0x80 + r mod 0x40)]
      else if \<not> valid_rune r then [char_of (0xEF :: nat), char_of (0xBF :: nat), char_of (0xBD :: nat)]
      else if r < 0x10000 then
        [char_of (0xE0 + r div 0x1000), char_of (0x80 + r div 0x40 mod 0x40), char_of (0x80 + r mod 0x40)]
      else
        [char_of (0xF0 + r div 0x40000), char_of (0x80 + r div 0x1000 mod 0x40),
         char_of (0x80 + r div 0x40 mod 0x40), char_of (0x80 + r mod 0x40)])"

lemma mod_cont: "(0x80 :: nat) \<le> x \<Longrightarrow> x \<le> 0xBF \<Longrightarrow> x mod 0x40 = x - 0x80"
  by (simp add: le_mod_geq)

lemma seq_len_cases:
  obtains "b < 0x80" "seq_len b = 1" | "0xC2 \<le> b" "b \<le> 0xDF" "seq_len b = 2"
  | "0xE0 \<le> b" "b \<le> 0xEF" "seq_len b = 3" | "0xF0 \<le> b" "b \<le> 0xF4" "seq_len b = 4"
  | "seq_len b = 0"
proof -
  consider "b < 0x80" | "0x80 \<le> b \<and> b < 0xC2" | "0xC2 \<le> b \<and> b \<le> 0xDF" | "0xE0 \<le> b \<and> b \<le> 0xEF"
    | "0xF0 \<le> b \<and> b \<le> 0xF4" | "0xF4 < b" by linarith
  then show thesis
    by cases (auto simp: seq_len_def intro: that)
qed

lemma decode_rune_size: "s \<noteq> [] \<Longrightarrow> 1 \<le> snd (decode_rune s) \<and> snd (decode_rune s) \<le> length s"
proof (cases s)
  case (Cons c cs)
  show ?thesis
    unfolding Cons
    by (rule seq_len_cases [of "byte_of c"])
      (auto simp: decode_rune.simps(2) Let_def not_less Suc_le_eq)
qed simp

lemma decode_rune_ascii: "byte_of c < 0x80 \<Longrightarrow> decode_rune (c # cs) = (byte_of c, 1)"
  by (simp add: decode_rune.simps seq_len_def)

lemma valid_rune_small: "r < 0xD800 \<Longrightarrow> valid_rune r"
  by (simp add: valid_rune_def)

lemma valid_rune_error: "valid_rune rune_error"
  by (simp add: valid_rune_def)

lemma second_bounds:
  "second_lo b \<le> x \<Longrightarrow> x \<le> second_hi b \<Longrightarrow> 0x80 \<le> x \<and> x \<le> 0xBF"
  by (auto simp: second_lo_def second_hi_def split: if_splits)

lemma valid_two: "valid_rune (b mod 0x20 * 0x40 + x mod 0x40)"
proof -
  have "b mod 0x20 < 0x20" and "x mod 0x40 < 0x40" by simp_all
  then have "b mod 0x20 * 0x40 + x mod 0x40 < 0xD800" by linarith
  then show ?thesis by (rule valid_rune_small)
qed

lemma valid_three:
  assumes "0xE0 \<le> b" "b \<le> 0xEF" "second_lo b \<le> x" "x \<le> second_hi b" "y < 0x40"
  shows "valid_rune ((b mod 0x10 * 0x40 + x mod 0x40) * 0x40 + y)"
proof -
  have x: "x mod 0x40 = x - 0x80" and x': "0x80 \<le> x" "x \<le> 0xBF"
    using second_bounds [OF assms(3,4)] by (auto simp: mod_cont)
  have b: "b mod 0x10 = b - 0xE0"
    using assms(1,2) by (simp add: le_mod_geq)
  show ?thesis
    unfolding valid_rune_def x b using assms x'
    by (cases "b = 0xED") (auto simp: second_hi_def)
qed

lemma valid_four:
  assumes "0xF0 \<le> b" "b \<le> 0xF4" "second_lo b \<le> x" "x \<le> second_hi b" "y < 0x40" "z < 0x40"
  shows "valid_rune (((b mod 8 * 0x40 + x mod 0x40) * 0x40 + y) * 0x40 + z)"
proof -
  have x: "x mod 0x40 = x - 0x80" and x': "0x80 \<le> x" "x \<le> 0xBF"
    using second_bounds [OF assms(3,4)] by (auto simp: mod_cont)
  have b: "b mod 8 = b - 0xF0"
    using assms(1,2) by (simp add: le_mod_geq)
  show ?thesis
    unfolding valid_rune_def x b using assms x'
    by (cases "b = 0xF0"; cases "b = 0xF4") (auto simp: second_hi_def second_lo_def)
qed

lemma decode_rune_valid: "valid_rune (fst (decode_rune s))"
proof (cases s)
  case (Cons c cs)
  show ?thesis
    unfolding Cons
    by (rule seq_len_cases [of "byte_of c"])
      (auto simp: decode_rune.simps(2) Let_def not_less valid_rune_error
        intro!: valid_two valid_three [simplified] valid_four [simplified]
        intro: valid_rune_small)
qed (simp add: valid_rune_error)

section \<open>Chunks, rune lists, UTF-8\<close>

function chunks :: "string \<Rightarrow> (nat \<times> string) list" where
  "chunks [] = []"
| "chunks (c # cs) =
     (let r = fst (decode_rune (c # cs)); n = snd (decode_rune (c # cs))
      in (r, take n (c # cs)) # chunks (drop n (c # cs)))"
  by pat_completeness auto
termination
proof (relation "measure length")
  fix c :: char and cs :: string and r n
  assume "n = snd (decode_rune (c # cs))"
  then show "(drop n (c # cs), c # cs) \<in> measure length"
    using decode_rune_size [of "c # cs"] by simp
qed simp

declare chunks.simps(2) [simp del]

lemma chunks_unfold:
  "s \<noteq> [] \<Longrightarrow> chunks s =
    (fst (decode_rune s), take (snd (decode_rune s)) s) # chunks (drop (snd (decode_rune s)) s)"
  by (cases s) (simp_all add: chunks.simps(2) Let_def)

definition runes :: "string \<Rightarrow> nat list" where
  "runes s = map fst (chunks s)"

definition utf8 :: "nat list \<Rightarrow> string" where
  "utf8 rs = concat (map encode_rune rs)"

lemma chunks_ascii_Cons:
  "byte_of c < 0x80 \<Longrightarrow> chunks (c # cs) = (byte_of c, [c]) # chunks cs"
  by (simp add: chunks.simps(2) decode_rune_ascii)

lemma chunks_ascii:
  "list_all (\<lambda>c. byte_of c < 0x80) s \<Longrightarrow> chunks s = map (\<lambda>c. (byte_of c, [c])) s"
  by (induction s) (auto simp: chunks_ascii_Cons)

lemma concat_chunks: "concat (map snd (chunks s)) = s"
  by (induction s rule: chunks.induct) (auto simp: chunks.simps(2) Let_def)

lemma runes_Nil [simp]: "runes [] = []"
  by (simp add: runes_def)

lemma runes_valid: "r \<in> set (runes s) \<Longrightarrow> valid_rune r"
proof (induction s rule: chunks.induct)
  case (2 c cs)
  then show ?case
    using decode_rune_valid [of "c # cs"]
    by (auto simp: runes_def chunks.simps(2) Let_def)
qed simp

lemma length_runes_le: "length (runes s) \<le> length s"
proof (induction s rule: chunks.induct)
  case (2 c cs)
  show ?case
    using decode_rune_size [of "c # cs"] 2 [OF refl refl]
    by (simp add: runes_def chunks.simps(2) Let_def) linarith
qed simp

lemma byte_of_char_of: "n < 256 \<Longrightarrow> byte_of (char_of (n :: nat) :: char) = n"
  by simp

lemma decode_two:
  assumes "2 \<le> h" "h < 0x20" "m < 0x40"
  shows "decode_rune (char_of (0xC0 + h) # char_of (0x80 + m) # s) = (h * 0x40 + m, 2)"
proof -
  have b: "byte_of (char_of (0xC0 + h) :: char) = 0xC0 + h"
      "byte_of (char_of (0x80 + m) :: char) = 0x80 + m"
    using assms by (auto intro!: byte_of_char_of)
  have l: "seq_len (0xC0 + h) = 2" "(0xC0 + h) mod 0x20 = h" "(0x80 + m) mod 0x40 = m"
    using assms by (auto simp: seq_len_def mod_if)
  have lo: "second_lo (0xC0 + h) = 0x80" "second_hi (0xC0 + h) = 0xBF"
    using assms by (auto simp: second_lo_def second_hi_def)
  show ?thesis
    using assms by (simp add: decode_rune.simps(2) Let_def l lo b)
qed

lemma decode_three:
  assumes "a < 0x10" "m < 0x40" "n < 0x40" "a = 0 \<longrightarrow> 0x20 \<le> m" "a = 0xD \<longrightarrow> m < 0x20"
  shows "decode_rune (char_of (0xE0 + a) # char_of (0x80 + m) # char_of (0x80 + n) # s) =
    ((a * 0x40 + m) * 0x40 + n, 3)"
proof -
  have b: "byte_of (char_of (0xE0 + a) :: char) = 0xE0 + a"
      "byte_of (char_of (0x80 + m) :: char) = 0x80 + m"
      "byte_of (char_of (0x80 + n) :: char) = 0x80 + n"
    using assms by (auto intro!: byte_of_char_of)
  have l: "seq_len (0xE0 + a) = 3" "(0xE0 + a) mod 0x10 = a" "(0x80 + m) mod 0x40 = m"
      "(0x80 + n) mod 0x40 = n" "cont (char_of (0x80 + n))"
    using assms b(3) by (auto simp: seq_len_def mod_if cont_def)
  have lo: "second_lo (0xE0 + a) \<le> 0x80 + m" "0x80 + m \<le> second_hi (0xE0 + a)"
    using assms by (auto simp: second_lo_def second_hi_def)
  show ?thesis
    using assms lo by (simp add: decode_rune.simps(2) Let_def l b not_less)
qed

lemma decode_four:
  assumes "a \<le> 4" "m < 0x40" "n < 0x40" "k < 0x40" "a = 0 \<longrightarrow> 0x10 \<le> m" "a = 4 \<longrightarrow> m < 0x10"
  shows "decode_rune (char_of (0xF0 + a) # char_of (0x80 + m) # char_of (0x80 + n)
      # char_of (0x80 + k) # s) = (((a * 0x40 + m) * 0x40 + n) * 0x40 + k, 4)"
proof -
  have b: "byte_of (char_of (0xF0 + a) :: char) = 0xF0 + a"
      "byte_of (char_of (0x80 + m) :: char) = 0x80 + m"
      "byte_of (char_of (0x80 + n) :: char) = 0x80 + n"
      "byte_of (char_of (0x80 + k) :: char) = 0x80 + k"
    using assms by (auto intro!: byte_of_char_of)
  have l: "seq_len (0xF0 + a) = 4" "(0xF0 + a) mod 8 = a" "(0x80 + m) mod 0x40 = m"
      "(0x80 + n) mod 0x40 = n" "(0x80 + k) mod 0x40 = k" "cont (char_of (0x80 + n))"
      "cont (char_of (0x80 + k))"
    using assms b(3,4) by (auto simp: seq_len_def mod_if cont_def)
  have lo: "second_lo (0xF0 + a) \<le> 0x80 + m" "0x80 + m \<le> second_hi (0xF0 + a)"
    using assms by (auto simp: second_lo_def second_hi_def)
  show ?thesis
    using assms lo by (simp add: decode_rune.simps(2) Let_def l b not_less)
qed

lemma div_parts:
  "(r div 0x1000 * 0x40 + r div 0x40 mod 0x40) * 0x40 + r mod 0x40 = (r :: nat)"
proof -
  have "r div 0x1000 = r div 0x40 div 0x40" by (simp flip: div_mult2_eq)
  then show ?thesis by (simp only: div_mult_mod_eq)
qed

lemma div_parts4:
  "((r div 0x40000 * 0x40 + r div 0x1000 mod 0x40) * 0x40 + r div 0x40 mod 0x40) * 0x40
    + r mod 0x40 = (r :: nat)"
proof -
  have "r div 0x40000 = r div 0x40 div 0x1000" "r div 0x1000 = r div 0x40 div 0x40"
    by (simp_all flip: div_mult2_eq)
  then show ?thesis by (simp only: div_parts div_mult_mod_eq)
qed

lemma decode_encode:
  assumes "valid_rune r"
  shows "decode_rune (encode_rune r @ s) = (r, length (encode_rune r))"
proof -
  consider "r < 0x80" | "0x80 \<le> r" "r < 0x800" | "0x800 \<le> r" "r < 0x10000" | "0x10000 \<le> r"
    by linarith
  then show ?thesis
  proof cases
    case 1
    then show ?thesis
      by (simp add: encode_rune_def decode_rune_ascii)
  next
    case 2
    then have "decode_rune (encode_rune r @ s) = (r div 0x40 * 0x40 + r mod 0x40, 2)"
      by (simp add: encode_rune_def decode_two less_mult_imp_div_less)
    with 2 show ?thesis by (simp add: encode_rune_def)
  next
    case 3
    have low: "r div 0x40 mod 0x40 < 0x20" if "r div 0x1000 = 0xD" "\<not> 0xD800 \<le> r"
    proof -
      have "r div 0x40 div 0x40 = 0xD"
        using that(1) by (simp flip: div_mult2_eq)
      moreover have "r div 0x40 < 0x360" using that(2) by (simp add: less_mult_imp_div_less)
      ultimately show ?thesis using div_mult_mod_eq [of "r div 0x40" "0x40"] by linarith
    qed
    have "decode_rune (encode_rune r @ s) =
        ((r div 0x1000 * 0x40 + r div 0x40 mod 0x40) * 0x40 + r mod 0x40, 3)"
      using 3 assms
      by (simp add: encode_rune_def valid_rune_def) (rule decode_three [simplified], auto intro: low)
    then show ?thesis using 3 assms unfolding div_parts by (simp add: encode_rune_def)
  next
    case 4
    have high: "r div 0x1000 mod 0x40 < 0x10" if "r div 0x40000 = 4" "r \<le> 0x10FFFF"
    proof -
      have "r div 0x1000 div 0x40 = 4"
        using that(1) by (simp flip: div_mult2_eq)
      moreover have "r div 0x1000 < 0x110" using that(2) by (simp add: less_mult_imp_div_less)
      ultimately show ?thesis using div_mult_mod_eq [of "r div 0x1000" "0x40"] by linarith
    qed
    have "decode_rune (encode_rune r @ s) =
        (((r div 0x40000 * 0x40 + r div 0x1000 mod 0x40) * 0x40 + r div 0x40 mod 0x40) * 0x40
          + r mod 0x40, 4)"
      using 4 assms
      by (simp add: encode_rune_def valid_rune_def) (rule decode_four [simplified], auto intro: high)
    then show ?thesis using 4 assms unfolding div_parts4 by (simp add: encode_rune_def)
  qed
qed

lemma encode_rune_ne [simp]: "encode_rune r \<noteq> []"
  by (simp add: encode_rune_def)

lemma chunks_encode:
  "valid_rune r \<Longrightarrow> chunks (encode_rune r @ s) = (r, encode_rune r) # chunks s"
  using decode_encode [of r s]
  by (cases "encode_rune r") (auto simp: chunks.simps(2) Let_def)

lemma runes_utf8: "list_all valid_rune rs \<Longrightarrow> runes (utf8 rs) = rs"
  by (induction rs) (auto simp: utf8_def runes_def chunks_encode)

section \<open>White space\<close>

definition is_space_rune :: "nat \<Rightarrow> bool" where
  \<comment> \<open>\<^verbatim>\<open>unicode.IsSpace\<close>\<close>
  "is_space_rune r \<longleftrightarrow>
     (0x09 \<le> r \<and> r \<le> 0x0D) \<or> r = 0x20 \<or> r = 0x85 \<or> r = 0xA0 \<or> r = 0x1680 \<or>
     (0x2000 \<le> r \<and> r \<le> 0x200A) \<or> r = 0x2028 \<or> r = 0x2029 \<or> r = 0x202F \<or> r = 0x205F \<or>
     r = 0x3000"

definition trim_list :: "('a \<Rightarrow> bool) \<Rightarrow> 'a list \<Rightarrow> 'a list" where
  "trim_list P xs = rev (dropWhile P (rev (dropWhile P xs)))"

definition trim_space :: "string \<Rightarrow> string" where
  "trim_space s = concat (map snd (trim_list (\<lambda>p. is_space_rune (fst p)) (chunks s)))"

lemma trim_list_infix: "\<exists>a b. xs = a @ trim_list P xs @ b"
proof -
  have 1: "xs = takeWhile P xs @ dropWhile P xs" by simp
  have "rev (dropWhile P xs) =
      takeWhile P (rev (dropWhile P xs)) @ dropWhile P (rev (dropWhile P xs))" by simp
  then have "dropWhile P xs =
      rev (dropWhile P (rev (dropWhile P xs))) @ rev (takeWhile P (rev (dropWhile P xs)))"
    by (metis rev_append rev_rev_ident)
  with 1 show ?thesis unfolding trim_list_def by metis
qed

lemma trim_list_ends:
  "trim_list P xs \<noteq> [] \<Longrightarrow> \<not> P (hd (trim_list P xs)) \<and> \<not> P (last (trim_list P xs))"
proof -
  assume ne: "trim_list P xs \<noteq> []"
  let ?d = "dropWhile P xs"
  have d: "?d \<noteq> []" using ne by (metis trim_list_def dropWhile.simps(1) rev.simps(1))
  then have hd: "\<not> P (hd ?d)" by (rule hd_dropWhile)
  have last: "\<not> P (last (trim_list P xs))"
    using ne hd_dropWhile [of P "rev ?d"] by (simp add: trim_list_def last_rev)
  have "rev (dropWhile P (rev ?d)) @ rev (takeWhile P (rev ?d)) = ?d"
    by (metis rev_append rev_rev_ident takeWhile_dropWhile_id)
  then have "hd (trim_list P xs) = hd ?d"
    using ne unfolding trim_list_def by (metis hd_append2)
  with hd last show ?thesis by simp
qed

lemma trim_list_idem_iff:
  "trim_list P xs = xs \<longleftrightarrow> xs = [] \<or> \<not> P (hd xs) \<and> \<not> P (last xs)"
proof (cases "xs = []")
  case False
  show ?thesis
  proof
    assume "trim_list P xs = xs"
    with trim_list_ends [of P xs] False show "xs = [] \<or> \<not> P (hd xs) \<and> \<not> P (last xs)" by simp
  next
    assume "xs = [] \<or> \<not> P (hd xs) \<and> \<not> P (last xs)"
    with False have "\<not> P (hd xs)" "\<not> P (last xs)" by auto
    then have "dropWhile P xs = xs" and "\<not> P (hd (rev xs))"
      using False by (auto simp: hd_rev dropWhile_eq_self_iff)
    moreover from this(2) have "dropWhile P (rev xs) = rev xs"
      by (simp add: dropWhile_eq_self_iff)
    ultimately show "trim_list P xs = xs" by (simp add: trim_list_def)
  qed
qed (simp add: trim_list_def)

lemma decode_rune_take:
  assumes "n = snd (decode_rune s)" "s \<noteq> []" "n \<le> k"
  shows "decode_rune (take k s) = decode_rune s"
proof (cases s)
  case (Cons c cs)
  obtain j where k: "k = Suc j"
    using assms decode_rune_size [of s] by (cases k) auto
  show ?thesis
    using assms(1,3) unfolding Cons k
    by (rule_tac seq_len_cases [of "byte_of c"])
      (auto simp: decode_rune.simps(2) Let_def not_less split: if_splits)
qed (use assms in simp)

lemma chunks_suffix:
  "chunks s = xs @ ys \<Longrightarrow> chunks (concat (map snd ys)) = ys"
proof (induction s arbitrary: xs rule: chunks.induct)
  case (2 c cs)
  show ?case
  proof (cases xs)
    case Nil
    with 2 show ?thesis using concat_chunks [of "c # cs"] by simp
  next
    case (Cons x xs')
    with "2.prems" have "chunks (drop (snd (decode_rune (c # cs))) (c # cs)) = xs' @ ys"
      by (simp add: chunks.simps(2) Let_def)
    then show ?thesis using "2.IH" [OF refl refl] by blast
  qed
qed simp

lemma chunks_prefix:
  "chunks s = xs @ ys \<Longrightarrow> chunks (concat (map snd xs)) = xs"
proof (induction s arbitrary: xs rule: chunks.induct)
  case (2 c cs)
  let ?n = "snd (decode_rune (c # cs))"
  show ?case
  proof (cases xs)
    case (Cons x xs')
    have x: "x = (fst (decode_rune (c # cs)), take ?n (c # cs))"
      and r: "chunks (drop ?n (c # cs)) = xs' @ ys"
      using "2.prems" Cons by (auto simp: chunks.simps(2) Let_def)
    let ?t = "concat (map snd xs')"
    have IH: "chunks ?t = xs'" using "2.IH" [OF refl refl r] .
    have rest: "?t @ concat (map snd ys) = drop ?n (c # cs)"
      using concat_chunks [of "drop ?n (c # cs)"] unfolding r by simp
    have len: "length (take ?n (c # cs)) = ?n" "1 \<le> ?n"
      using decode_rune_size [of "c # cs"] by auto
    define k where "k = ?n + length ?t"
    have k: "?n \<le> k" by (simp add: k_def)
    have "(take ?n (c # cs) @ ?t) @ concat (map snd ys) = c # cs"
      using rest by simp
    then have t: "take ?n (c # cs) @ ?t = take k (c # cs)"
      using len(1) unfolding k_def by (metis append_eq_conv_conj length_append)
    have d: "decode_rune (take k (c # cs)) = decode_rune (c # cs)"
      using k by (intro decode_rune_take) auto
    have "take ?n (c # cs) @ ?t \<noteq> []" using len by auto
    from chunks_unfold [OF this] have "chunks (take ?n (c # cs) @ ?t) = x # chunks ?t"
      using d len unfolding t [symmetric] x by simp
    then show ?thesis using IH x Cons by simp
  qed simp
qed simp

lemma chunks_infix: "chunks s = a @ xs @ b \<Longrightarrow> chunks (concat (map snd xs)) = xs"
  by (metis chunks_prefix chunks_suffix)

lemma chunks_trim_space:
  "chunks (trim_space s) = trim_list (\<lambda>p. is_space_rune (fst p)) (chunks s)"
  using trim_list_infix [of "chunks s"] unfolding trim_space_def by (metis chunks_infix)

lemma trim_space_idem [simp]: "trim_space (trim_space s) = trim_space s"
proof -
  let ?P = "\<lambda>p :: nat \<times> string. is_space_rune (fst p)"
  have "trim_list ?P (trim_list ?P (chunks s)) = trim_list ?P (chunks s)"
    using trim_list_ends [of ?P "chunks s"] by (auto simp: trim_list_idem_iff)
  then show ?thesis
    by (simp add: trim_space_def [of "trim_space s"] chunks_trim_space) (simp add: trim_space_def)
qed

lemma trim_space_Nil [simp]: "trim_space [] = []"
  by (simp add: trim_space_def trim_list_def)

section \<open>ASCII strings\<close>

definition ascii :: "string \<Rightarrow> bool" where
  "ascii s = list_all (\<lambda>c. byte_of c < 0x80) s"

lemma ascii_simps [simp]:
  "ascii []" "ascii (c # s) \<longleftrightarrow> byte_of c < 0x80 \<and> ascii s" "ascii (s @ t) \<longleftrightarrow> ascii s \<and> ascii t"
  by (simp_all add: ascii_def)

lemma runes_ascii: "ascii s \<Longrightarrow> runes s = map byte_of s"
  by (simp add: runes_def chunks_ascii ascii_def)

lemma utf8_runes_ascii: "ascii s \<Longrightarrow> utf8 (runes s) = s"
  by (induction s) (auto simp: runes_ascii utf8_def encode_rune_def)

lemma trim_list_map: "trim_list P (map f xs) = map f (trim_list (P \<circ> f) xs)"
  by (simp add: trim_list_def dropWhile_map rev_map)

lemma trim_space_ascii: "ascii s \<Longrightarrow> trim_space s = trim_list (\<lambda>c. is_space_rune (byte_of c)) s"
  by (simp add: trim_space_def chunks_ascii ascii_def trim_list_map comp_def)

end
