(* ===== verification/Float64.thy ===== *)
theory Float64
  imports GoBase "HOL-Library.Log_Nat"
begin

text \<open>
  Go's \<^verbatim>\<open>float64\<close>, for the finite, normal values the circuit breaker and the rate limiter
  compute with: a double is a rational, and every operation rounds its exact result to
  53 significant bits, ties to even (\<open>rnd\<close>). The exponent range is not bounded here, so
  overflow to infinity, subnormals and NaN are outside the model; the components only
  add, subtract, multiply and divide seconds, rates and counts.

  \<open>rnd\<close> is monotone and idempotent and keeps every integer up to \<open>2 ^ 53\<close>; the locale
  \<open>rounding\<close> states these laws, and the components' proofs use nothing else about it.
\<close>

type_synonym f64 = rat

section \<open>Rounding to an integer, ties to even\<close>

definition rhe :: "rat \<Rightarrow> int" where
  "rhe x =
     (let f = \<lfloor>x\<rfloor>; d = x - of_int f in
      if d < 1 / 2 then f else if 1 / 2 < d then f + 1 else if even f then f else f + 1)"

lemma rhe_of_int [simp]: "rhe (of_int n) = n"
  by (simp add: rhe_def)

lemma rhe_bounds: "\<lfloor>x\<rfloor> \<le> rhe x \<and> rhe x \<le> \<lfloor>x\<rfloor> + 1"
  by (simp add: rhe_def Let_def)

lemma rhe_mono: "x \<le> y \<Longrightarrow> rhe x \<le> rhe y"
proof -
  assume xy: "x \<le> y"
  then have f: "\<lfloor>x\<rfloor> \<le> \<lfloor>y\<rfloor>" by (rule floor_mono)
  show ?thesis
  proof (cases "\<lfloor>x\<rfloor> = \<lfloor>y\<rfloor>")
    case True
    with xy show ?thesis by (auto simp: rhe_def Let_def)
  next
    case False
    with f have "\<lfloor>x\<rfloor> + 1 \<le> \<lfloor>y\<rfloor>" by simp
    then show ?thesis using rhe_bounds [of x] rhe_bounds [of y] by linarith
  qed
qed

lemma rhe_le_of_int: "x \<le> of_int n \<Longrightarrow> rhe x \<le> n"
  using rhe_mono [of x "of_int n"] by simp

lemma of_int_le_rhe: "of_int n \<le> x \<Longrightarrow> n \<le> rhe x"
  using rhe_mono [of "of_int n" x] by simp

section \<open>The binade of a positive rational\<close>

definition binade :: "rat \<Rightarrow> int" where
  "binade x =
     (let (p, q) = quotient_of x; e = bitlen p - bitlen q
      in if 2 powi e \<le> x then e else e - 1)"

lemma bitlen_powi:
  assumes "0 < p"
  shows "2 powi (bitlen p - 1) \<le> (of_int p :: rat)" "(of_int p :: rat) < 2 powi bitlen p"
proof -
  have b: "2 ^ nat (bitlen p - 1) \<le> p" "p < 2 ^ nat (bitlen p)"
    using bitlen_bounds [OF assms] by auto
  have pos: "0 < bitlen p" using bitlen_nonneg [of p] bitlen_eq_zero_iff [of p] assms by simp
  have "(2 :: rat) powi (bitlen p - 1) = of_int (2 ^ nat (bitlen p - 1))"
    using pos by (simp add: power_int_def)
  then show "2 powi (bitlen p - 1) \<le> (of_int p :: rat)"
    using b(1) by (simp only: of_int_le_iff)
  have "(2 :: rat) powi bitlen p = of_int (2 ^ nat (bitlen p))"
    using pos by (simp add: power_int_def)
  then show "(of_int p :: rat) < 2 powi bitlen p"
    using b(2) by (simp only: of_int_less_iff)
qed

lemma binade_bounds:
  assumes "0 < x"
  shows "2 powi binade x \<le> x" "x < 2 powi (binade x + 1)"
proof -
  obtain p q where pq: "quotient_of x = (p, q)" by fastforce
  have q: "0 < q" using quotient_of_denom_pos [OF pq] .
  have x: "x = of_int p / of_int q" using quotient_of_div [OF pq] .
  have p: "0 < p" using assms q unfolding x by (simp add: zero_less_divide_iff)
  let ?e = "bitlen p - bitlen q"
  have "(of_int p :: rat) < 2 powi bitlen p" and "2 powi (bitlen q - 1) \<le> (of_int q :: rat)"
    using bitlen_powi [OF p] bitlen_powi [OF q] by auto
  then have "x < 2 powi bitlen p / 2 powi (bitlen q - 1)"
    unfolding x by (intro frac_less) (use p q in auto)
  also have "2 powi bitlen p / 2 powi (bitlen q - 1) = (2 :: rat) powi (?e + 1)"
    by (simp add: power_int_diff power_int_add)
  finally have up: "x < 2 powi (?e + 1)" .
  have "2 powi (bitlen p - 1) \<le> (of_int p :: rat)" and "(of_int q :: rat) < 2 powi bitlen q"
    using bitlen_powi [OF p] bitlen_powi [OF q] by auto
  then have "2 powi (bitlen p - 1) / 2 powi bitlen q \<le> x"
    unfolding x by (intro frac_le) (use p q in auto)
  also have "2 powi (bitlen p - 1) / 2 powi bitlen q = (2 :: rat) powi (?e - 1)"
    by (simp add: power_int_diff)
  finally have lo: "2 powi (?e - 1) \<le> x" .
  show "2 powi binade x \<le> x" "x < 2 powi (binade x + 1)"
    using up lo by (auto simp: binade_def pq Let_def)
qed

lemma powi_mono2: "a \<le> b \<Longrightarrow> (2 :: rat) powi a \<le> 2 powi b"
  by (rule power_int_increasing) auto

lemma binade_unique:
  assumes "2 powi e \<le> x" "x < 2 powi (e + 1)"
  shows "binade x = e"
proof -
  have x: "0 < x" using assms(1) by (meson less_le_trans zero_less_numeral zero_less_power_int)
  have "\<not> binade x < e"
    using binade_bounds(2) [OF x] assms(1) powi_mono2 [of "binade x + 1" e] by linarith
  moreover have "\<not> e < binade x"
    using binade_bounds(1) [OF x] assms(2) powi_mono2 [of "e + 1" "binade x"] by linarith
  ultimately show ?thesis by linarith
qed

lemma binade_mono: "0 < x \<Longrightarrow> x \<le> y \<Longrightarrow> binade x \<le> binade y"
proof (rule ccontr)
  assume a: "0 < x" "x \<le> y" "\<not> binade x \<le> binade y"
  then have "2 powi (binade y + 1) \<le> (2 :: rat) powi binade x" by (intro powi_mono2) simp
  then show False using a binade_bounds(1) [of x] binade_bounds(2) [of y] by linarith
qed

section \<open>Rounding to 53 bits\<close>

definition rnd :: "rat \<Rightarrow> f64" where
  "rnd x =
     (if x = 0 then 0
      else let u = 2 powi (binade \<bar>x\<bar> - 52) in of_int (rhe (x / u)) * u)"

definition of_int64 :: "int \<Rightarrow> f64" where
  \<comment> \<open>the conversion \<^verbatim>\<open>float64(n)\<close>\<close>
  "of_int64 n = rnd (of_int n)"

definition fadd :: "f64 \<Rightarrow> f64 \<Rightarrow> f64" where "fadd a b = rnd (a + b)"
definition fsub :: "f64 \<Rightarrow> f64 \<Rightarrow> f64" where "fsub a b = rnd (a - b)"
definition fmul :: "f64 \<Rightarrow> f64 \<Rightarrow> f64" where "fmul a b = rnd (a * b)"
definition fdiv :: "f64 \<Rightarrow> f64 \<Rightarrow> f64" where "fdiv a b = rnd (a / b)"

definition ftrunc :: "f64 \<Rightarrow> int" where
  \<comment> \<open>the conversion of a double to an integer type: truncation towards zero\<close>
  "ftrunc x = (if 0 \<le> x then \<lfloor>x\<rfloor> else \<lceil>x\<rceil>)"

lemma rhe_minus: "rhe (- x) = - rhe x"
proof (cases "x = of_int \<lfloor>x\<rfloor>")
  case True
  then show ?thesis by (metis of_int_minus rhe_of_int)
next
  case False
  then have "\<lfloor>- x\<rfloor> = - \<lfloor>x\<rfloor> - 1" by (simp add: floor_eq_iff) linarith
  then show ?thesis by (auto simp: rhe_def Let_def)
qed

lemma rnd_minus: "rnd (- x) = - rnd x"
  by (simp add: rnd_def Let_def rhe_minus)

lemma rnd_0 [simp]: "rnd 0 = 0"
  by (simp add: rnd_def)

lemma powi_split: "a \<le> b \<Longrightarrow> (2 :: rat) powi b = of_int (2 ^ nat (b - a)) * 2 powi a"
proof -
  assume "a \<le> b"
  then have "(2 :: rat) powi b = 2 powi (b - a) * 2 powi a" by (simp flip: power_int_add)
  also have "(2 :: rat) powi (b - a) = of_int (2 ^ nat (b - a))"
    using \<open>a \<le> b\<close> by (simp add: power_int_def)
  finally show ?thesis .
qed

lemma rnd_pos_eq: "0 < x \<Longrightarrow> rnd x = of_int (rhe (x / 2 powi (binade x - 52))) * 2 powi (binade x - 52)"
  by (simp add: rnd_def Let_def)

lemma powi_52: "(2 :: rat) powi e = of_int (2 ^ 52) * 2 powi (e - 52)"
  using powi_split [of "e - 52" e] by simp

lemma powi_53: "(2 :: rat) powi (e + 1) = of_int (2 ^ 53) * 2 powi (e - 52)"
  using powi_split [of "e - 52" "e + 1"] by simp

lemma rnd_pos_bounds:
  assumes "0 < x"
  shows "2 powi binade x \<le> rnd x" "rnd x \<le> 2 powi (binade x + 1)"
proof -
  define u where "u = (2 :: rat) powi (binade x - 52)"
  have u: "0 < u" unfolding u_def by simp
  note e = powi_52 [of "binade x", folded u_def] powi_53 [of "binade x", folded u_def]
  note r = rnd_pos_eq [OF assms, folded u_def]
  have "of_int (2 ^ 52) \<le> x / u"
    using binade_bounds(1) [OF assms] unfolding e pos_le_divide_eq [OF u] .
  then show "2 powi binade x \<le> rnd x"
    unfolding e r by (intro mult_right_mono less_imp_le [OF u]) (simp only: of_int_le_iff of_int_le_rhe)
  have "x / u \<le> of_int (2 ^ 53)"
    using binade_bounds(2) [OF assms] unfolding e pos_divide_le_eq [OF u] by (rule less_imp_le)
  then show "rnd x \<le> 2 powi (binade x + 1)"
    unfolding e r by (intro mult_right_mono less_imp_le [OF u]) (simp only: of_int_le_iff rhe_le_of_int)
qed

lemma rnd_pos: "0 < x \<Longrightarrow> 0 < rnd x"
  using rnd_pos_bounds(1) [of x] by (meson less_le_trans zero_less_numeral zero_less_power_int)

lemma rnd_mono_pos:
  assumes "0 < x" "x \<le> y"
  shows "rnd x \<le> rnd y"
proof (cases "binade x = binade y")
  case True
  let ?u = "(2 :: rat) powi (binade y - 52)"
  have "rhe (x / ?u) \<le> rhe (y / ?u)"
    using assms by (intro rhe_mono divide_right_mono) auto
  then show ?thesis using assms True by (simp add: rnd_def Let_def)
next
  case False
  then have "binade x + 1 \<le> binade y" using binade_mono [OF assms] by simp
  then have "(2 :: rat) powi (binade x + 1) \<le> 2 powi binade y" by (rule powi_mono2)
  then show ?thesis
    using rnd_pos_bounds(2) [of x] rnd_pos_bounds(1) [of y] assms by linarith
qed

lemma rnd_mono: "x \<le> y \<Longrightarrow> rnd x \<le> rnd y"
proof -
  assume xy: "x \<le> y"
  consider "0 < x" | "y < 0" | "x \<le> 0" "0 \<le> y" by linarith
  then show ?thesis
  proof cases
    case 1
    then show ?thesis using xy by (rule rnd_mono_pos)
  next
    case 2
    then have "rnd (- y) \<le> rnd (- x)" using xy by (intro rnd_mono_pos) auto
    then show ?thesis by (simp add: rnd_minus)
  next
    case 3
    have "0 \<le> rnd y" using 3 rnd_pos [of y] by (cases "y = 0") auto
    moreover have "rnd x \<le> 0" using 3 rnd_pos [of "- x"] by (cases "x = 0") (auto simp: rnd_minus)
    ultimately show ?thesis by simp
  qed
qed

lemma rnd_exact:
  assumes "\<bar>m\<bar> \<le> 2 ^ 53"
  shows "rnd (of_int m * 2 powi k) = of_int m * 2 powi k"
proof (cases "m = 0")
  case False
  let ?x = "of_int m * (2 :: rat) powi k"
  let ?e = "binade \<bar>?x\<bar>"
  let ?u = "(2 :: rat) powi (?e - 52)"
  have x: "0 < \<bar>?x\<bar>" using False by simp
  have "\<exists>n. ?x = of_int n * ?u"
  proof (cases "\<bar>m\<bar> = 2 ^ 53")
    case True
    have p: "(2 :: rat) powi (k + 53) = of_int (2 ^ 53) * 2 powi k"
      using powi_split [of k "k + 53"] by simp
    have ax: "\<bar>?x\<bar> = 2 powi (k + 53)"
      unfolding p True [symmetric] by (simp only: abs_mult of_int_abs) simp
    have e: "?e = k + 53"
      unfolding ax using powi_split [of "k + 53" "k + 53 + 1"] by (intro binade_unique) simp_all
    have "?x = of_int (sgn m) * \<bar>?x\<bar>"
      by (simp add: abs_mult sgn_if)
    also have "\<bar>?x\<bar> = of_int (2 ^ 52) * ?u"
      unfolding e unfolding ax by (rule powi_52)
    finally have "?x = of_int (sgn m * 2 ^ 52) * ?u"
      by (simp only: of_int_mult mult.assoc)
    then show ?thesis by blast
  next
    case m: False
    then have "\<bar>m\<bar> < 2 ^ 53" using assms by simp
    then have "(of_int \<bar>m\<bar> :: rat) < of_int (2 ^ 53)" by (simp only: of_int_less_iff)
    then have "of_int \<bar>m\<bar> * 2 powi k < of_int (2 ^ 53) * (2 :: rat) powi k"
      by (rule mult_strict_right_mono) simp
    also have "of_int (2 ^ 53) * (2 :: rat) powi k = 2 powi (k + 53)"
      using powi_split [of k "k + 53"] by simp
    finally have "\<bar>?x\<bar> < 2 powi (k + 53)"
      by (simp add: abs_mult)
    then have "\<not> k + 53 \<le> ?e"
      using binade_bounds(1) [OF x] powi_mono2 [of "k + 53" ?e] by linarith
    then have "(2 :: rat) powi k = of_int (2 ^ nat (k - (?e - 52))) * ?u"
      by (intro powi_split) simp
    then have "?x = of_int (m * 2 ^ nat (k - (?e - 52))) * ?u"
      by (simp only: of_int_mult mult.assoc)
    then show ?thesis by blast
  qed
  then obtain n where n: "?x = of_int n * ?u" ..
  then have "?x / ?u = of_int n" by (simp add: field_simps)
  then have "rnd ?x = of_int n * ?u" using x by (simp add: rnd_def Let_def)
  then show ?thesis using n by simp
qed simp

lemma rnd_of_int: "\<bar>m\<bar> \<le> 2 ^ 53 \<Longrightarrow> rnd (of_int m) = of_int m"
  using rnd_exact [of m 0] by simp

lemma rnd_1 [simp]: "rnd 1 = 1"
  using rnd_of_int [of 1] by simp

lemma rnd_repr:
  obtains m k where "\<bar>m\<bar> \<le> 2 ^ 53" "rnd x = of_int m * 2 powi k"
proof (cases "x = 0")
  case True
  then show ?thesis using that [of 0 0] by simp
next
  case False
  define u where "u = (2 :: rat) powi (binade \<bar>x\<bar> - 52)"
  have u: "0 < u" unfolding u_def by simp
  have "\<bar>x\<bar> < of_int (2 ^ 53) * u"
    using binade_bounds(2) [of "\<bar>x\<bar>"] False powi_53 [of "binade \<bar>x\<bar>"] unfolding u_def by simp
  then have "\<bar>x\<bar> / u \<le> of_int (2 ^ 53)"
    unfolding pos_divide_le_eq [OF u] by (rule less_imp_le)
  then have "\<bar>x / u\<bar> \<le> of_int (2 ^ 53)"
    using u by (simp only: abs_divide abs_of_pos)
  then have "x / u \<le> of_int (2 ^ 53)" and "of_int (- (2 ^ 53)) \<le> x / u"
    unfolding abs_le_iff of_int_minus by (blast, metis minus_le_iff)
  then have "rhe (x / u) \<le> 2 ^ 53" and "- (2 ^ 53) \<le> rhe (x / u)"
    by (blast intro: rhe_le_of_int, blast intro: of_int_le_rhe)
  then have "\<bar>rhe (x / u)\<bar> \<le> 2 ^ 53" by linarith
  then show ?thesis
    using that [of "rhe (x / u)" "binade \<bar>x\<bar> - 52"] False by (simp add: rnd_def Let_def u_def)
qed

lemma rnd_idem [simp]: "rnd (rnd x) = rnd x"
  by (rule rnd_repr [of x]) (simp add: rnd_exact)

section \<open>The laws as an interface\<close>

locale rounding =
  fixes fl :: "rat \<Rightarrow> rat"
  assumes fl_mono: "x \<le> y \<Longrightarrow> fl x \<le> fl y"
    and fl_idem: "fl (fl x) = fl x"
    and fl_int: "\<bar>m\<bar> \<le> 2 ^ 53 \<Longrightarrow> fl (of_int m) = of_int m"
begin

lemma fl_ge: "fl c = c \<Longrightarrow> c \<le> x \<Longrightarrow> c \<le> fl x"
  using fl_mono [of c x] by simp

lemma fl_le: "fl c = c \<Longrightarrow> x \<le> c \<Longrightarrow> fl x \<le> c"
  using fl_mono [of x c] by simp

lemma fl_zero: "fl 0 = 0"
  using fl_int [of 0] by simp

lemma fl_one: "fl 1 = 1"
  using fl_int [of 1] by simp

lemma fl_nonneg: "0 \<le> x \<Longrightarrow> 0 \<le> fl x"
  by (rule fl_ge [OF fl_zero])

lemma fl_nonpos: "x \<le> 0 \<Longrightarrow> fl x \<le> 0"
  by (rule fl_le [OF fl_zero])

lemma fl_unit: "0 \<le> x \<Longrightarrow> x \<le> 1 \<Longrightarrow> 0 \<le> fl x \<and> fl x \<le> 1"
  by (simp add: fl_nonneg fl_le [OF fl_one])

end

interpretation f64: rounding rnd
  by unfold_locales (auto simp: rnd_mono rnd_of_int)

end
