(* ===== verification/Breaker.thy ===== *)
theory Breaker
  imports GoBase Float64 "HOL-Library.Multiset"
begin

text \<open>
  The circuit breaker, \<^verbatim>\<open>x/circuitbreaker/circuitbreaker.go\<close>. \<^verbatim>\<open>Breaker\<close> is the record
  \<open>breaker\<close>; the ring of buckets is a list updated by index. Every operation is a function of
  the breaker and of the readings of \<^verbatim>\<open>b.now\<close> it takes, in the order the code takes them, and
  returns the new breaker and the \<^verbatim>\<open>OnStateChange\<close> invocation to run after unlock (\<open>None\<close>
  for the nil \<^verbatim>\<open>func()\<close>). Each runs under \<^verbatim>\<open>b.mu\<close>, so a concurrent execution is a sequence
  of these calls. Counts are unbounded integers (a counter would need \<open>2 ^ 63\<close> calls to wrap).

  The lemmas show the invariant of the record, that the ring refines a sliding window of
  outcomes, and the state machine: trip, fail-fast, probing and recovery.
\<close>

section \<open>Data\<close>

datatype state = Closed | Open | HalfOpen

primrec state_code :: "state \<Rightarrow> int" where
  "state_code Closed = 0"
| "state_code Open = 1"
| "state_code HalfOpen = 2"

definition state_string :: "int \<Rightarrow> string" where
  "state_string s =
     (if s = 0 then ''closed'' else if s = 1 then ''open'' else if s = 2 then ''half-open''
      else ''unknown'')"

datatype cb_error = ErrOpen

record cb_config =
  failure_ratio :: f64
  min_requests :: int
  window :: duration
  window_buckets :: int
  open_for :: duration
  half_open_probes :: int
  on_state_change :: bool

record bucket =
  success :: int
  failure :: int

definition empty_bucket :: bucket where
  "empty_bucket = \<lparr>success = 0, failure = 0\<rparr>"

record breaker =
  cfg :: cb_config
  bucket_span :: duration
  st :: state
  buckets :: "bucket list"
  idx :: nat
  current :: instant
  opened_at :: instant
  probes :: int
  probe_success :: int

type_synonym fired = "(state \<times> state) option"

definition default_failure_ratio :: f64 where "default_failure_ratio = 1 / 2"
definition default_min_requests :: int where "default_min_requests = 10"
definition default_window :: duration where "default_window = 10 * second"
definition default_window_buckets :: int where "default_window_buckets = 10"
definition default_open_for :: duration where "default_open_for = 30 * second"
definition default_half_open_probes :: int where "default_half_open_probes = 1"

section \<open>Operations\<close>

definition with_defaults :: "cb_config \<Rightarrow> cb_config" where
  "with_defaults c =
     c\<lparr>failure_ratio := pos_or_default (failure_ratio c) default_failure_ratio,
       min_requests := pos_or_default (min_requests c) default_min_requests,
       window := pos_or_default (window c) default_window,
       window_buckets := pos_or_default (window_buckets c) default_window_buckets,
       open_for := pos_or_default (open_for c) default_open_for,
       half_open_probes := pos_or_default (half_open_probes c) default_half_open_probes\<rparr>"

definition new_breaker :: "cb_config \<Rightarrow> breaker" where
  "new_breaker c0 =
     (let c = with_defaults c0;
          span = quot (window c) (window_buckets c);
          span = (if span \<le> 0 then 1 else span)
      in \<lparr>cfg = c, bucket_span = span, st = Closed,
          buckets = replicate (nat (window_buckets c)) empty_bucket, idx = 0,
          current = zero_time, opened_at = zero_time, probes = 0, probe_success = 0\<rparr>)"

definition transition :: "state \<Rightarrow> breaker \<Rightarrow> breaker \<times> fired" where
  "transition to b =
     (let from = st b; b' = b\<lparr>st := to, probes := 0, probe_success := 0\<rparr>
      in (b', if \<not> on_state_change (cfg b) \<or> from = to then None else Some (from, to)))"

definition open_circuit :: "instant \<Rightarrow> breaker \<Rightarrow> breaker \<times> fired" where
  "open_circuit now b = transition Open (b\<lparr>opened_at := now\<rparr>)"

definition step_bucket :: "breaker \<Rightarrow> breaker" where
  "step_bucket b =
     (let i = (idx b + 1) mod length (buckets b)
      in b\<lparr>idx := i, buckets := (buckets b)[i := empty_bucket],
           current := current b + bucket_span b\<rparr>)"

primrec step_buckets :: "nat \<Rightarrow> breaker \<Rightarrow> breaker" where
  "step_buckets 0 b = b"
| "step_buckets (Suc n) b = step_buckets n (step_bucket b)"

definition clear_buckets :: "breaker \<Rightarrow> breaker" where
  "clear_buckets b = b\<lparr>buckets := replicate (length (buckets b)) empty_bucket\<rparr>"

definition advance :: "instant \<Rightarrow> breaker \<Rightarrow> breaker" where
  "advance now b =
     (if current b = zero_time then b\<lparr>current := now\<rparr>
      else
        let steps = quot (time_sub now (current b)) (bucket_span b) in
        if steps \<le> 0 then b
        else if int (length (buckets b)) \<le> steps
        then (clear_buckets b)\<lparr>idx := 0, current := now\<rparr>
        else step_buckets (nat steps) b)"

definition totals :: "breaker \<Rightarrow> int \<times> int" where
  "totals b = (sum_list (map success (buckets b)), sum_list (map failure (buckets b)))"

definition allow :: "instant \<Rightarrow> breaker \<Rightarrow> cb_error option \<times> breaker \<times> fired" where
  "allow now b =
     (case st b of
        Open \<Rightarrow>
          if time_sub now (opened_at b) < open_for (cfg b) then (Some ErrOpen, b, None)
          else let (b', f) = transition HalfOpen b
               in (None, b'\<lparr>probes := probes b' + 1\<rparr>, f)
      | HalfOpen \<Rightarrow>
          if half_open_probes (cfg b) \<le> probes b then (Some ErrOpen, b, None)
          else (None, b\<lparr>probes := probes b + 1\<rparr>, None)
      | Closed \<Rightarrow> (None, b, None))"

definition count_outcome :: "bool \<Rightarrow> breaker \<Rightarrow> breaker" where
  \<comment> \<open>\<^verbatim>\<open>b.buckets[b.idx].success++\<close> or \<^verbatim>\<open>.failure++\<close>; the flag says the error was nil\<close>
  "count_outcome ok b =
     (let k = buckets b ! idx b;
          k' = (if ok then k\<lparr>success := success k + 1\<rparr> else k\<lparr>failure := failure k + 1\<rparr>)
      in b\<lparr>buckets := (buckets b)[idx b := k']\<rparr>)"

definition should_trip :: "breaker \<Rightarrow> bool" where
  "should_trip b =
     (let (s, f) = totals b
      in min_requests (cfg b) \<le> s + f \<and>
         failure_ratio (cfg b) \<le> fdiv (of_int64 f) (of_int64 (s + f)))"

definition record_outcome :: "bool \<Rightarrow> instant \<Rightarrow> instant \<Rightarrow> breaker \<Rightarrow> breaker \<times> fired" where
  \<comment> \<open>\<open>t1\<close> is the reading of \<^verbatim>\<open>advance\<close>, \<open>t2\<close> the reading of \<^verbatim>\<open>open\<close>\<close>
  "record_outcome ok t1 t2 b =
     (case st b of
        Closed \<Rightarrow>
          let b' = count_outcome ok (advance t1 b)
          in if should_trip b' then open_circuit t2 b' else (b', None)
      | HalfOpen \<Rightarrow>
          if probes b = 0 then (b, None)
          else
            let b1 = b\<lparr>probes := probes b - 1\<rparr> in
            if \<not> ok then open_circuit t2 b1
            else
              let b2 = b1\<lparr>probe_success := probe_success b1 + 1\<rparr> in
              if half_open_probes (cfg b2) \<le> probe_success b2
              then let (b3, f) = transition Closed b2
                   in ((clear_buckets b3)\<lparr>current := zero_time\<rparr>, f)
              else (b2, None)
      | Open \<Rightarrow> (b, None))"

definition current_state :: "breaker \<Rightarrow> state" where
  "current_state b = st b"

definition round_trip ::
  "('req \<Rightarrow> 'w \<times> breaker \<Rightarrow> ('resp option \<times> 'e option) \<times> 'w \<times> breaker) \<Rightarrow>
   instant \<Rightarrow> instant \<Rightarrow> instant \<Rightarrow> 'req \<Rightarrow> 'w \<times> breaker \<Rightarrow>
   ('resp option \<times> (cb_error + 'e) option) \<times> 'w \<times> breaker" where
  \<comment> \<open>\<open>base\<close> is the wrapped \<^verbatim>\<open>http.RoundTripper\<close>; it runs unlocked, so other calls may have
      moved the breaker when it returns\<close>
  "round_trip base t0 t1 t2 req s =
     (case s of (w, b) \<Rightarrow>
        (case allow t0 b of
           (Some e, b', _) \<Rightarrow> ((None, Some (Inl e)), w, b')
         | (None, b', _) \<Rightarrow>
             (case base req (w, b') of
                ((resp, err), w', b'') \<Rightarrow>
                  ((resp, map_option Inr err), w', fst (record_outcome (err = None) t1 t2 b'')))))"

section \<open>Invariant\<close>

definition cfg_ok :: "cb_config \<Rightarrow> bool" where
  "cfg_ok c \<longleftrightarrow> 0 < failure_ratio c \<and> 0 < min_requests c \<and> 0 < window c \<and>
     0 < window_buckets c \<and> 0 < open_for c \<and> 0 < half_open_probes c"

definition bucket_ok :: "bucket \<Rightarrow> bool" where
  "bucket_ok k \<longleftrightarrow> 0 \<le> success k \<and> 0 \<le> failure k"

definition breaker_ok :: "breaker \<Rightarrow> bool" where
  "breaker_ok b \<longleftrightarrow>
     cfg_ok (cfg b) \<and> 0 < bucket_span b \<and>
     int (length (buckets b)) = window_buckets (cfg b) \<and> idx b < length (buckets b) \<and>
     (\<forall>k \<in> set (buckets b). bucket_ok k) \<and>
     0 \<le> probes b \<and> probes b \<le> half_open_probes (cfg b) \<and>
     0 \<le> probe_success b \<and> probe_success b < half_open_probes (cfg b) \<and>
     (st b \<noteq> HalfOpen \<longrightarrow> probes b = 0 \<and> probe_success b = 0)"

lemma cfg_ok_defaults: "cfg_ok (with_defaults c)"
  by (simp add: cfg_ok_def with_defaults_def pos_or_default_pos default_failure_ratio_def
      default_min_requests_def default_window_def default_window_buckets_def default_open_for_def
      default_half_open_probes_def)

lemma bucket_ok_empty [simp]: "bucket_ok empty_bucket"
  by (simp add: bucket_ok_def empty_bucket_def)

lemma empty_bucket_simps [simp]: "success empty_bucket = 0" "failure empty_bucket = 0"
  by (simp_all add: empty_bucket_def)

lemma new_breaker_ok [go_inv]: "breaker_ok (new_breaker c)"
  using cfg_ok_defaults [of c]
  by (auto simp: breaker_ok_def new_breaker_def Let_def cfg_ok_def)

lemma breaker_ok_buckets:
  "breaker_ok b \<Longrightarrow> length ks = length (buckets b) \<Longrightarrow> \<forall>k \<in> set ks. bucket_ok k \<Longrightarrow>
    i < length ks \<Longrightarrow> breaker_ok (b\<lparr>buckets := ks, idx := i, current := t\<rparr>)"
  by (simp add: breaker_ok_def)

lemma set_update_memD: "k \<in> set (ks[i := x]) \<Longrightarrow> k = x \<or> k \<in> set ks"
  using set_update_subset_insert by fastforce

lemma breaker_ok_step [go_inv]: "breaker_ok b \<Longrightarrow> breaker_ok (step_bucket b)"
  by (auto simp: breaker_ok_def step_bucket_def Let_def
      intro: mod_less_divisor dest!: set_update_memD)

lemma breaker_ok_steps [go_inv]: "breaker_ok b \<Longrightarrow> breaker_ok (step_buckets n b)"
  by (induction n arbitrary: b) (auto intro: go_inv)

lemma breaker_ok_advance [go_inv]: "breaker_ok b \<Longrightarrow> breaker_ok (advance t b)"
proof -
  assume b: "breaker_ok b"
  then have "breaker_ok ((clear_buckets b)\<lparr>idx := 0, current := t\<rparr>)" and "breaker_ok (b\<lparr>current := t\<rparr>)"
    by (auto simp: breaker_ok_def clear_buckets_def)
  with b show ?thesis by (auto simp: advance_def Let_def intro: go_inv)
qed

lemma breaker_ok_count [go_inv]: "breaker_ok b \<Longrightarrow> breaker_ok (count_outcome ok b)"
proof -
  assume b: "breaker_ok b"
  let ?k = "buckets b ! idx b"
  have k: "bucket_ok ?k" using b by (simp add: breaker_ok_def)
  then have "bucket_ok (?k\<lparr>success := success ?k + 1\<rparr>)" "bucket_ok (?k\<lparr>failure := failure ?k + 1\<rparr>)"
    by (auto simp: bucket_ok_def)
  then show ?thesis
    using b by (cases ok) (auto simp: breaker_ok_def count_outcome_def Let_def dest!: set_update_memD)
qed

lemma breaker_ok_transition [go_inv]: "breaker_ok b \<Longrightarrow> breaker_ok (fst (transition s b))"
  by (simp add: breaker_ok_def transition_def Let_def cfg_ok_def)

lemma breaker_ok_open [go_inv]: "breaker_ok b \<Longrightarrow> breaker_ok (fst (open_circuit t b))"
  unfolding open_circuit_def by (rule breaker_ok_transition) (simp add: breaker_ok_def)

lemma breaker_ok_allow [go_inv]: "breaker_ok b \<Longrightarrow> breaker_ok (fst (snd (allow t b)))"
  by (auto simp: breaker_ok_def allow_def transition_def Let_def cfg_ok_def split: state.splits)

lemma breaker_ok_drop_probe:
  "breaker_ok b \<Longrightarrow> probes b \<noteq> 0 \<Longrightarrow> breaker_ok (b\<lparr>probes := probes b - 1\<rparr>)"
  by (auto simp: breaker_ok_def)

lemma breaker_ok_record [go_inv]: "breaker_ok b \<Longrightarrow> breaker_ok (fst (record_outcome ok t1 t2 b))"
proof (cases "st b")
  case Closed
  assume "breaker_ok b"
  then show ?thesis using Closed by (auto simp: record_outcome_def Let_def intro: go_inv)
next
  case HalfOpen
  assume b: "breaker_ok b"
  show ?thesis
  proof (cases "probes b = 0 \<or> \<not> ok")
    case True
    then show ?thesis using HalfOpen b
      by (auto simp: record_outcome_def Let_def intro: go_inv breaker_ok_drop_probe)
  next
    case False
    then show ?thesis using HalfOpen b
      by (auto simp: record_outcome_def Let_def breaker_ok_def transition_def clear_buckets_def
          cfg_ok_def)
  qed
qed (simp add: record_outcome_def)

section \<open>Traces of calls\<close>

datatype call = CallAllow instant | CallRecord bool instant instant

primrec call_step :: "call \<Rightarrow> breaker \<Rightarrow> breaker \<times> fired" where
  "call_step (CallAllow t) b = snd (allow t b)"
| "call_step (CallRecord ok t1 t2) b = record_outcome ok t1 t2 b"

primrec stamps :: "call \<Rightarrow> instant list" where
  "stamps (CallAllow t) = [t]"
| "stamps (CallRecord ok t1 t2) = [t1, t2]"

definition run :: "call list \<Rightarrow> breaker \<Rightarrow> breaker" where
  "run cs b = fold (\<lambda>c b. fst (call_step c b)) cs b"

lemma run_simps [simp]:
  "run [] b = b" "run (c # cs) b = run cs (fst (call_step c b))" "run (cs @ ds) b = run ds (run cs b)"
  by (simp_all add: run_def)

lemma breaker_ok_call [go_inv]: "breaker_ok b \<Longrightarrow> breaker_ok (fst (call_step c b))"
  by (cases c) (auto intro: go_inv)

lemma breaker_ok_run [go_inv]: "breaker_ok b \<Longrightarrow> breaker_ok (run cs b)"
  by (induction cs arbitrary: b) (auto intro: go_inv)

lemma rotate_replicate: "rotate m (replicate n x) = replicate n x"
  by (rule nth_equalityI) (auto simp: nth_rotate)

lemma mset_rotate: "mset (rotate m xs) = mset xs"
  by (simp add: rotate_drop_take) (metis append_take_drop_id mset_append union_commute)

section \<open>The ring as a sliding window\<close>

definition recent :: "breaker \<Rightarrow> bucket list" where
  \<comment> \<open>the buckets, the current one first, the oldest last\<close>
  "recent b = rev (rotate (Suc (idx b)) (buckets b))"

lemma length_recent [simp]: "length (recent b) = length (buckets b)"
  by (simp add: recent_def)

lemma set_recent [simp]: "set (recent b) = set (buckets b)"
  by (simp add: recent_def)

lemma recent_nth:
  assumes "k < length (buckets b)"
  shows "recent b ! k = buckets b ! ((idx b + length (buckets b) - k) mod length (buckets b))"
proof -
  have "Suc (idx b) + (length (buckets b) - Suc k) = idx b + length (buckets b) - k"
    using assms by simp
  then show ?thesis using assms by (simp add: recent_def rev_nth nth_rotate del: rotate_Suc)
qed

lemma hd_recent:
  "idx b < length (buckets b) \<Longrightarrow> recent b ! 0 = buckets b ! idx b"
  by (subst recent_nth) auto

lemma step_index:
  fixes i k n :: nat
  assumes "i < n" "k < n - 1"
  shows "((i + 1) mod n + n - Suc k) mod n = (i + n - k) mod n"
    and "((i + 1) mod n + n - Suc k) mod n \<noteq> (i + 1) mod n"
proof -
  have m: "(i + n - k) mod n = (if k \<le> i then i - k else i + n - k)"
  proof (cases "k \<le> i")
    case True
    then have "i + n - k = (i - k) + n" by simp
    then have "(i + n - k) mod n = (i - k) mod n" by (simp only: mod_add_self2)
    then show ?thesis using True assms by simp
  qed (use assms in simp)
  show e: "((i + 1) mod n + n - Suc k) mod n = (i + n - k) mod n"
  proof (cases "i + 1 = n")
    case True
    then have "((i + 1) mod n + n - Suc k) mod n = i - k" using assms by auto
    then show ?thesis using True assms unfolding m by auto
  qed (use assms in simp)
  show "((i + 1) mod n + n - Suc k) mod n \<noteq> (i + 1) mod n"
    unfolding e m using assms by (cases "i + 1 = n") auto
qed

lemma recent_step:
  assumes "idx b < length (buckets b)"
  shows "recent (step_bucket b) = empty_bucket # butlast (recent b)" (is "?l = ?r")
proof (rule nth_equalityI)
  let ?n = "length (buckets b)"
  show "length ?l = length ?r" using assms by (simp add: step_bucket_def Let_def)
  fix k assume "k < length ?l"
  then have k: "k < ?n" by (simp add: step_bucket_def Let_def)
  show "?l ! k = ?r ! k"
  proof (cases k)
    case 0
    have "idx (step_bucket b) < length (buckets (step_bucket b))"
      using assms by (auto simp: step_bucket_def Let_def intro: mod_less_divisor)
    then show ?thesis
      using 0 assms by (auto simp: hd_recent) (auto simp: step_bucket_def Let_def intro!: nth_list_update_eq mod_less_divisor)
  next
    case (Suc j)
    have "((idx b + 1) mod ?n + ?n - Suc j) mod ?n = (idx b + ?n - j) mod ?n"
      and "((idx b + 1) mod ?n + ?n - Suc j) mod ?n \<noteq> (idx b + 1) mod ?n"
      using assms k Suc by (intro step_index; simp)+
    then show ?thesis using k Suc
      by (simp add: recent_nth step_bucket_def Let_def nth_butlast)
  qed
qed

lemma recent_clear: "recent (clear_buckets b) = replicate (length (buckets b)) empty_bucket"
  by (simp add: recent_def clear_buckets_def rotate_replicate del: rotate_Suc)

lemma totals_recent:
  "totals b = (sum_list (map success (recent b)), sum_list (map failure (recent b)))"
proof -
  have "mset (recent b) = mset (buckets b)" by (simp add: recent_def mset_rotate del: rotate_Suc)
  then have "mset (map f (recent b)) = mset (map f (buckets b))" for f :: "bucket \<Rightarrow> int"
    by (simp only: mset_map)
  then have "sum_list (map f (buckets b)) = sum_list (map f (recent b))" for f :: "bucket \<Rightarrow> int"
    by (metis sum_mset_sum_list)
  then show ?thesis by (simp add: totals_def)
qed

definition tally :: "(instant \<times> bool) list \<Rightarrow> bucket" where
  "tally es = \<lparr>success = int (length (filter snd es)), failure = int (length (filter (\<lambda>e. \<not> snd e) es))\<rparr>"

lemma tally_Nil [simp]: "tally [] = empty_bucket"
  by (simp add: tally_def empty_bucket_def)

lemma tally_append1:
  "tally (es @ [(t, ok)]) =
    (if ok then (tally es)\<lparr>success := success (tally es) + 1\<rparr>
     else (tally es)\<lparr>failure := failure (tally es) + 1\<rparr>)"
  by (simp add: tally_def)

lemma tally_concat_rev:
  "success (tally (concat (rev xs))) = sum_list (map (success \<circ> tally) xs)"
  "failure (tally (concat (rev xs))) = sum_list (map (failure \<circ> tally) xs)"
  by (induction xs) (auto simp: tally_def)

definition windowed :: "breaker \<Rightarrow> (instant \<times> bool) list \<Rightarrow> (instant \<times> bool) list list \<Rightarrow> bool" where
  \<comment> \<open>\<open>xs ! k\<close> holds the outcomes of the \<open>k\<close>-th slot before the current one, \<open>old\<close> the
      outcomes that have left the window\<close>
  "windowed b old xs \<longleftrightarrow>
     length xs = length (buckets b) \<and> recent b = map tally xs \<and>
     (current b = zero_time \<longrightarrow> old = [] \<and> (\<forall>x \<in> set xs. x = [])) \<and>
     (\<forall>k < length (buckets b). \<forall>e \<in> set (xs ! k).
        current b - int k * bucket_span b \<le> fst e \<and> fst e < current b - int k * bucket_span b + bucket_span b) \<and>
     (\<forall>e \<in> set old. fst e < current b - int (length (buckets b) - 1) * bucket_span b)"

definition logged :: "(instant \<times> bool) list \<Rightarrow> (instant \<times> bool) list list \<Rightarrow> (instant \<times> bool) list" where
  "logged old xs = old @ concat (rev xs)"

lemma logged_shift: "xs \<noteq> [] \<Longrightarrow> logged (old @ last xs) ([] # butlast xs) = logged old xs"
  by (cases xs rule: rev_cases) (auto simp: logged_def)

lemma logged_reset: "logged (logged old xs) (replicate n []) = logged old xs"
  by (simp add: logged_def)

lemma windowed_fresh:
  "\<forall>k \<in> set (buckets b). k = empty_bucket \<Longrightarrow>
    windowed b [] (replicate (length (buckets b)) [])"
proof -
  assume "\<forall>k \<in> set (buckets b). k = empty_bucket"
  then have "recent b = replicate (length (buckets b)) empty_bucket"
    using replicate_eqI [of "recent b" "length (buckets b)" empty_bucket] by simp
  then show ?thesis by (auto simp: windowed_def)
qed

lemma windowed_step:
  assumes "windowed b old xs" "idx b < length (buckets b)" "0 < current b" "0 < bucket_span b"
  shows "windowed (step_bucket b) (old @ last xs) ([] # butlast xs)"
proof -
  note w = assms(1) [unfolded windowed_def]
  let ?s = "bucket_span b" and ?n = "length (buckets b)"
  have n: "0 < ?n" using w assms(2) by auto
  have "recent (step_bucket b) = map tally ([] # butlast xs)"
    using w recent_step [OF assms(2)] by (simp add: map_butlast)
  moreover have "current b + ?s - int k * ?s \<le> fst e \<and> fst e < current b + ?s - int k * ?s + ?s"
    if k: "k < ?n" and e: "e \<in> set (([] # butlast xs) ! k)" for k e
  proof (cases k)
    case (Suc j)
    then have "e \<in> set (xs ! j)" using e k w by (simp add: nth_butlast [of j xs])
    then have "current b - int j * ?s \<le> fst e \<and> fst e < current b - int j * ?s + ?s"
      using w k Suc by simp
    then show ?thesis using Suc by (simp add: algebra_simps)
  qed (use e in simp)
  moreover have "fst e < current b + ?s - int (?n - 1) * ?s" if e: "e \<in> set (old @ last xs)" for e
  proof (cases "e \<in> set old")
    case True
    then have "fst e < current b - int (?n - 1) * ?s" using w by blast
    then show ?thesis using assms(4) by simp
  next
    case False
    moreover have "last xs = xs ! (?n - 1)"
      using w n by (metis last_conv_nth length_greater_0_conv)
    ultimately have "e \<in> set (xs ! (?n - 1))" using e by simp
    moreover have "?n - 1 < ?n" using n by simp
    ultimately have "fst e < current b - int (?n - 1) * ?s + ?s" using w by blast
    then show ?thesis by simp
  qed
  ultimately show ?thesis
    using w n assms by (auto simp: windowed_def step_bucket_def Let_def zero_time_def)
qed

lemma step_bucket_simps [simp]:
  "bucket_span (step_bucket b) = bucket_span b" "cfg (step_bucket b) = cfg b"
  "st (step_bucket b) = st b" "length (buckets (step_bucket b)) = length (buckets b)"
  "current (step_bucket b) = current b + bucket_span b" "probes (step_bucket b) = probes b"
  by (simp_all add: step_bucket_def Let_def)

lemma idx_step_bucket:
  "idx b < length (buckets b) \<Longrightarrow> idx (step_bucket b) < length (buckets (step_bucket b))"
  by (auto simp: step_bucket_def Let_def intro: mod_less_divisor)

lemma step_buckets_simps [simp]:
  "bucket_span (step_buckets n b) = bucket_span b" "cfg (step_buckets n b) = cfg b"
  "st (step_buckets n b) = st b" "length (buckets (step_buckets n b)) = length (buckets b)"
  "current (step_buckets n b) = current b + int n * bucket_span b" "probes (step_buckets n b) = probes b"
  by (induction n arbitrary: b) (simp_all add: algebra_simps)

lemma windowed_steps:
  assumes "windowed b old xs" "idx b < length (buckets b)" "0 < current b" "0 < bucket_span b"
  shows "\<exists>old' xs'. windowed (step_buckets n b) old' xs' \<and> logged old' xs' = logged old xs"
  using assms
proof (induction n arbitrary: b old xs)
  case (Suc n)
  have "xs \<noteq> []" using Suc.prems by (auto simp: windowed_def)
  moreover have "windowed (step_bucket b) (old @ last xs) ([] # butlast xs)"
    using Suc.prems by (intro windowed_step)
  moreover note idx_step_bucket [OF Suc.prems(2)]
  ultimately obtain old' xs' where "windowed (step_buckets n (step_bucket b)) old' xs'"
      "logged old' xs' = logged (old @ last xs) ([] # butlast xs)"
    using Suc.IH [of "step_bucket b" "old @ last xs" "[] # butlast xs"] Suc.prems(3,4) by auto
  then show ?case using logged_shift [OF \<open>xs \<noteq> []\<close>] by auto
qed auto

lemma windowed_times:
  assumes "windowed b old xs" "0 < bucket_span b" "e \<in> set (logged old xs)"
  shows "fst e < current b + bucket_span b"
proof -
  have neg: "- (int k * bucket_span b) \<le> 0" for k using assms(2) by simp
  from assms(3) consider "e \<in> set old" | k where "k < length (buckets b)" "e \<in> set (xs ! k)"
    using assms(1) by (auto simp: logged_def windowed_def) (metis in_set_conv_nth)
  then show ?thesis
  proof cases
    case 1
    then have "fst e < current b - int (length (buckets b) - 1) * bucket_span b"
      using assms(1) unfolding windowed_def by blast
    then show ?thesis using neg [of "length (buckets b) - 1"] assms(2) by linarith
  next
    case 2
    then have "fst e < current b - int k * bucket_span b + bucket_span b"
      using assms(1) by (simp add: windowed_def)
    then show ?thesis using neg [of k] by linarith
  qed
qed

definition fits :: "breaker \<Rightarrow> bool" where
  \<comment> \<open>the window is a 64-bit duration\<close>
  "fits b \<longleftrightarrow> int (length (buckets b)) * bucket_span b \<le> max_duration"

lemma pos_zdiv_less_iff: "0 < (s :: int) \<Longrightarrow> a div s < n \<longleftrightarrow> a < n * s"
  using pos_imp_zdiv_neg_iff [of s "a - n * s"] div_mult_self1 [of s a "- n"]
  by (simp add: algebra_simps) linarith

lemma steps_small:
  assumes "a \<le> t" "0 < s" "n * s \<le> max_duration" "quot (time_sub t a) s < n" "0 \<le> n"
  shows "t - a < n * s" "quot (time_sub t a) s = (t - a) div s"
proof -
  have d: "time_sub t a = min max_duration (t - a)"
    using assms(1) by (auto simp: time_sub_def max_duration_def min_duration_def)
  have nn: "0 \<le> min max_duration (t - a)" using assms(1) by (simp add: max_duration_def)
  then have "min max_duration (t - a) div s < n"
    using assms(2,4) by (simp add: d quot_nonneg)
  then have "min max_duration (t - a) < n * s"
    using assms(2) by (simp add: pos_zdiv_less_iff)
  then show "t - a < n * s" using assms(3) by (auto simp: min_def split: if_splits)
  then have "t - a \<le> max_duration" using assms(3) by linarith
  then show "quot (time_sub t a) s = (t - a) div s"
    using assms(1,2) by (simp add: d min_def quot_nonneg)
qed

lemma steps_large:
  assumes "a \<le> t" "0 < s" "n \<le> quot (time_sub t a) s"
  shows "n * s \<le> t - a"
proof -
  have d: "time_sub t a = min max_duration (t - a)"
    using assms(1) by (auto simp: time_sub_def max_duration_def min_duration_def)
  have "0 \<le> min max_duration (t - a)" using assms(1) by (simp add: max_duration_def)
  then have "n \<le> min max_duration (t - a) div s" using assms(2,3) by (simp add: d quot_nonneg)
  then have "n * s \<le> min max_duration (t - a)" using assms(2) pos_zdiv_less_iff [of s _ n] by (simp add: linorder_not_less flip: linorder_not_less)
  then show ?thesis by simp
qed

lemma windowed_advance:
  assumes ok: "breaker_ok b" and f: "fits b" and w: "windowed b old xs"
    and t: "0 < t" "0 \<le> current b" "current b \<le> t"
  obtains old' xs' where "windowed (advance t b) old' xs'" "logged old' xs' = logged old xs"
    "0 < current (advance t b)" "current (advance t b) \<le> t"
    "t < current (advance t b) + bucket_span b"
proof -
  let ?s = "bucket_span b" and ?n = "int (length (buckets b))"
  have s: "0 < ?s" and n: "0 < ?n" "idx b < length (buckets b)"
    using ok by (auto simp: breaker_ok_def)
  let ?q = "quot (time_sub t (current b)) ?s"
  consider "current b = 0" | "0 < current b" "?q \<le> 0" | "0 < current b" "0 < ?q" "?q < ?n"
    | "0 < current b" "?n \<le> ?q" using t by linarith
  then show ?thesis
  proof cases
    case 1
    then have "\<forall>k < length (buckets b). xs ! k = []"
      using w by (simp add: windowed_def zero_time_def)
    moreover have "length xs = length (buckets b)" "recent b = map tally xs" "old = []"
      using w 1 by (simp_all add: windowed_def zero_time_def)
    ultimately have "windowed (b\<lparr>current := t\<rparr>) old xs"
      using t by (simp add: windowed_def recent_def zero_time_def del: rotate_Suc)
    then show ?thesis using that 1 t s by (simp add: advance_def zero_time_def)
  next
    case 2
    have "t - current b < 1 * ?s"
      using t s f n 2 by (intro steps_small) (auto simp: fits_def intro: order_trans [rotated])
    then show ?thesis using that [OF _ refl] 2 t w by (simp add: advance_def zero_time_def)
  next
    case 3
    let ?k = "nat ?q"
    obtain old' xs' where 1: "windowed (step_buckets ?k b) old' xs'" "logged old' xs' = logged old xs"
      using windowed_steps [OF w n(2) 3(1) s] by blast
    have "?q = (t - current b) div ?s"
      using t s f n 3 by (intro steps_small(2)) (auto simp: fits_def)
    then have "?q * ?s \<le> t - current b" "t - current b < ?q * ?s + ?s"
      using s by (simp_all add: minus_mod_eq_div_mult [symmetric])
    moreover have "0 < current b + ?q * ?s" using 3 s by (simp add: add_pos_pos)
    ultimately show ?thesis using that [OF _ 1(2)] 1(1) 3 s t
      by (simp add: advance_def zero_time_def Let_def)
  next
    case 4
    have big: "?n * ?s \<le> t - current b" using t s 4 by (intro steps_large)
    let ?b = "(clear_buckets b)\<lparr>idx := 0, current := t\<rparr>"
    have "recent ?b = replicate (length (buckets b)) empty_bucket"
      by (simp add: recent_def clear_buckets_def rotate_replicate del: rotate_Suc)
    moreover have "fst e < t - int (length (buckets b) - 1) * ?s" if "e \<in> set (logged old xs)" for e
    proof -
      have "int (length (buckets b) - 1) * ?s = ?n * ?s - ?s"
        using n by (simp add: of_nat_diff algebra_simps)
      then show ?thesis using windowed_times [OF w s that] big by linarith
    qed
    ultimately have "windowed ?b (logged old xs) (replicate (length (buckets b)) [])"
      using t by (simp add: windowed_def clear_buckets_def zero_time_def)
    moreover have "advance t b = ?b" using 4 s n by (simp add: advance_def zero_time_def Let_def)
    ultimately show ?thesis
      using that [of "logged old xs" "replicate (length (buckets b)) []"] t s by (simp add: logged_reset)
  qed
qed

lemma windowed_count:
  assumes "windowed b old xs" "idx b < length (buckets b)" "0 < current b"
    "current b \<le> t" "t < current b + bucket_span b"
  shows "windowed (count_outcome ok b) old (xs[0 := xs ! 0 @ [(t, ok)]])"
    and "logged old (xs[0 := xs ! 0 @ [(t, ok)]]) = logged old xs @ [(t, ok)]"
proof -
  note w = assms(1) [unfolded windowed_def]
  obtain y ys where xs: "xs = y # ys" using w assms(2) by (cases xs) auto
  let ?k = "tally (y @ [(t, ok)])"
  have "buckets b ! idx b = tally y" using w hd_recent [OF assms(2)] xs by simp
  then have c: "count_outcome ok b = b\<lparr>buckets := (buckets b)[idx b := ?k]\<rparr>"
    by (simp add: count_outcome_def Let_def tally_append1)
  have "recent (count_outcome ok b) = map tally (xs[0 := xs ! 0 @ [(t, ok)]])"
  proof (rule nth_equalityI)
    fix k assume "k < length (recent (count_outcome ok b))"
    then have k: "k < length (buckets b)" by (simp add: c)
    show "recent (count_outcome ok b) ! k = map tally (xs[0 := xs ! 0 @ [(t, ok)]]) ! k"
    proof (cases k)
      case 0
      then show ?thesis using assms(2) xs by (simp add: hd_recent c)
    next
      case (Suc j)
      have "(idx b + length (buckets b) - k) mod length (buckets b) \<noteq> idx b"
        using assms(2) k Suc by (auto simp: mod_if)
      then have "recent (count_outcome ok b) ! k = recent b ! k"
        using k by (simp add: c recent_nth)
      then show ?thesis using w xs k Suc by simp
    qed
  qed (use w in \<open>simp add: c\<close>)
  moreover have "current b - int k * bucket_span b \<le> fst e \<and>
      fst e < current b - int k * bucket_span b + bucket_span b"
    if "k < length (buckets b)" "e \<in> set (xs[0 := xs ! 0 @ [(t, ok)]] ! k)" for k e
  proof (cases "e \<in> set (xs ! k)")
    case True
    then show ?thesis using w that(1) by blast
  next
    case False
    then have "k = 0" "e = (t, ok)" using that by (auto simp: xs nth_Cons split: nat.splits)
    then show ?thesis using assms(4,5) by simp
  qed
  ultimately show "windowed (count_outcome ok b) old (xs[0 := xs ! 0 @ [(t, ok)]])"
    using w assms(3) by (simp add: windowed_def c zero_time_def)
  show "logged old (xs[0 := xs ! 0 @ [(t, ok)]]) = logged old xs @ [(t, ok)]"
    by (simp add: logged_def xs)
qed

primrec log_step :: "call \<Rightarrow> breaker \<Rightarrow> (instant \<times> bool) list \<Rightarrow> (instant \<times> bool) list" where
  "log_step (CallAllow t) b l = l"
| "log_step (CallRecord ok t1 t2) b l =
     (if st b = Closed then l @ [(t1, ok)]
      else if st (fst (record_outcome ok t1 t2 b)) = Closed then [] else l)"

fun closed_log :: "call list \<Rightarrow> breaker \<Rightarrow> (instant \<times> bool) list \<Rightarrow> (instant \<times> bool) list" where
  \<comment> \<open>the outcomes recorded while closed since the breaker last closed, in order\<close>
  "closed_log [] b l = l"
| "closed_log (c # cs) b l = closed_log cs (fst (call_step c b)) (log_step c b l)"

definition tracks :: "breaker \<Rightarrow> (instant \<times> bool) list \<Rightarrow> instant \<Rightarrow> bool" where
  "tracks b l t \<longleftrightarrow>
     breaker_ok b \<and> fits b \<and> 0 \<le> current b \<and> current b \<le> t \<and>
     (\<exists>old xs. windowed b old xs \<and> logged old xs = l)"

lemma tracks_later: "tracks b l t \<Longrightarrow> t \<le> t' \<Longrightarrow> tracks b l t'"
  by (auto simp: tracks_def)

lemma windowed_cong:
  "buckets b' = buckets b \<Longrightarrow> idx b' = idx b \<Longrightarrow> current b' = current b \<Longrightarrow>
    bucket_span b' = bucket_span b \<Longrightarrow> windowed b' old xs = windowed b old xs"
  by (simp add: windowed_def recent_def)

lemma tracks_cong:
  "tracks b l t \<Longrightarrow> breaker_ok b' \<Longrightarrow> buckets b' = buckets b \<Longrightarrow> idx b' = idx b \<Longrightarrow>
    current b' = current b \<Longrightarrow> bucket_span b' = bucket_span b \<Longrightarrow> tracks b' l t"
  by (simp add: tracks_def fits_def windowed_cong [of b' b])

lemma transition_simps [simp]:
  "buckets (fst (transition s b)) = buckets b" "idx (fst (transition s b)) = idx b"
  "current (fst (transition s b)) = current b" "bucket_span (fst (transition s b)) = bucket_span b"
  "cfg (fst (transition s b)) = cfg b" "st (fst (transition s b)) = s"
  "probes (fst (transition s b)) = 0" "probe_success (fst (transition s b)) = 0"
  "opened_at (fst (transition s b)) = opened_at b"
  by (simp_all add: transition_def Let_def)

lemma open_circuit_simps [simp]:
  "buckets (fst (open_circuit t b)) = buckets b" "idx (fst (open_circuit t b)) = idx b"
  "current (fst (open_circuit t b)) = current b" "bucket_span (fst (open_circuit t b)) = bucket_span b"
  "cfg (fst (open_circuit t b)) = cfg b" "st (fst (open_circuit t b)) = Open"
  "opened_at (fst (open_circuit t b)) = t"
  by (simp_all add: open_circuit_def)

lemma allow_window [simp]:
  "buckets (fst (snd (allow t b))) = buckets b" "idx (fst (snd (allow t b))) = idx b"
  "current (fst (snd (allow t b))) = current b" "bucket_span (fst (snd (allow t b))) = bucket_span b"
  "cfg (fst (snd (allow t b))) = cfg b"
  by (auto simp: allow_def transition_def Let_def split: state.splits)

lemma advance_simps [simp]:
  "bucket_span (advance t b) = bucket_span b" "cfg (advance t b) = cfg b" "st (advance t b) = st b"
  "length (buckets (advance t b)) = length (buckets b)"
  by (auto simp: advance_def Let_def clear_buckets_def)

lemma count_outcome_simps [simp]:
  "bucket_span (count_outcome ok b) = bucket_span b" "cfg (count_outcome ok b) = cfg b"
  "st (count_outcome ok b) = st b" "length (buckets (count_outcome ok b)) = length (buckets b)"
  "current (count_outcome ok b) = current b"
  by (simp_all add: count_outcome_def Let_def)

lemma tracks_counted:
  assumes "tracks b l t" "t \<le> t1" "0 < t1"
  obtains old xs where "windowed (count_outcome ok (advance t1 b)) old xs"
    "logged old xs = l @ [(t1, ok)]" "0 < current (advance t1 b)"
    "current (advance t1 b) \<le> t1" "t1 < current (advance t1 b) + bucket_span b"
proof -
  obtain old xs where b: "breaker_ok b" "fits b" "windowed b old xs" "logged old xs = l"
      "0 \<le> current b" "current b \<le> t1"
    using assms by (auto simp: tracks_def)
  obtain old' xs' where w0: "windowed (advance t1 b) old' xs'" "logged old' xs' = logged old xs"
      "0 < current (advance t1 b)" "current (advance t1 b) \<le> t1"
      "t1 < current (advance t1 b) + bucket_span b"
    by (rule windowed_advance [OF b(1-3) assms(3) b(5,6)])
  then have w: "windowed (advance t1 b) old' xs'" "logged old' xs' = l"
      "0 < current (advance t1 b)" "current (advance t1 b) \<le> t1"
      "t1 < current (advance t1 b) + bucket_span (advance t1 b)"
    using b(4) by simp_all
  have "idx (advance t1 b) < length (buckets (advance t1 b))"
    using breaker_ok_advance [OF b(1)] by (simp only: breaker_ok_def)
  note c = windowed_count [OF w(1) this w(3-5)]
  show ?thesis using that [OF c(1)] c(2) w by simp
qed

lemma tracks_closed_record:
  assumes "tracks b l t" "t \<le> t1" "0 < t1" "st b = Closed"
  shows "tracks (fst (record_outcome ok t1 t2 b)) (l @ [(t1, ok)]) t1"
proof -
  obtain old xs where w: "windowed (count_outcome ok (advance t1 b)) old xs"
      "logged old xs = l @ [(t1, ok)]" "0 < current (advance t1 b)" "current (advance t1 b) \<le> t1"
    using tracks_counted [OF assms(1-3)] by metis
  have "breaker_ok (count_outcome ok (advance t1 b))" and f: "fits b"
    using assms(1) by (auto simp: tracks_def intro: go_inv)
  then have c: "tracks (count_outcome ok (advance t1 b)) (l @ [(t1, ok)]) t1"
    using w by (auto simp: tracks_def fits_def)
  have ok: "breaker_ok (fst (record_outcome ok t1 t2 b))"
    using assms(1) by (auto simp: tracks_def intro: go_inv)
  then show ?thesis
    using assms(4) by (intro tracks_cong [OF c]) (auto simp: record_outcome_def Let_def)
qed

lemma record_open: "st b = Open \<Longrightarrow> record_outcome ok t1 t2 b = (b, None)"
  by (simp add: record_outcome_def)

lemma record_stale: "st b = HalfOpen \<Longrightarrow> probes b = 0 \<Longrightarrow> record_outcome ok t1 t2 b = (b, None)"
  by (simp add: record_outcome_def)

lemma record_failed_probe:
  "st b = HalfOpen \<Longrightarrow> probes b \<noteq> 0 \<Longrightarrow>
    record_outcome False t1 t2 b = open_circuit t2 (b\<lparr>probes := probes b - 1\<rparr>)"
  by (simp add: record_outcome_def)

lemma record_more_probes:
  "st b = HalfOpen \<Longrightarrow> probes b \<noteq> 0 \<Longrightarrow> probe_success b + 1 < half_open_probes (cfg b) \<Longrightarrow>
    record_outcome True t1 t2 b =
      (b\<lparr>probes := probes b - 1, probe_success := probe_success b + 1\<rparr>, None)"
  by (simp add: record_outcome_def)

lemma record_last_probe:
  "st b = HalfOpen \<Longrightarrow> probes b \<noteq> 0 \<Longrightarrow> half_open_probes (cfg b) \<le> probe_success b + 1 \<Longrightarrow>
    record_outcome True t1 t2 b =
      ((clear_buckets b)\<lparr>st := Closed, probes := 0, probe_success := 0, current := zero_time\<rparr>,
       if on_state_change (cfg b) then Some (HalfOpen, Closed) else None)"
  by (simp add: record_outcome_def transition_def clear_buckets_def Let_def)

lemma record_cases:
  assumes "st b \<noteq> Closed"
  obtains "record_outcome ok t1 t2 b = (b, None)" "st b = Open \<or> probes b = 0"
  | "\<not> ok" "st b = HalfOpen" "record_outcome ok t1 t2 b = open_circuit t2 (b\<lparr>probes := probes b - 1\<rparr>)"
  | "ok" "st b = HalfOpen" "record_outcome ok t1 t2 b =
      (b\<lparr>probes := probes b - 1, probe_success := probe_success b + 1\<rparr>, None)"
  | "ok" "st b = HalfOpen" "record_outcome ok t1 t2 b =
      ((clear_buckets b)\<lparr>st := Closed, probes := 0, probe_success := 0, current := zero_time\<rparr>,
       if on_state_change (cfg b) then Some (HalfOpen, Closed) else None)"
proof (cases "st b")
  case Closed
  then show ?thesis using assms by simp
next
  case Open
  then show ?thesis using that(1) by (simp add: record_open)
next
  case HalfOpen
  consider "probes b = 0" | "probes b \<noteq> 0" "\<not> ok"
    | "probes b \<noteq> 0" "ok" "probe_success b + 1 < half_open_probes (cfg b)"
    | "probes b \<noteq> 0" "ok" "half_open_probes (cfg b) \<le> probe_success b + 1" by linarith
  then show ?thesis
  proof cases
    case 1
    then show ?thesis using that(1) record_stale [OF HalfOpen] by simp
  next
    case 2
    then show ?thesis using that(2) HalfOpen record_failed_probe [OF HalfOpen] by simp
  next
    case 3
    then show ?thesis using that(3) HalfOpen record_more_probes [OF HalfOpen] by simp
  next
    case 4
    then show ?thesis using that(4) [OF _ HalfOpen] record_last_probe [OF HalfOpen] by simp
  qed
qed

lemma tracks_record:
  assumes "tracks b l t" "t \<le> t1" "0 < t1"
  shows "tracks (fst (record_outcome ok t1 t2 b)) (log_step (CallRecord ok t1 t2) b l) t1"
proof (cases "st b = Closed")
  case True
  then show ?thesis using tracks_closed_record [OF assms True] by simp
next
  case False
  let ?b = "fst (record_outcome ok t1 t2 b)"
  have ok: "breaker_ok ?b"
    using assms(1) by (auto simp: tracks_def intro: go_inv)
  note same = tracks_cong [OF tracks_later [OF assms(1,2)] ok]
  from False show ?thesis
  proof (rule record_cases [of b ok t1 t2])
    assume "ok" and b: "record_outcome ok t1 t2 b =
      ((clear_buckets b)\<lparr>st := Closed, probes := 0, probe_success := 0, current := zero_time\<rparr>,
       if on_state_change (cfg b) then Some (HalfOpen, Closed) else None)"
    have "windowed ?b [] (replicate (length (buckets ?b)) [])"
      by (intro windowed_fresh) (simp add: b clear_buckets_def)
    moreover have "logged [] (replicate (length (buckets ?b)) []) = []" by (simp add: logged_def)
    moreover have "fits ?b" "current ?b = 0"
      using assms(1) by (simp_all add: b tracks_def fits_def clear_buckets_def zero_time_def)
    ultimately have "tracks ?b [] t1" using ok assms(3) unfolding tracks_def by fastforce
    then show ?thesis using False by (simp add: b)
  qed (use False same in simp_all)
qed

lemma tracks_call:
  assumes "tracks b l t" "\<forall>u \<in> set (stamps c). t \<le> u \<and> 0 < u"
  shows "tracks (fst (call_step c b)) (log_step c b l) (hd (stamps c))"
proof (cases c)
  case (CallAllow u)
  have "breaker_ok (fst (snd (allow u b)))" using assms(1) by (auto simp: tracks_def intro: go_inv)
  then have "tracks (fst (snd (allow u b))) l u"
    using assms(2) CallAllow by (intro tracks_cong [OF tracks_later [OF assms(1)]]) simp_all
  then show ?thesis using CallAllow by simp
next
  case (CallRecord ok t1 t2)
  then show ?thesis using assms tracks_record by simp
qed

lemma tracks_run:
  assumes "tracks b l t" "0 < t" "sorted (t # concat (map stamps cs))"
    "\<forall>v \<in> set (concat (map stamps cs)). v \<le> u" "t \<le> u"
  shows "tracks (run cs b) (closed_log cs b l) u"
  using assms
proof (induction cs arbitrary: b l t)
  case Nil
  then show ?case by (auto intro: tracks_later)
next
  case (Cons c cs)
  obtain h r where h: "stamps c = h # r" by (cases c) auto
  have s: "t \<le> h" "\<forall>v \<in> set (stamps c). t \<le> v" "sorted (h # concat (map stamps cs))"
    using Cons.prems(3) h by (auto simp: sorted_append)
  have "tracks (fst (call_step c b)) (log_step c b l) h"
    using tracks_call [OF Cons.prems(1), of c] s(2) Cons.prems(2) h less_le_trans [OF Cons.prems(2)]
    by simp
  then show ?case
    using Cons.IH [of _ _ h] s Cons.prems h by simp
qed

lemma new_breaker_fits:
  assumes "window c \<le> max_duration" "window_buckets c \<le> max_duration"
  shows "fits (new_breaker c)"
proof -
  let ?c = "with_defaults c"
  have c: "0 < window ?c" "window ?c \<le> max_duration" "0 < window_buckets ?c" "window_buckets ?c \<le> max_duration"
    using cfg_ok_defaults [of c] assms
    by (auto simp: cfg_ok_def with_defaults_def pos_or_default_def max_duration_def
        default_window_def default_window_buckets_def)
  let ?q = "quot (window ?c) (window_buckets ?c)"
  have "?q = window ?c div window_buckets ?c" using c by (simp add: quot_nonneg)
  then have "window_buckets ?c * ?q \<le> window ?c"
    using c by (simp add: mult.commute minus_mod_eq_mult_div [symmetric])
  then show ?thesis using c by (simp add: fits_def new_breaker_def Let_def)
qed

lemma tracks_new:
  assumes "window c \<le> max_duration" "window_buckets c \<le> max_duration" "0 \<le> t"
  shows "tracks (new_breaker c) [] t"
proof -
  let ?b = "new_breaker c"
  have "windowed ?b [] (replicate (length (buckets ?b)) [])"
    by (intro windowed_fresh) (simp add: new_breaker_def Let_def)
  moreover have "logged [] (replicate (length (buckets ?b)) []) = []" by (simp add: logged_def)
  moreover have "current ?b = 0" by (simp add: new_breaker_def Let_def zero_time_def)
  ultimately show ?thesis
    using new_breaker_ok [of c] new_breaker_fits [OF assms(1,2)] assms(3)
    unfolding tracks_def by auto
qed

lemma windowed_totals:
  assumes "windowed b old xs"
  shows "totals b = (success (tally (concat (rev xs))), failure (tally (concat (rev xs))))"
  using assms by (simp add: totals_recent windowed_def tally_concat_rev comp_def)

lemma windowed_ages:
  assumes "windowed b old xs" "0 < bucket_span b" "current b \<le> t" "t < current b + bucket_span b"
    "N = int (length (buckets b))"
  shows "\<forall>e \<in> set (concat (rev xs)). t - fst e < N * bucket_span b"
    and "\<forall>e \<in> set old. (N - 1) * bucket_span b < t - fst e"
proof -
  note w = assms(1) [unfolded windowed_def]
  show "\<forall>e \<in> set (concat (rev xs)). t - fst e < N * bucket_span b"
  proof
    fix e assume "e \<in> set (concat (rev xs))"
    then obtain k where k: "k < length xs" "e \<in> set (xs ! k)" by (auto simp: in_set_conv_nth [of _ xs])
    then have "current b - int k * bucket_span b \<le> fst e" and "k < length (buckets b)" using w by auto
    moreover from this(2) have "int k * bucket_span b + bucket_span b \<le> N * bucket_span b"
      using mult_right_mono [of "int k + 1" N "bucket_span b"] assms(2,5) by (simp add: algebra_simps)
    ultimately show "t - fst e < N * bucket_span b" using assms(4) by linarith
  qed
  show "\<forall>e \<in> set old. (N - 1) * bucket_span b < t - fst e"
  proof (cases "length (buckets b)")
    case 0
    then have "fst e < current b" if "e \<in> set old" for e using w that by auto
    then show ?thesis using 0 assms by fastforce
  next
    case (Suc n)
    then have "int (length (buckets b) - 1) = N - 1" using assms(5) by simp
    then show ?thesis using w assms(3) by fastforce
  qed
qed

section \<open>Properties\<close>

text \<open>C1: The window is exact up to one bucket. In every trace of \<^verbatim>\<open>Allow\<close> and \<^verbatim>\<open>Record\<close> calls on
  a breaker from \<^verbatim>\<open>New\<close>, with clock readings that do not go back, the totals a closed \<^verbatim>\<open>Record\<close>
  judges are the tallies of a suffix of the outcomes recorded since the breaker last closed: each
  outcome in the suffix is younger than the window (buckets times span), and each outcome that
  was left out is older than the window less one bucket.\<close>

theorem breaker_window_exact:
  assumes "sorted (1 # concat (map stamps (cs @ [CallRecord ok t t2])))"
    and "window c \<le> max_duration" "window_buckets c \<le> max_duration"
    and "b = run cs (new_breaker c)" "st b = Closed"
    and "b' = fst (record_outcome ok t t2 b)"
    and "hist = closed_log cs (new_breaker c) [] @ [(t, ok)]"
    and "N = int (length (buckets b'))"
  shows "\<exists>k. totals b' = (success (tally (drop k hist)), failure (tally (drop k hist))) \<and>
           (\<forall>e \<in> set (drop k hist). t - fst e < N * bucket_span b') \<and>
           (\<forall>e \<in> set (take k hist). (N - 1) * bucket_span b' < t - fst e)"
proof -
  have s: "sorted (1 # concat (map stamps cs))" "\<forall>v \<in> set (concat (map stamps cs)). v \<le> t" "1 \<le> t"
    using assms(1) by (auto simp: sorted_append)
  have "tracks b (closed_log cs (new_breaker c) []) t"
    unfolding assms(4) using tracks_new [OF assms(2,3), of 1] s by (intro tracks_run) auto
  then obtain old xs where w: "windowed (count_outcome ok (advance t b)) old xs"
      "logged old xs = hist" "current (advance t b) \<le> t" "t < current (advance t b) + bucket_span b"
    using tracks_counted [of b _ t t ok] s(3) assms(7) by (metis order_refl zero_less_one less_le_trans)
  let ?b = "count_outcome ok (advance t b)"
  have b': "buckets b' = buckets ?b" "totals b' = totals ?b" "bucket_span b' = bucket_span ?b"
    using assms(5,6) by (auto simp: record_outcome_def Let_def totals_def)
  have sp: "0 < bucket_span ?b"
    using breaker_ok_run [OF new_breaker_ok, of cs c] assms(4) by (simp add: breaker_ok_def)
  have d: "drop (length old) hist = concat (rev xs)" "take (length old) hist = old"
    using w(2) by (auto simp: logged_def)
  show ?thesis
    using windowed_totals [OF w(1)] windowed_ages [OF w(1) sp _ _ refl, of t] w(3,4) b' d assms(8)
    by (intro exI [of _ "length old"]) simp
qed

definition demo_cfg :: cb_config where
  \<comment> \<open>a small configuration the concrete instances below run on\<close>
  "demo_cfg = \<lparr>failure_ratio = 1 / 2, min_requests = 4, window = 20, window_buckets = 2,
     open_for = 100, half_open_probes = 2, on_state_change = True\<rparr>"

lemma breaker_window_exact_witness:
  "\<exists>k. totals (fst (record_outcome False 17 17 (run [CallRecord True 3 3, CallAllow 4, CallRecord False 8 8]
           (new_breaker demo_cfg)))) =
        (success (tally (drop k [(3, True), (8, False), (17, False)])),
         failure (tally (drop k [(3, True), (8, False), (17, False)]))) \<and>
      (\<forall>e \<in> set (drop k [(3 :: int, True), (8, False), (17, False)]). 17 - fst e < 20) \<and>
      (\<forall>e \<in> set (take k [(3 :: int, True), (8, False), (17, False)]). 10 < 17 - fst e)"
proof -
  let ?cs = "[CallRecord True 3 3, CallAllow 4, CallRecord False 8 8]"
  have h: "closed_log ?cs (new_breaker demo_cfg) [] @ [(17, False)] = [(3, True), (8, False), (17, False)]"
    "st (run ?cs (new_breaker demo_cfg)) = Closed"
    "int (length (buckets (fst (record_outcome False 17 17 (run ?cs (new_breaker demo_cfg)))))) = 2"
    "bucket_span (fst (record_outcome False 17 17 (run ?cs (new_breaker demo_cfg)))) = 10"
    by code_simp+
  show ?thesis
    using breaker_window_exact [where cs = ?cs and c = demo_cfg and t = 17 and ?t2.0 = 17 and ok = False,
        OF _ _ _ refl h(2) refl h(1) [symmetric] refl]
    unfolding h by (simp add: demo_cfg_def max_duration_def)
qed

lemma totals_nonneg: "breaker_ok b \<Longrightarrow> totals b = (s, f) \<Longrightarrow> 0 \<le> s \<and> 0 \<le> f"
  by (auto simp: totals_def breaker_ok_def bucket_ok_def intro!: sum_list_nonneg)

lemma should_trip_counts:
  assumes "totals b = (s, f)" "0 \<le> s" "0 \<le> f" "s + f \<le> 2 ^ 53"
  shows "should_trip b \<longleftrightarrow>
    min_requests (cfg b) \<le> s + f \<and> failure_ratio (cfg b) \<le> rnd (of_int f / of_int (s + f))"
  using assms f64.fl_int [of f] f64.fl_int [of "s + f"]
  by (simp add: should_trip_def fdiv_def of_int64_def del: of_int_add)

text \<open>C2: When a closed breaker trips. Below \<^verbatim>\<open>MinRequests\<close> it never does; from there on it trips
  whenever the exact share of failures in the window reaches \<^verbatim>\<open>FailureRatio\<close>, restarts the
  recovery timer and reports closed to open; and when it trips the share is above every double
  below the threshold (the comparison is made on the rounded quotient).\<close>

theorem breaker_trip:
  assumes "breaker_ok b" "st b = Closed" "rnd (failure_ratio (cfg b)) = failure_ratio (cfg b)"
    and "b1 = count_outcome ok (advance t1 b)" "totals b1 = (s, f)" "s + f \<le> 2 ^ 53"
    and "record_outcome ok t1 t2 b = (b', fired)"
  shows "(s + f < min_requests (cfg b) \<longrightarrow> b' = b1 \<and> st b' = Closed \<and> fired = None) \<and>
    (min_requests (cfg b) \<le> s + f \<and> failure_ratio (cfg b) * of_int (s + f) \<le> of_int f \<longrightarrow>
       b' = b1\<lparr>st := Open, opened_at := t2, probes := 0, probe_success := 0\<rparr> \<and>
       fired = (if on_state_change (cfg b) then Some (Closed, Open) else None)) \<and>
    (st b' = Open \<longrightarrow> min_requests (cfg b) \<le> s + f \<and>
       (\<forall>q. rnd q = q \<and> q < failure_ratio (cfg b) \<longrightarrow> q * of_int (s + f) < of_int f))"
proof -
  have ok: "breaker_ok b1" using assms(1,4) by (auto intro: go_inv)
  have nn: "0 \<le> s" "0 \<le> f" using totals_nonneg [OF ok assms(5)] by auto
  have c: "cfg b1 = cfg b" "st b1 = Closed" using assms(2,4) by simp_all
  have m: "0 < min_requests (cfg b)" using assms(1) by (simp add: breaker_ok_def cfg_ok_def)
  note trip = should_trip_counts [OF assms(5) nn assms(6), unfolded c]
  have r: "record_outcome ok t1 t2 b = (if should_trip b1 then open_circuit t2 b1 else (b1, None))"
    using assms(2,4) by (simp add: record_outcome_def)
  let ?x = "of_int f / (of_int (s + f) :: rat)"
  have "failure_ratio (cfg b) \<le> rnd ?x"
    if "0 < s + f" "failure_ratio (cfg b) * of_int (s + f) \<le> of_int f"
    using that assms(3) by (intro f64.fl_ge) (simp_all add: pos_le_divide_eq del: of_int_add)
  then have yes: "should_trip b1"
    if "min_requests (cfg b) \<le> s + f" "failure_ratio (cfg b) * of_int (s + f) \<le> of_int f"
    using that trip m by force
  have below: "q * of_int (s + f) < of_int f"
    if t: "should_trip b1" and q: "rnd q = q" "q < failure_ratio (cfg b)" for q
  proof (rule ccontr)
    assume "\<not> q * of_int (s + f) < of_int f"
    moreover have "0 < s + f" using t trip m by simp
    ultimately have "?x \<le> q" by (simp add: pos_divide_le_eq del: of_int_add)
    then have "rnd ?x \<le> q" using f64.fl_le q(1) by blast
    then show False using t trip q(2) by simp
  qed
  show ?thesis
    using assms(7) r trip yes below c
    by (auto simp: open_circuit_def transition_def Let_def split: if_splits)
qed

lemma breaker_trip_witness:
  "breaker_ok (new_breaker demo_cfg) \<and>
   record_outcome False 5 6 (run (replicate 3 (CallRecord False 5 5)) (new_breaker demo_cfg)) =
     ((count_outcome False (advance 5 (run (replicate 3 (CallRecord False 5 5)) (new_breaker demo_cfg))))
        \<lparr>st := Open, opened_at := 6, probes := 0, probe_success := 0\<rparr>, Some (Closed, Open))"
proof -
  let ?b = "run (replicate 3 (CallRecord False 5 5)) (new_breaker demo_cfg)"
  let ?b1 = "count_outcome False (advance 5 ?b)"
  obtain b' fired where r: "record_outcome False 5 6 ?b = (b', fired)" by fastforce
  have h: "st ?b = Closed" "totals ?b1 = (0, 4)" "min_requests (cfg ?b) = 4"
    "failure_ratio (cfg ?b) = 1 / 2" "on_state_change (cfg ?b) = True"
    by (code_simp | simp add: Fract_of_int_quotient)+
  have "rnd (1 / 2) = 1 / 2" using rnd_exact [of 1 "-1"] by (simp add: power_int_minus)
  then show ?thesis
    using breaker_trip [OF _ h(1) _ refl h(2) _ r] breaker_ok_run [OF new_breaker_ok] h r
    by (simp add: new_breaker_ok)
qed

text \<open>C3: The state machine. A call moves the breaker only from closed to open, from open to
  half-open, and from half-open to open or closed; an open breaker is left by an \<^verbatim>\<open>Allow\<close> whose
  reading is at least \<^verbatim>\<open>OpenFor\<close> after the trip; \<^verbatim>\<open>OnStateChange\<close> is invoked exactly on a move, with
  the states moved between.\<close>

theorem breaker_transitions:
  "(st b = st (fst (call_step c b)) \<or>
    (st b, st (fst (call_step c b))) \<in> {(Closed, Open), (Open, HalfOpen), (HalfOpen, Open), (HalfOpen, Closed)}) \<and>
   (st b = Open \<and> st (fst (call_step c b)) \<noteq> Open \<longrightarrow>
     (\<exists>t. c = CallAllow t \<and> open_for (cfg b) \<le> time_sub t (opened_at b))) \<and>
   snd (call_step c b) =
     (if on_state_change (cfg b) \<and> st b \<noteq> st (fst (call_step c b))
      then Some (st b, st (fst (call_step c b))) else None)"
proof (cases c)
  case (CallAllow t)
  then show ?thesis by (auto simp: allow_def transition_def Let_def split: state.splits)
next
  case (CallRecord ok t1 t2)
  show ?thesis
  proof (cases "st b = Closed")
    case True
    then show ?thesis using CallRecord
      by (auto simp: record_outcome_def open_circuit_def transition_def Let_def)
  next
    case False
    then show ?thesis
      by (rule record_cases [of b ok t1 t2])
        (auto simp: CallRecord open_circuit_def transition_def Let_def)
  qed
qed

lemma breaker_transitions_witness:
  "st ((new_breaker demo_cfg)\<lparr>st := Open, opened_at := 50\<rparr>) = Open \<and>
   snd (call_step (CallAllow 150) ((new_breaker demo_cfg)\<lparr>st := Open, opened_at := 50\<rparr>)) = Some (Open, HalfOpen)"
proof -
  let ?b = "(new_breaker demo_cfg)\<lparr>st := Open, opened_at := 50\<rparr>"
  have "st (fst (call_step (CallAllow 150) ?b)) = HalfOpen" "on_state_change (cfg ?b)" by code_simp+
  then show ?thesis using breaker_transitions [of ?b "CallAllow 150"] by simp
qed

primrec allow_stamps :: "call \<Rightarrow> instant list" where
  "allow_stamps (CallAllow t) = [t]"
| "allow_stamps (CallRecord ok t1 t2) = []"

lemma allow_rejects:
  "st b = Open \<Longrightarrow> 0 < open_for (cfg b) \<Longrightarrow> open_for (cfg b) \<le> max_duration \<Longrightarrow>
    t < opened_at b + open_for (cfg b) \<Longrightarrow> allow t b = (Some ErrOpen, b, None)"
  using time_sub_less_iff [of "open_for (cfg b)" t "opened_at b"]
  by (simp add: allow_def min_duration_def)

lemma allow_probes:
  "st b = Open \<Longrightarrow> 0 < open_for (cfg b) \<Longrightarrow> open_for (cfg b) \<le> max_duration \<Longrightarrow>
    opened_at b + open_for (cfg b) \<le> t \<Longrightarrow>
    allow t b = (None, b\<lparr>st := HalfOpen, probes := 1, probe_success := 0\<rparr>,
      if on_state_change (cfg b) then Some (Open, HalfOpen) else None)"
  using time_sub_less_iff [of "open_for (cfg b)" t "opened_at b"]
  by (simp add: allow_def min_duration_def transition_def Let_def)

text \<open>An open breaker fails fast. Whatever calls are made on it, late \<^verbatim>\<open>Record\<close>s included, as
  long as every \<^verbatim>\<open>Allow\<close> reads a time before the trip plus \<^verbatim>\<open>OpenFor\<close>: the breaker is unchanged and
  the next such \<^verbatim>\<open>Allow\<close> returns \<^verbatim>\<open>ErrOpen\<close>. From that time on an \<^verbatim>\<open>Allow\<close> is granted as the first
  probe of the half-open state.\<close>

theorem breaker_open_fails_fast:
  assumes "st b = Open" "0 < open_for (cfg b)" "open_for (cfg b) \<le> max_duration"
    and "\<forall>u \<in> set (concat (map allow_stamps cs)). u < opened_at b + open_for (cfg b)"
  shows "run cs b = b \<and>
    (if t < opened_at b + open_for (cfg b) then allow t (run cs b) = (Some ErrOpen, b, None)
     else fst (allow t (run cs b)) = None \<and> st (fst (snd (allow t (run cs b)))) = HalfOpen \<and>
          probes (fst (snd (allow t (run cs b)))) = 1)"
proof -
  have "run cs b = b" using assms(4)
  proof (induction cs)
    case (Cons c cs)
    have "fst (call_step c b) = b"
      using Cons.prems assms(1-3) by (cases c) (simp_all add: allow_rejects record_open)
    then show ?case using Cons by simp
  qed simp
  then show ?thesis using assms by (simp add: allow_rejects allow_probes)
qed

lemma breaker_open_fails_fast_witness:
  "allow 149 (run [CallAllow 60, CallRecord True 70 70, CallAllow 149]
     ((new_breaker demo_cfg)\<lparr>st := Open, opened_at := 50\<rparr>)) =
   (Some ErrOpen, (new_breaker demo_cfg)\<lparr>st := Open, opened_at := 50\<rparr>, None)"
proof -
  have "open_for (cfg (new_breaker demo_cfg)) = 100" by code_simp
  then show ?thesis
    using breaker_open_fails_fast [of "(new_breaker demo_cfg)\<lparr>st := Open, opened_at := 50\<rparr>"
        "[CallAllow 60, CallRecord True 70 70, CallAllow 149]" 149]
    by (auto simp: max_duration_def simp del: run_simps)
qed

definition probe_pairs :: "instant list \<Rightarrow> call list" where
  \<comment> \<open>one granted attempt after the other, each reported as a success\<close>
  "probe_pairs ts = concat (map (\<lambda>t. [CallAllow t, CallRecord True t t]) ts)"

lemma probe_pair:
  "st b = HalfOpen \<Longrightarrow> probes b = 0 \<Longrightarrow> 0 < half_open_probes (cfg b) \<Longrightarrow>
    probe_success b + 1 < half_open_probes (cfg b) \<Longrightarrow>
    run [CallAllow t, CallRecord ok t t] b =
      (if ok then b\<lparr>probe_success := probe_success b + 1\<rparr>
       else b\<lparr>st := Open, opened_at := t, probes := 0, probe_success := 0\<rparr>)"
  by (simp add: allow_def record_outcome_def open_circuit_def transition_def Let_def)

lemma probe_pairs_half_open:
  assumes "st b = HalfOpen" "probes b = 0" "0 \<le> probe_success b"
    "probe_success b + int (length ts) < half_open_probes (cfg b)"
  shows "run (probe_pairs ts) b = b\<lparr>probe_success := probe_success b + int (length ts)\<rparr>"
  using assms
proof (induction ts arbitrary: b)
  case (Cons t ts)
  have "run (probe_pairs (t # ts)) b = run (probe_pairs ts) (run [CallAllow t, CallRecord True t t] b)"
    by (simp add: probe_pairs_def)
  also have "run [CallAllow t, CallRecord True t t] b = b\<lparr>probe_success := probe_success b + 1\<rparr>"
    using Cons.prems by (subst probe_pair) auto
  also have "run (probe_pairs ts) \<dots> = b\<lparr>probe_success := probe_success b + int (length (t # ts))\<rparr>"
    using Cons.prems by (subst Cons.IH) (simp_all add: algebra_simps)
  finally show ?case .
qed (simp add: probe_pairs_def)

lemma probe_fails:
  "st b = HalfOpen \<Longrightarrow> probes b = 0 \<Longrightarrow> 0 < half_open_probes (cfg b) \<Longrightarrow>
    run [CallAllow t, CallRecord False t t2] b =
      b\<lparr>st := Open, opened_at := t2, probes := 0, probe_success := 0\<rparr>"
  by (simp add: allow_def record_outcome_def open_circuit_def transition_def Let_def)

lemma probe_closes:
  "st b = HalfOpen \<Longrightarrow> probes b = 0 \<Longrightarrow> 0 < half_open_probes (cfg b) \<Longrightarrow>
    half_open_probes (cfg b) \<le> probe_success b + 1 \<Longrightarrow>
    run [CallAllow t, CallRecord True t t] b =
      (clear_buckets b)\<lparr>st := Closed, probes := 0, probe_success := 0, current := zero_time\<rparr>"
  by (simp add: allow_def record_last_probe clear_buckets_def)

lemma probes_from_open:
  assumes "breaker_ok b" "st b = Open" "open_for (cfg b) \<le> max_duration"
    and "opened_at b + open_for (cfg b) \<le> t" "int (length ts) < half_open_probes (cfg b)"
  shows "run (probe_pairs (t # ts)) b =
    (if half_open_probes (cfg b) = 1
     then (clear_buckets b)\<lparr>st := Closed, probes := 0, probe_success := 0, current := zero_time\<rparr>
     else run (probe_pairs ts) (b\<lparr>st := HalfOpen, probes := 0, probe_success := 1\<rparr>))"
proof -
  have c: "0 < open_for (cfg b)" "0 < half_open_probes (cfg b)" "probes b = 0" "probe_success b = 0"
    using assms(1,2) by (auto simp: breaker_ok_def cfg_ok_def)
  have a: "allow t b = (None, b\<lparr>st := HalfOpen, probes := 1, probe_success := 0\<rparr>,
      if on_state_change (cfg b) then Some (Open, HalfOpen) else None)"
    using c assms by (intro allow_probes) auto
  show ?thesis
    using c assms(5)
    by (auto simp: probe_pairs_def a record_last_probe record_more_probes clear_buckets_def)
qed

text \<open>C5: Recovery. From an open breaker whose \<^verbatim>\<open>OpenFor\<close> has passed, \<^verbatim>\<open>HalfOpenProbes\<close> successful
  attempts, one after the other, close it with an empty window and no anchor, so it starts like a
  new one; after fewer it is half-open, and then one failed attempt opens it again with the
  recovery timer restarted at the failure.\<close>

theorem breaker_recovery:
  assumes "breaker_ok b" "st b = Open" "open_for (cfg b) \<le> max_duration"
    and "ts \<noteq> []" "opened_at b + open_for (cfg b) \<le> hd ts"
  shows "(int (length ts) = half_open_probes (cfg b) \<longrightarrow>
      run (probe_pairs ts) b =
        (clear_buckets b)\<lparr>st := Closed, probes := 0, probe_success := 0, current := zero_time\<rparr>) \<and>
    (int (length ts) < half_open_probes (cfg b) \<longrightarrow>
      run (probe_pairs ts) b = b\<lparr>st := HalfOpen, probe_success := int (length ts)\<rparr> \<and>
      run (probe_pairs ts @ [CallAllow t, CallRecord False t t2]) b = b\<lparr>opened_at := t2\<rparr>)"
proof -
  obtain u us where ts: "ts = u # us" using assms(4) by (cases ts) auto
  have pb: "probes b = 0" "probe_success b = 0" "0 < half_open_probes (cfg b)"
    using assms(1,2) by (auto simp: breaker_ok_def cfg_ok_def)
  let ?h = "b\<lparr>st := HalfOpen, probes := 0, probe_success := 1\<rparr>"
  have first: "run (probe_pairs ts) b =
      (if half_open_probes (cfg b) = 1
       then (clear_buckets b)\<lparr>st := Closed, probes := 0, probe_success := 0, current := zero_time\<rparr>
       else run (probe_pairs us) ?h)"
    if "int (length us) < half_open_probes (cfg b)"
    unfolding ts using assms that ts by (intro probes_from_open) auto
  have more: "run (probe_pairs us) ?h = ?h\<lparr>probe_success := 1 + int (length us)\<rparr>"
    if "1 + int (length us) < half_open_probes (cfg b)" for us
    using that by (subst probe_pairs_half_open) auto
  have closes: "run (probe_pairs us) ?h =
      (clear_buckets b)\<lparr>st := Closed, probes := 0, probe_success := 0, current := zero_time\<rparr>"
    if full: "1 + int (length us) = half_open_probes (cfg b)" "us \<noteq> []"
  proof -
    obtain v w where us: "us = w @ [v]" using full(2) by (cases us rule: rev_cases) auto
    have "run (probe_pairs us) ?h = run [CallAllow v, CallRecord True v v] (run (probe_pairs w) ?h)"
      by (simp add: us probe_pairs_def)
    also have "run (probe_pairs w) ?h = ?h\<lparr>probe_success := 1 + int (length w)\<rparr>"
      using full us by (intro more) auto
    also have "run [CallAllow v, CallRecord True v v] (?h\<lparr>probe_success := 1 + int (length w)\<rparr>) =
        (clear_buckets b)\<lparr>st := Closed, probes := 0, probe_success := 0, current := zero_time\<rparr>"
      using full us by (subst probe_closes) (simp_all add: clear_buckets_def)
    finally show ?thesis .
  qed
  have len: "int (length ts) = 1 + int (length us)" using ts by simp
  have half: "run (probe_pairs ts) b = b\<lparr>st := HalfOpen, probes := 0, probe_success := int (length ts)\<rparr>"
    if "int (length ts) < half_open_probes (cfg b)"
    using that first more [of us] len by simp
  show ?thesis
  proof (intro conjI impI)
    assume full: "int (length ts) = half_open_probes (cfg b)"
    then show "run (probe_pairs ts) b =
        (clear_buckets b)\<lparr>st := Closed, probes := 0, probe_success := 0, current := zero_time\<rparr>"
      using first closes len by (cases "us = []") (simp_all split: if_splits)
  next
    assume part: "int (length ts) < half_open_probes (cfg b)"
    show "run (probe_pairs ts) b = b\<lparr>st := HalfOpen, probe_success := int (length ts)\<rparr>"
      using half [OF part] pb by (cases b) simp
    have "run (probe_pairs ts @ [CallAllow t, CallRecord False t t2]) b =
        run [CallAllow t, CallRecord False t t2] (run (probe_pairs ts) b)"
      by (rule run_simps(3))
    also have "\<dots> = b\<lparr>st := Open, opened_at := t2, probes := 0, probe_success := 0\<rparr>"
      unfolding half [OF part] using pb by (subst probe_fails) simp_all
    finally show "run (probe_pairs ts @ [CallAllow t, CallRecord False t t2]) b = b\<lparr>opened_at := t2\<rparr>"
      using pb assms(2) by (cases b) simp
  qed
qed

lemma breaker_recovery_witness:
  "run (probe_pairs [200, 210]) ((new_breaker demo_cfg)\<lparr>st := Open, opened_at := 50\<rparr>) =
   (new_breaker demo_cfg)\<lparr>opened_at := 50\<rparr> \<and>
   run (probe_pairs [200] @ [CallAllow 210, CallRecord False 210 215])
     ((new_breaker demo_cfg)\<lparr>st := Open, opened_at := 50\<rparr>) =
   (new_breaker demo_cfg)\<lparr>st := Open, opened_at := 215\<rparr>"
proof -
  let ?b = "(new_breaker demo_cfg)\<lparr>st := Open, opened_at := 50\<rparr>"
  have c: "cfg (new_breaker demo_cfg) = demo_cfg"
    by (simp add: new_breaker_def with_defaults_def demo_cfg_def pos_or_default_def Let_def)
  have ok: "breaker_ok ?b"
    using new_breaker_ok [of demo_cfg] by (simp add: breaker_ok_def new_breaker_def Let_def)
  have p: "probe_success (new_breaker demo_cfg) = 0" by code_simp
  have "open_for demo_cfg = 100" "half_open_probes demo_cfg = 2" by (simp_all add: demo_cfg_def)
  then have 2: "run (probe_pairs [200, 210]) ?b =
      (clear_buckets ?b)\<lparr>st := Closed, probes := 0, probe_success := 0, current := zero_time\<rparr>"
    and 1: "run (probe_pairs [200] @ [CallAllow 210, CallRecord False 210 215]) ?b = ?b\<lparr>opened_at := 215\<rparr>"
    using breaker_recovery [OF ok, of "[200, 210]" 0 0] breaker_recovery [OF ok, of "[200]" 210 215] c
    by (simp_all add: max_duration_def del: run_simps)
  show ?thesis unfolding 1 2 by (simp add: clear_buckets_def new_breaker_def Let_def)
qed

primrec allows :: "instant list \<Rightarrow> breaker \<Rightarrow> cb_error option list \<times> breaker" where
  \<comment> \<open>the answers of a burst of \<^verbatim>\<open>Allow\<close>s no outcome of which has come back yet\<close>
  "allows [] b = ([], b)"
| "allows (t # ts) b =
     (let (e, b1, _) = allow t b; (es, b2) = allows ts b1 in (e # es, b2))"

lemma allows_half_open:
  assumes "st b = HalfOpen" "probes b \<le> half_open_probes (cfg b)"
  shows "fst (allows ts b) =
    replicate (min (length ts) (nat (half_open_probes (cfg b) - probes b))) None @
    replicate (length ts - nat (half_open_probes (cfg b) - probes b)) (Some ErrOpen)"
  using assms
proof (induction ts arbitrary: b)
  case (Cons t ts)
  show ?case
  proof (cases "half_open_probes (cfg b) \<le> probes b")
    case True
    then have "allow t b = (Some ErrOpen, b, None)" using Cons.prems by (simp add: allow_def)
    then show ?thesis using True Cons.IH [of b] Cons.prems by (simp add: split_beta)
  next
    case False
    let ?b = "b\<lparr>probes := probes b + 1\<rparr>"
    obtain m where m: "nat (half_open_probes (cfg b) - probes b) = Suc m"
        "nat (half_open_probes (cfg b) - (probes b + 1)) = m"
      using False by (cases "nat (half_open_probes (cfg b) - probes b)") auto
    have "allow t b = (None, ?b, None)" using False Cons.prems by (simp add: allow_def)
    then show ?thesis using m Cons.IH [of ?b] Cons.prems False by (simp add: split_beta)
  qed
qed simp

text \<open>Probing admits \<^verbatim>\<open>HalfOpenProbes\<close> concurrent attempts. Of a burst of \<^verbatim>\<open>Allow\<close>s that reaches
  an open breaker after \<^verbatim>\<open>OpenFor\<close>, with no outcome reported in between, exactly the first
  \<^verbatim>\<open>HalfOpenProbes\<close> are granted and every other one gets \<^verbatim>\<open>ErrOpen\<close>.\<close>

theorem breaker_probe_cap:
  assumes "breaker_ok b" "st b = Open" "open_for (cfg b) \<le> max_duration"
    and "opened_at b + open_for (cfg b) \<le> t" "h = nat (half_open_probes (cfg b))"
  shows "fst (allows (t # ts) b) =
    replicate (min (Suc (length ts)) h) None @ replicate (Suc (length ts) - h) (Some ErrOpen)"
proof -
  have c: "0 < open_for (cfg b)" "0 < half_open_probes (cfg b)"
    using assms(1) by (auto simp: breaker_ok_def cfg_ok_def)
  obtain m where m: "h = Suc m" "nat (half_open_probes (cfg b) - 1) = m"
    using c assms(5) that [of "nat (half_open_probes (cfg b) - 1)"]
    by (simp add: Suc_nat_eq_nat_zadd1)
  have "allow t b = (None, b\<lparr>st := HalfOpen, probes := 1, probe_success := 0\<rparr>,
      if on_state_change (cfg b) then Some (Open, HalfOpen) else None)"
    using c assms by (intro allow_probes) auto
  then show ?thesis using c m by (simp add: split_beta allows_half_open)
qed

lemma breaker_probe_cap_witness:
  "fst (allows [150, 150, 151] ((new_breaker demo_cfg)\<lparr>st := Open, opened_at := 50\<rparr>)) =
   [None, None, Some ErrOpen]"
proof -
  let ?b = "(new_breaker demo_cfg)\<lparr>st := Open, opened_at := 50\<rparr>"
  have c: "cfg (new_breaker demo_cfg) = demo_cfg"
    by (simp add: new_breaker_def with_defaults_def demo_cfg_def pos_or_default_def Let_def)
  have ok: "breaker_ok ?b"
    using new_breaker_ok [of demo_cfg] by (simp add: breaker_ok_def new_breaker_def Let_def)
  show ?thesis
    using breaker_probe_cap [OF ok, of 150 2 "[150, 151]"] c
    by (simp add: demo_cfg_def max_duration_def numeral_2_eq_2)
qed

lemma round_trip_rejected:
  "fst (allow t0 b) = Some e \<Longrightarrow>
    round_trip base t0 t1 t2 req (w, b) = ((None, Some (Inl e)), w, fst (snd (allow t0 b)))"
  by (cases "allow t0 b") (simp add: round_trip_def)

lemma round_trip_returns_probe:
  assumes "st b = HalfOpen" "probes b < half_open_probes (cfg b)" "0 \<le> probes b"
    and "\<And>w b. snd (snd (base req (w, b))) = b"
    and "st (snd (snd (round_trip base t0 t1 t2 req (w, b)))) = HalfOpen"
  shows "probes (snd (snd (round_trip base t0 t1 t2 req (w, b)))) = probes b"
proof -
  let ?b = "b\<lparr>probes := probes b + 1\<rparr>"
  have a: "allow t0 b = (None, ?b, None)" using assms(1,2) by (simp add: allow_def)
  obtain resp err w' where r: "base req (w, ?b) = ((resp, err), w', ?b)"
    using assms(4) [of w ?b] by (metis prod.collapse)
  have "st ?b \<noteq> Closed" using assms(1) by simp
  then show ?thesis
    using assms(1,3,5) by (rule_tac record_cases [of ?b "err = None" t1 t2])
      (auto simp: round_trip_def a r)
qed

end
