(* ===== verification/SqlScanner.thy ===== *)
theory SqlScanner
  imports GoRunes "HOL-Library.Sublist"
begin

text \<open>
  The SQL script scanner, \<^verbatim>\<open>cli/migrationx/scanner.go\<close>: it cuts a migration file into the
  statements the engine executes. \<^verbatim>\<open>scanLine\<close> walks one line byte by byte; the shared
  \<^verbatim>\<open>strings.Builder\<close> and the statements \<^verbatim>\<open>flush\<close> appends are the arguments \<open>buf\<close> and \<open>out\<close>.
  \<^verbatim>\<open>parseScript\<close> runs over the lines of the file; its local variables are the record \<open>scanner\<close>,
  and every error return is a value of \<open>scan_error\<close>.

  \<open>cut_line\<close> is the reference the proofs use: the same lexical rules without a buffer, giving
  the pieces between top-level semicolons. The lemmas show that the scanner is that cut, that
  it loses no text, that what it emits is trimmed and executable, and that a script written
  from statements and regions parses back to them.
\<close>

section \<open>Data\<close>

datatype scan_state = ScanNormal | ScanSingleQuote | ScanDoubleQuote | ScanBacktick | ScanBlockComment

datatype scan_error =
    UnknownAnnotation nat string
  | NestedRegion nat
  | UnclosedRegion
  | StrayEnd nat
  | Unterminated

record script =
  statements :: "string list"
  no_tx :: bool

record scanner =
  sc_state :: scan_state
  sc_region :: bool
  sc_buf :: string
  sc_out :: "string list"
  sc_no_tx :: bool

section \<open>Operations\<close>

abbreviation bslash :: char where "bslash \<equiv> CHR 0x5C"
abbreviation squote :: char where "squote \<equiv> CHR 0x27"
abbreviation dquote :: char where "dquote \<equiv> CHR 0x22"
abbreviation btick :: char where "btick \<equiv> CHR 0x60"

definition peek :: "'a list \<Rightarrow> 'a \<Rightarrow> bool" where
  \<comment> \<open>\<^verbatim>\<open>i+1 < len(line) && line[i+1] == x\<close>\<close>
  "peek xs x = (case xs of [] \<Rightarrow> False | y # _ \<Rightarrow> y = x)"

fun quote_char :: "scan_state \<Rightarrow> char" where
  "quote_char ScanSingleQuote = squote"
| "quote_char ScanDoubleQuote = dquote"
| "quote_char _ = btick"

function executable_runes :: "bool \<Rightarrow> bool \<Rightarrow> nat list \<Rightarrow> bool" where
  \<comment> \<open>the loop of \<^verbatim>\<open>isExecutable\<close>; the second argument is \<^verbatim>\<open>inBlock\<close>\<close>
  "executable_runes hash blk [] = False"
| "executable_runes hash blk (r # rs) =
     (if blk then
        if r = 0x2A \<and> peek rs 0x2F then executable_runes hash False (tl rs)
        else executable_runes hash True rs
      else if (r = 0x2D \<and> peek rs 0x2D) \<or> (r = 0x23 \<and> hash) then
        executable_runes hash False (drop 1 (dropWhile (\<lambda>x. x \<noteq> 0x0A) rs))
      else if r = 0x2F \<and> peek rs 0x2A then executable_runes hash True (tl rs)
      else if is_space_rune r then executable_runes hash False rs
      else True)"
  by pat_completeness auto
termination
proof (relation "measure (\<lambda>(_, _, rs). length rs)")
  show "((hash, False, drop 1 (dropWhile (\<lambda>x. x \<noteq> 0x0A) rs)), hash, blk, r # rs)
      \<in> measure (\<lambda>(_, _, rs). length rs)" for hash blk r rs
    using length_dropWhile_le [of "\<lambda>x. x \<noteq> 0x0A" rs] by auto
qed auto

definition is_executable :: "bool \<Rightarrow> string \<Rightarrow> bool" where
  "is_executable hash stmt = executable_runes hash False (runes stmt)"

definition flush :: "bool \<Rightarrow> string \<Rightarrow> string list \<Rightarrow> string list" where
  "flush bs buf out =
     (let stmt = trim_space buf in if is_executable bs stmt then out @ [stmt] else out)"

fun scan_line ::
  "bool \<Rightarrow> bool \<Rightarrow> string \<Rightarrow> scan_state \<Rightarrow> string \<Rightarrow> string list \<Rightarrow> scan_state \<times> string \<times> string list" where
  "scan_line bs reg [] st buf out = (st, buf @ [LF], out)"
| "scan_line bs reg (c # cs) st buf out =
     (case st of
        ScanBlockComment \<Rightarrow>
          if c = CHR ''*'' \<and> peek cs (CHR ''/'')
          then scan_line bs reg (tl cs) ScanNormal (buf @ [c, CHR ''/'']) out
          else scan_line bs reg cs st (buf @ [c]) out
      | ScanNormal \<Rightarrow>
          if (c = CHR ''-'' \<and> peek cs (CHR ''-'')) \<or> (c = CHR ''#'' \<and> bs)
          then scan_line bs reg [] st (buf @ c # cs) out
          else if c = CHR ''/'' \<and> peek cs (CHR ''*'')
          then scan_line bs reg (tl cs) ScanBlockComment (buf @ ''/*'') out
          else if c = squote then scan_line bs reg cs ScanSingleQuote (buf @ [c]) out
          else if c = dquote then scan_line bs reg cs ScanDoubleQuote (buf @ [c]) out
          else if c = btick then scan_line bs reg cs ScanBacktick (buf @ [c]) out
          else if c = CHR '';'' \<and> \<not> reg then scan_line bs reg cs st [] (flush bs buf out)
          else scan_line bs reg cs st (buf @ [c]) out
      | _ \<Rightarrow>
          if bs \<and> c = bslash \<and> st \<noteq> ScanBacktick \<and> cs \<noteq> []
          then scan_line bs reg (tl cs) st (buf @ [c, hd cs]) out
          else scan_line bs reg cs (if c = quote_char st then ScanNormal else st) (buf @ [c]) out)"

definition annotation_prefix :: string where
  "annotation_prefix = ''-- migrationx:''"

definition step_line :: "bool \<Rightarrow> nat \<Rightarrow> string \<Rightarrow> scanner \<Rightarrow> scan_error + scanner" where
  \<comment> \<open>one iteration of \<^verbatim>\<open>parseScript\<close>'s loop; \<open>n\<close> is the line's index\<close>
  "step_line bs n line sc =
     (let trimmed = trim_space (trim_right_char CR line) in
      if sc_state sc = ScanNormal \<and> contains trimmed ''migrationx:'' \<and>
         \<not> has_prefix trimmed annotation_prefix \<and>
         (has_prefix trimmed ''--'' \<or> has_prefix trimmed ''#'')
      then Inl (UnknownAnnotation (n + 1) trimmed)
      else if sc_state sc = ScanNormal \<and> has_prefix trimmed annotation_prefix then
        let kind = trim_prefix trimmed annotation_prefix in
        if kind = ''no-transaction'' then Inr (sc\<lparr>sc_no_tx := True\<rparr>)
        else if kind = ''statement begin'' then
          if sc_region sc then Inl (NestedRegion (n + 1))
          else Inr (sc\<lparr>sc_out := flush bs (sc_buf sc) (sc_out sc), sc_buf := [], sc_region := True\<rparr>)
        else if kind = ''statement end'' then
          if \<not> sc_region sc then Inl (StrayEnd (n + 1))
          else Inr (sc\<lparr>sc_region := False, sc_out := flush bs (sc_buf sc) (sc_out sc), sc_buf := []\<rparr>)
        else Inl (UnknownAnnotation (n + 1) trimmed)
      else
        (case scan_line bs (sc_region sc) line (sc_state sc) (sc_buf sc) (sc_out sc) of
           (st, buf, out) \<Rightarrow> Inr (sc\<lparr>sc_state := st, sc_buf := buf, sc_out := out\<rparr>)))"

fun scan_lines :: "bool \<Rightarrow> nat \<Rightarrow> string list \<Rightarrow> scanner \<Rightarrow> scan_error + scanner" where
  "scan_lines bs n [] sc = Inr sc"
| "scan_lines bs n (l # ls) sc =
     (case step_line bs n l sc of Inl e \<Rightarrow> Inl e | Inr sc' \<Rightarrow> scan_lines bs (n + 1) ls sc')"

definition new_scanner :: scanner where
  "new_scanner = \<lparr>sc_state = ScanNormal, sc_region = False, sc_buf = [], sc_out = [], sc_no_tx = False\<rparr>"

definition parse_script :: "string \<Rightarrow> bool \<Rightarrow> scan_error + script" where
  "parse_script src bs =
     (case scan_lines bs 0 (split_on LF src) new_scanner of
        Inl e \<Rightarrow> Inl e
      | Inr sc \<Rightarrow>
          if sc_region sc then Inl UnclosedRegion
          else if sc_state sc \<noteq> ScanNormal then Inl Unterminated
          else Inr \<lparr>statements = flush bs (sc_buf sc) (sc_out sc), no_tx = sc_no_tx sc\<rparr>)"

section \<open>The reference cut\<close>

definition onto :: "'a list \<Rightarrow> 'a list list \<Rightarrow> 'a list list" where
  \<comment> \<open>put text in front of the first piece\<close>
  "onto b ps = (b @ hd ps) # tl ps"

fun cut_line :: "bool \<Rightarrow> bool \<Rightarrow> string \<Rightarrow> scan_state \<Rightarrow> scan_state \<times> string list" where
  "cut_line bs reg [] st = (st, [[LF]])"
| "cut_line bs reg (c # cs) st =
     (case st of
        ScanBlockComment \<Rightarrow>
          if c = CHR ''*'' \<and> peek cs (CHR ''/'')
          then map_prod id (onto [c, CHR ''/'']) (cut_line bs reg (tl cs) ScanNormal)
          else map_prod id (onto [c]) (cut_line bs reg cs st)
      | ScanNormal \<Rightarrow>
          if (c = CHR ''-'' \<and> peek cs (CHR ''-'')) \<or> (c = CHR ''#'' \<and> bs)
          then (st, [c # cs @ [LF]])
          else if c = CHR ''/'' \<and> peek cs (CHR ''*'')
          then map_prod id (onto ''/*'') (cut_line bs reg (tl cs) ScanBlockComment)
          else if c = squote then map_prod id (onto [c]) (cut_line bs reg cs ScanSingleQuote)
          else if c = dquote then map_prod id (onto [c]) (cut_line bs reg cs ScanDoubleQuote)
          else if c = btick then map_prod id (onto [c]) (cut_line bs reg cs ScanBacktick)
          else if c = CHR '';'' \<and> \<not> reg then map_prod id (Cons []) (cut_line bs reg cs st)
          else map_prod id (onto [c]) (cut_line bs reg cs st)
      | _ \<Rightarrow>
          if bs \<and> c = bslash \<and> st \<noteq> ScanBacktick \<and> cs \<noteq> []
          then map_prod id (onto [c, hd cs]) (cut_line bs reg (tl cs) st)
          else map_prod id (onto [c])
                 (cut_line bs reg cs (if c = quote_char st then ScanNormal else st)))"

definition emit :: "bool \<Rightarrow> string list \<Rightarrow> string list" where
  "emit bs ps = filter (is_executable bs) (map trim_space ps)"

lemma emit_simps [simp]: "emit bs [] = []" "emit bs (ps @ qs) = emit bs ps @ emit bs qs"
  by (simp_all add: emit_def)

lemma flush_emit: "flush bs buf out = out @ emit bs [buf]"
  by (simp add: flush_def emit_def Let_def)

lemma onto_simps [simp]:
  "onto b (p # ps) = (b @ p) # ps" "onto b ps \<noteq> []" "length (onto b ps) = Suc (length (tl ps))"
  by (simp_all add: onto_def)

lemma onto_onto: "onto a (onto b ps) = onto (a @ b) ps"
  by (simp add: onto_def)

lemma onto_Nil: "ps \<noteq> [] \<Longrightarrow> onto [] ps = ps"
  by (simp add: onto_def)

lemma cut_line_ne [simp]: "snd (cut_line bs reg l st) \<noteq> []"
  by (cases l; cases st) (simp_all del: onto_simps(1))

definition deliver ::
  "bool \<Rightarrow> string \<Rightarrow> string list \<Rightarrow> scan_state \<times> string list \<Rightarrow> scan_state \<times> string \<times> string list" where
  \<comment> \<open>what the scanner holds when the pieces of \<open>r\<close> follow the text in \<open>buf\<close>\<close>
  "deliver bs buf out r =
     (fst r, last (onto buf (snd r)), out @ emit bs (butlast (onto buf (snd r))))"

lemma deliver_onto: "deliver bs buf out (map_prod id (onto b) r) = deliver bs (buf @ b) out r"
  by (simp add: deliver_def onto_onto)

lemma deliver_cut:
  "snd r \<noteq> [] \<Longrightarrow> deliver bs buf out (map_prod id (Cons []) r) = deliver bs [] (flush bs buf out) r"
  by (cases "snd r") (simp_all add: deliver_def onto_def flush_emit emit_def)

lemma deliver_single: "deliver bs buf out (st, [p]) = (st, buf @ p, out)"
  by (simp add: deliver_def)

lemma scan_line_cut: "scan_line bs reg l st buf out = deliver bs buf out (cut_line bs reg l st)"
proof (induction l arbitrary: bs reg st buf out rule: length_induct)
  case (1 l)
  show ?case
  proof (cases l)
    case Nil
    then show ?thesis by (simp add: deliver_single)
  next
    case (Cons c cs)
    have IH: "scan_line bs reg l' st buf out = deliver bs buf out (cut_line bs reg l' st)"
      if "length l' \<le> length cs" for bs reg l' st buf out
      using 1 Cons that by simp
    show ?thesis
      unfolding Cons by (cases st) (simp_all add: IH deliver_onto deliver_cut deliver_single)
  qed
qed

lemma peek_tl: "peek xs x \<Longrightarrow> xs = x # tl xs"
  by (cases xs) (auto simp: peek_def)

lemma join_onto: "ps \<noteq> [] \<Longrightarrow> join sep (onto b ps) = b @ join sep ps"
  by (cases ps; cases "tl ps") (auto simp: onto_def)

lemma join_Nil_Cons: "ps \<noteq> [] \<Longrightarrow> join sep ([] # ps) = sep @ join sep ps"
  by (cases ps) auto

lemma cut_line_join: "join '';'' (snd (cut_line bs reg l st)) = l @ [LF]"
proof (induction l arbitrary: bs reg st rule: length_induct)
  case (1 l)
  show ?case
  proof (cases l)
    case (Cons c cs)
    have IH: "join '';'' (snd (cut_line bs reg l' st)) = l' @ [LF]"
      if "length l' \<le> length cs" for bs reg l' st
      using 1 Cons that by simp
    show ?thesis
      unfolding Cons
      by (cases st) (auto simp: IH join_onto join_Nil_Cons dest!: peek_tl)
  qed simp
qed

lemma cut_line_region: "snd (cut_line bs True l st) = [l @ [LF]]"
proof -
  have "length (snd (cut_line bs True l st)) = 1" for l
  proof (induction l arbitrary: bs st rule: length_induct)
    case (1 l)
    show ?case
    proof (cases l)
      case (Cons c cs)
      have "length (snd (cut_line bs True l' st)) = 1" if "length l' \<le> length cs" for bs l' st
        using 1 Cons that by simp
      then have IH: "tl (snd (cut_line bs True l' st)) = []" if "length l' \<le> length cs" for bs l' st
        using that by (metis length_tl length_0_conv diff_self_eq_0)
      show ?thesis
        unfolding Cons by (cases st) (simp_all add: IH)
    qed simp
  qed
  from this [of l] obtain p where "snd (cut_line bs True l st) = [p]"
    by (metis One_nat_def length_0_conv length_Suc_conv)
  then show ?thesis using cut_line_join [of bs True l st] by simp
qed

section \<open>Nothing is lost\<close>

definition weave :: "(string \<times> string) list \<Rightarrow> string" where
  \<comment> \<open>pieces of text, each followed by its separator\<close>
  "weave xs = concat (map (\<lambda>(p, sep). p @ sep) xs)"

lemma weave_simps [simp]:
  "weave [] = []" "weave ((p, s) # xs) = p @ s @ weave xs" "weave (xs @ ys) = weave xs @ weave ys"
  by (simp_all add: weave_def)

definition is_annotation :: "string \<Rightarrow> bool" where
  "is_annotation line = has_prefix (trim_space (trim_right_char CR line)) annotation_prefix"

definition kept_text :: "string list \<Rightarrow> bool list \<Rightarrow> string" where
  \<comment> \<open>the kept lines, each with its newline\<close>
  "kept_text ls keep = concat (map (\<lambda>(l, k). if k then l @ [LF] else []) (zip ls keep))"

lemma kept_text_snoc:
  "length ls = length keep \<Longrightarrow>
    kept_text (ls @ [l]) (keep @ [k]) = kept_text ls keep @ (if k then l @ [LF] else [])"
  by (simp add: kept_text_def)

definition dropped_ok :: "string list \<Rightarrow> bool list \<Rightarrow> bool" where
  "dropped_ok ls keep \<longleftrightarrow>
     length keep = length ls \<and> list_all (\<lambda>(l, k). \<not> k \<longrightarrow> is_annotation l) (zip ls keep)"

definition accounts :: "bool \<Rightarrow> string list \<Rightarrow> scanner \<Rightarrow> (string \<times> string) list \<Rightarrow> bool list \<Rightarrow> bool" where
  "accounts bs ls sc xs keep \<longleftrightarrow>
     dropped_ok ls keep \<and>
     weave xs @ sc_buf sc = kept_text ls keep \<and>
     sc_out sc = emit bs (map fst xs) \<and>
     (\<forall>(p, sep) \<in> set xs. sep = [] \<or> sep = '';'')"

lemma weave_pieces:
  "ps \<noteq> [] \<Longrightarrow> weave (map (\<lambda>p. (p, '';'')) (butlast ps)) @ last ps = join '';'' ps"
proof (induction ps)
  case (Cons p ps)
  then show ?case by (cases ps) auto
qed simp

lemma accounts_scan:
  assumes a: "accounts bs ls sc xs keep"
    and s: "scan_line bs (sc_region sc) l (sc_state sc) (sc_buf sc) (sc_out sc) = (st, buf, out)"
  shows "\<exists>xs' keep'. accounts bs (ls @ [l]) (sc\<lparr>sc_state := st, sc_buf := buf, sc_out := out\<rparr>) xs' keep'"
proof -
  let ?ps = "snd (cut_line bs (sc_region sc) l (sc_state sc))"
  let ?qs = "onto (sc_buf sc) ?ps"
  let ?xs = "xs @ map (\<lambda>p. (p, '';'')) (butlast ?qs)"
  have d: "buf = last ?qs" "out = sc_out sc @ emit bs (butlast ?qs)"
    using s by (simp_all add: scan_line_cut deliver_def)
  have "weave ?xs @ buf = weave xs @ sc_buf sc @ join '';'' ?ps"
    using weave_pieces [of ?qs] by (simp add: d join_onto)
  also have "\<dots> = kept_text ls keep @ l @ [LF]"
    using a unfolding accounts_def cut_line_join by (metis append_assoc)
  also have "\<dots> = kept_text (ls @ [l]) (keep @ [True])"
    using a by (simp add: kept_text_snoc accounts_def dropped_ok_def)
  finally have w: "weave ?xs @ buf = kept_text (ls @ [l]) (keep @ [True])" .
  have o: "out = emit bs (map fst ?xs)"
    using a unfolding d(2) accounts_def by (simp add: comp_def)
  have seps: "\<forall>(p, sep) \<in> set ?xs. sep = [] \<or> sep = '';''"
    using a unfolding accounts_def by auto
  have "dropped_ok (ls @ [l]) (keep @ [True])"
    using a by (simp add: accounts_def dropped_ok_def)
  then have "accounts bs (ls @ [l]) (sc\<lparr>sc_state := st, sc_buf := buf, sc_out := out\<rparr>) ?xs (keep @ [True])"
    using w o seps unfolding accounts_def by simp
  then show ?thesis by blast
qed

lemma accounts_flush:
  assumes "accounts bs ls sc xs keep" "is_annotation l"
  shows "\<exists>xs' keep'. accounts bs (ls @ [l])
    (sc\<lparr>sc_region := r, sc_out := flush bs (sc_buf sc) (sc_out sc), sc_buf := []\<rparr>) xs' keep'"
  using assms
  by (intro exI [of _ "xs @ [(sc_buf sc, [])]"] exI [of _ "keep @ [False]"])
    (auto simp: accounts_def dropped_ok_def kept_text_snoc flush_emit)

lemma accounts_skip:
  assumes "accounts bs ls sc xs keep" "is_annotation l"
  shows "\<exists>xs' keep'. accounts bs (ls @ [l]) (sc\<lparr>sc_no_tx := True\<rparr>) xs' keep'"
  using assms
  by (intro exI [of _ xs] exI [of _ "keep @ [False]"])
    (auto simp: accounts_def dropped_ok_def kept_text_snoc)

lemma begin_order:
  "sc\<lparr>sc_out := out, sc_buf := b, sc_region := r\<rparr> = sc\<lparr>sc_region := r, sc_out := out, sc_buf := b\<rparr>"
  by simp

lemma accounts_step:
  assumes "accounts bs ls sc xs keep" "step_line bs n l sc = Inr sc'"
  shows "\<exists>xs' keep'. accounts bs (ls @ [l]) sc' xs' keep'"
proof (cases "sc_state sc = ScanNormal \<and> is_annotation l")
  case True
  then have ann: "is_annotation l" by simp
  show ?thesis
    using True assms(2) accounts_flush [OF assms(1) ann] accounts_skip [OF assms(1) ann]
    by (auto simp: step_line_def is_annotation_def Let_def begin_order split: if_splits)
next
  case False
  obtain st buf out where
    s: "scan_line bs (sc_region sc) l (sc_state sc) (sc_buf sc) (sc_out sc) = (st, buf, out)"
    by (metis prod_cases3)
  then have "sc' = sc\<lparr>sc_state := st, sc_buf := buf, sc_out := out\<rparr>"
    using False assms(2) by (auto simp: step_line_def is_annotation_def Let_def split: if_splits)
  then show ?thesis using accounts_scan [OF assms(1) s] by simp
qed

lemma accounts_lines:
  assumes "accounts bs ls sc xs keep" "scan_lines bs n ls' sc = Inr sc'"
  shows "\<exists>xs' keep'. accounts bs (ls @ ls') sc' xs' keep'"
  using assms
proof (induction ls' arbitrary: ls sc xs keep n)
  case (Cons l ls')
  then obtain sc1 where s: "step_line bs n l sc = Inr sc1" "scan_lines bs (n + 1) ls' sc1 = Inr sc'"
    by (auto split: sum.splits)
  obtain xs1 keep1 where "accounts bs (ls @ [l]) sc1 xs1 keep1"
    using accounts_step [OF Cons.prems(1) s(1)] by blast
  from Cons.IH [OF this s(2)] show ?case by simp
qed auto

section \<open>What is emitted\<close>

lemma is_executable_ne: "is_executable bs s \<Longrightarrow> s \<noteq> []"
  by (auto simp: is_executable_def)

lemma emit_ok: "s \<in> set (emit bs ps) \<Longrightarrow> trim_space s = s \<and> is_executable bs s"
  by (auto simp: emit_def)

lemma executable_nonspace:
  "executable_runes h blk rs \<Longrightarrow> \<exists>r \<in> set rs. \<not> is_space_rune r"
proof (induction h blk rs rule: executable_runes.induct)
  case (2 hash blk r rs)
  have sub: "set (drop 1 (dropWhile P rs)) \<subseteq> set rs" for P
    using set_drop_subset set_dropWhileD by fastforce
  have tl: "set (tl rs) \<subseteq> set rs" by (cases rs) auto
  have "\<not> is_space_rune 0x2D" "\<not> is_space_rune 0x23" "\<not> is_space_rune 0x2A" "\<not> is_space_rune 0x2F"
    by (simp_all add: is_space_rune_def)
  then show ?case using 2 tl
    by (cases "is_space_rune r") (auto split: if_splits)
qed simp

lemmas scan_eval =
  parse_script_def new_scanner_def step_line_def flush_def is_executable_def runes_ascii
  trim_space_ascii trim_list_def is_space_rune_def trim_right_char_def annotation_prefix_def
  has_prefix_def trim_prefix_def peek_def Let_def

text \<open>What the scanner hands to the engine. Every statement of a parsed script is trimmed of
  white space at both ends and contains something to execute: some rune that is neither white
  space nor inside a comment, so no blank or comment-only query is ever sent.\<close>

theorem statements_executable:
  assumes "parse_script src bs = Inr sc" "s \<in> set (statements sc)"
  shows "trim_space s = s \<and> is_executable bs s \<and> s \<noteq> [] \<and> (\<exists>r \<in> set (runes s). \<not> is_space_rune r)"
proof -
  obtain scn where scn: "scan_lines bs 0 (split_on LF src) new_scanner = Inr scn"
      "statements sc = flush bs (sc_buf scn) (sc_out scn)"
    using assms(1) by (auto simp: parse_script_def split: sum.splits if_splits)
  have "accounts bs [] new_scanner [] []"
    by (simp add: accounts_def dropped_ok_def new_scanner_def kept_text_def)
  then obtain xs keep where "accounts bs ([] @ split_on LF src) scn xs keep"
    using accounts_lines scn(1) by blast
  then have "statements sc = emit bs (map fst xs @ [sc_buf scn])"
    using scn(2) by (simp add: accounts_def flush_emit)
  then have s: "trim_space s = s \<and> is_executable bs s" using assms(2) emit_ok by metis
  then show ?thesis
    using is_executable_ne executable_nonspace by (metis is_executable_def)
qed

lemma statements_executable_witness:
  "parse_script ''select 1; -- done'' False = Inr \<lparr>statements = [''select 1''], no_tx = False\<rparr> \<and>
   is_executable False ''select 1''"
proof -
  have p: "parse_script ''select 1; -- done'' False = Inr \<lparr>statements = [''select 1''], no_tx = False\<rparr>"
    by (simp add: scan_eval)
  show ?thesis using statements_executable [OF p, of "''select 1''"] p by simp
qed

text \<open>C8: Scanning loses nothing. The lines of the file are kept whole except annotation lines, and
  the text kept is exactly the pieces the scanner cut, in order, with the semicolons it split on
  (a region boundary cuts without one); the statements are those pieces, trimmed, less the
  pieces with nothing to execute.\<close>

theorem parse_lossless:
  assumes "parse_script src bs = Inr sc"
  shows "\<exists>keep xs. length keep = length (split_on LF src) \<and>
    list_all (\<lambda>(l, k). k \<or> is_annotation l) (zip (split_on LF src) keep) \<and>
    kept_text (split_on LF src) keep = weave xs \<and>
    list_all (\<lambda>(p, sep). sep \<in> {[], '';''}) xs \<and>
    statements sc = filter (is_executable bs) (map (trim_space \<circ> fst) xs)"
proof -
  obtain scn where scn: "scan_lines bs 0 (split_on LF src) new_scanner = Inr scn"
      "statements sc = flush bs (sc_buf scn) (sc_out scn)"
    using assms(1) by (auto simp: parse_script_def split: sum.splits if_splits)
  have "accounts bs [] new_scanner [] []"
    by (simp add: accounts_def dropped_ok_def new_scanner_def kept_text_def)
  then obtain xs keep where a: "accounts bs ([] @ split_on LF src) scn xs keep"
    using accounts_lines scn(1) by blast
  let ?xs = "xs @ [(sc_buf scn, [])]"
  have "statements sc = emit bs (map fst ?xs)"
    using a scn(2) by (simp add: accounts_def flush_emit)
  moreover have "kept_text (split_on LF src) keep = weave ?xs"
    using a by (simp add: accounts_def)
  moreover have "list_all (\<lambda>(p, sep). sep \<in> {[], '';''}) ?xs"
    using a by (auto simp: accounts_def list_all_iff)
  ultimately show ?thesis
    using a by (intro exI [of _ keep] exI [of _ ?xs])
      (simp add: accounts_def dropped_ok_def emit_def list_all_iff split_beta disj_commute imp_conv_disj)
qed

lemma parse_lossless_witness:
  "\<exists>keep xs. length keep = 2 \<and>
    list_all (\<lambda>(l, k). k \<or> is_annotation l) (zip [''-- migrationx:no-transaction'', ''a;b''] keep) \<and>
    kept_text [''-- migrationx:no-transaction'', ''a;b''] keep = weave xs \<and>
    list_all (\<lambda>(p, sep). sep \<in> {[], '';''}) xs \<and>
    [''a'', ''b''] = filter (is_executable True) (map (trim_space \<circ> fst) xs)"
proof -
  let ?src = "''-- migrationx:no-transaction'' @ [LF] @ ''a;b''"
  have p: "parse_script ?src True = Inr \<lparr>statements = [''a'', ''b''], no_tx = True\<rparr>" by (simp add: scan_eval)
  have l: "split_on LF ?src = [''-- migrationx:no-transaction'', ''a;b'']" by simp
  show ?thesis using parse_lossless [OF p] unfolding l by (simp add: numeral_2_eq_2)
qed

section \<open>Writing a script\<close>

fun cut_lines :: "bool \<Rightarrow> bool \<Rightarrow> string list \<Rightarrow> scan_state \<Rightarrow> scan_state \<times> string list" where
  "cut_lines bs reg [] st = (st, [[]])"
| "cut_lines bs reg (l # ls) st =
     (let (st1, ps) = cut_line bs reg l st; (st2, qs) = cut_lines bs reg ls st1
      in (st2, butlast ps @ onto (last ps) qs))"

definition quiet :: "string \<Rightarrow> bool" where
  "quiet line \<longleftrightarrow> \<not> contains line ''migrationx:''"

datatype block = Stmt string | Region string

fun block_lines :: "block \<Rightarrow> string list" where
  "block_lines (Stmt s) = split_on LF (s @ '';'')"
| "block_lines (Region b) =
     ''-- migrationx:statement begin'' # split_on LF b @ [''-- migrationx:statement end'']"

fun block_text :: "block \<Rightarrow> string" where
  "block_text (Stmt s) = s"
| "block_text (Region b) = b"

definition write_script :: "block list \<Rightarrow> string" where
  "write_script bs = concat (map (\<lambda>l. l @ [LF]) (concat (map block_lines bs)))"

fun block_ok :: "bool \<Rightarrow> block \<Rightarrow> bool" where
  "block_ok bs (Stmt s) \<longleftrightarrow>
     trim_space s = s \<and> is_executable bs s \<and> list_all quiet (split_on LF (s @ '';'')) \<and>
     cut_lines bs False (split_on LF (s @ '';'')) ScanNormal = (ScanNormal, [s, [LF]])"
| "block_ok bs (Region b) \<longleftrightarrow>
     trim_space (b @ [LF]) = b \<and> is_executable bs b \<and> list_all quiet (split_on LF b) \<and>
     fst (cut_lines bs True (split_on LF b) ScanNormal) = ScanNormal"

lemma trim_space_infix: "\<exists>a b. s = a @ trim_space s @ b"
proof -
  obtain a b where "chunks s = a @ trim_list (\<lambda>p. is_space_rune (fst p)) (chunks s) @ b"
    using trim_list_infix by blast
  then have "concat (map snd (chunks s)) = concat (map snd a) @ trim_space s @ concat (map snd b)"
    by (metis trim_space_def concat_append map_append)
  then show ?thesis by (auto simp: concat_chunks)
qed

lemma trim_right_prefix: "\<exists>b. s = trim_right_char c s @ b"
  by (metis trim_right_char_def rev_rev_ident rev_append takeWhile_dropWhile_id)

lemma contains_infix: "contains t p \<Longrightarrow> contains (a @ t @ b) p"
  by (metis append.assoc contains_iff)

lemma quiet_trimmed: "quiet l \<Longrightarrow> \<not> contains (trim_space (trim_right_char CR l)) ''migrationx:''"
proof
  assume q: "quiet l" and c: "contains (trim_space (trim_right_char CR l)) ''migrationx:''"
  obtain a b where 1: "trim_right_char CR l = a @ trim_space (trim_right_char CR l) @ b"
    using trim_space_infix by blast
  obtain d where 2: "l = trim_right_char CR l @ d"
    using trim_right_prefix by blast
  have "contains (trim_right_char CR l) ''migrationx:''"
    using contains_infix [OF c, of a b] 1 by simp
  then have "contains ([] @ trim_right_char CR l @ d) ''migrationx:''" by (rule contains_infix)
  then show False using q 2 by (simp add: quiet_def)
qed

lemma prefix_contains: "has_prefix s annotation_prefix \<Longrightarrow> contains s ''migrationx:''"
proof -
  assume "has_prefix s annotation_prefix"
  then obtain r where "s = ''-- '' @ ''migrationx:'' @ r"
    by (auto simp: has_prefix_iff annotation_prefix_def)
  then show ?thesis by (metis contains_iff)
qed

definition apply_cut :: "bool \<Rightarrow> scanner \<Rightarrow> scan_state \<times> string list \<Rightarrow> scanner" where
  "apply_cut bs sc r =
     sc\<lparr>sc_state := fst r, sc_buf := last (onto (sc_buf sc) (snd r)),
        sc_out := sc_out sc @ emit bs (butlast (onto (sc_buf sc) (snd r)))\<rparr>"

lemma step_quiet:
  "quiet l \<Longrightarrow> step_line bs n l sc = Inr (apply_cut bs sc (cut_line bs (sc_region sc) l (sc_state sc)))"
  using quiet_trimmed [of l] prefix_contains [of "trim_space (trim_right_char CR l)"]
  by (auto simp: step_line_def Let_def scan_line_cut deliver_def apply_cut_def)

lemma cut_lines_ne [simp]: "snd (cut_lines bs reg ls st) \<noteq> []"
  by (cases ls) (simp_all add: split_beta)

lemma apply_cut_compose:
  assumes "ps \<noteq> []" "qs \<noteq> []"
  shows "apply_cut bs (apply_cut bs sc (st1, ps)) (st2, qs) = apply_cut bs sc (st2, butlast ps @ onto (last ps) qs)"
proof -
  obtain q qs' where q: "qs = q # qs'" using assms(2) by (cases qs) auto
  obtain p' l where p: "ps = p' @ [l]" using assms(1) by (cases ps rule: rev_cases) auto
  show ?thesis
    by (cases p') (auto simp: apply_cut_def p q onto_def butlast_append emit_def)
qed

lemma scan_quiet:
  assumes "list_all quiet ls"
  shows "scan_lines bs n ls sc = Inr (apply_cut bs sc (cut_lines bs (sc_region sc) ls (sc_state sc)))"
  using assms
proof (induction ls arbitrary: n sc)
  case (Cons l ls)
  obtain st1 ps where 1: "cut_line bs (sc_region sc) l (sc_state sc) = (st1, ps)" by fastforce
  obtain st2 qs where 2: "cut_lines bs (sc_region sc) ls st1 = (st2, qs)" by fastforce
  have "ps \<noteq> []" "qs \<noteq> []"
    using cut_line_ne [of bs "sc_region sc" l "sc_state sc"] cut_lines_ne [of bs "sc_region sc" ls st1] 1 2
    by simp_all
  note c = apply_cut_compose [OF this, of bs sc st1 st2]
  have "sc_region (apply_cut bs sc (st1, ps)) = sc_region sc" "sc_state (apply_cut bs sc (st1, ps)) = st1"
    by (simp_all add: apply_cut_def)
  then show ?case using Cons 1 2 c by (simp add: step_quiet)
qed (simp add: apply_cut_def onto_def)

lemma scan_lines_append:
  "scan_lines bs n (xs @ ys) sc =
    (case scan_lines bs n xs sc of Inl e \<Rightarrow> Inl e | Inr sc' \<Rightarrow> scan_lines bs (n + length xs) ys sc')"
  by (induction xs arbitrary: n sc) (auto split: sum.splits)

lemma split_on_lines: "split_on LF (a @ LF # b) = split_on LF a @ split_on LF b"
proof (induction a)
  case (Cons x a)
  then show ?case by (cases "split_on LF a") auto
qed simp

lemma split_concat_lines:
  "\<forall>l \<in> set ls. LF \<notin> set l \<Longrightarrow> split_on LF (concat (map (\<lambda>l. l @ [LF]) ls)) = ls @ [[]]"
  by (induction ls) (auto simp: split_on_lines split_on_no_sep)

lemma cut_lines_region: "snd (cut_lines bs True ls st) = [concat (map (\<lambda>l. l @ [LF]) ls)]"
  by (induction ls arbitrary: st) (auto simp: split_beta cut_line_region onto_def)

lemma join_lines: "ls \<noteq> [] \<Longrightarrow> concat (map (\<lambda>l. l @ [LF]) ls) = join [LF] ls @ [LF]"
proof (induction "[LF]" ls rule: join.induct)
qed auto

definition idle :: "scanner \<Rightarrow> bool" where
  "idle sc \<longleftrightarrow> sc_state sc = ScanNormal \<and> \<not> sc_region sc \<and> (sc_buf sc = [] \<or> sc_buf sc = [LF])"

lemma trim_space_LF: "trim_space (LF # s) = trim_space s"
proof -
  have "chunks (LF # s) = (10, [LF]) # chunks s" by (simp add: chunks_ascii_Cons)
  then show ?thesis by (simp add: trim_space_def trim_list_def is_space_rune_def)
qed

lemma emit_blank: "emit bs [[]] = []" "emit bs [[LF]] = []"
  by (simp_all add: emit_def is_executable_def trim_space_LF)

lemma step_begin:
  "idle sc \<Longrightarrow> step_line bs n ''-- migrationx:statement begin'' sc =
    Inr (sc\<lparr>sc_buf := [], sc_region := True\<rparr>)"
  by (auto simp: idle_def scan_eval is_executable_def)

lemma step_end:
  "sc_state sc = ScanNormal \<Longrightarrow> sc_region sc \<Longrightarrow>
    step_line bs n ''-- migrationx:statement end'' sc =
      Inr (sc\<lparr>sc_region := False, sc_out := sc_out sc @ emit bs [sc_buf sc], sc_buf := []\<rparr>)"
  unfolding step_line_def flush_emit
  by (simp add: trim_space_ascii trim_list_def is_space_rune_def trim_right_char_def
      annotation_prefix_def has_prefix_def trim_prefix_def Let_def)

lemma scan_block:
  assumes "block_ok bs blk" "idle sc"
  shows "\<exists>sc'. scan_lines bs n (block_lines blk) sc = Inr sc' \<and> idle sc' \<and>
    sc_out sc' = sc_out sc @ [block_text blk] \<and> sc_no_tx sc' = sc_no_tx sc"
proof (cases blk)
  case (Stmt s)
  have e: "emit bs [sc_buf sc @ s] = [s]"
    using assms Stmt by (auto simp: emit_def idle_def trim_space_LF)
  show ?thesis
    using assms Stmt e by (simp add: scan_quiet idle_def) (simp add: apply_cut_def)
next
  case (Region b)
  let ?ls = "split_on LF b"
  let ?sc1 = "sc\<lparr>sc_buf := [], sc_region := True\<rparr>"
  have body: "snd (cut_lines bs True ?ls ScanNormal) = [b @ [LF]]"
    by (simp add: cut_lines_region join_lines join_split_on)
  have st: "fst (cut_lines bs True ?ls ScanNormal) = ScanNormal" "list_all quiet ?ls"
    "emit bs [b @ [LF]] = [b]" "sc_state sc = ScanNormal" "\<not> sc_region sc"
    using assms Region by (simp_all add: emit_def idle_def)
  let ?sc2 = "?sc1\<lparr>sc_buf := b @ [LF]\<rparr>"
  have "apply_cut bs ?sc1 (cut_lines bs True ?ls ScanNormal) = ?sc2"
    using st body by (simp add: apply_cut_def)
  then have 1: "scan_lines bs (n + 1) ?ls ?sc1 = Inr ?sc2"
    using st by (simp add: scan_quiet)
  show ?thesis
    unfolding Region using st assms(2)
    by (simp add: step_begin scan_lines_append 1 [simplified] step_end) (simp add: idle_def)
qed

lemma scan_blocks:
  assumes "list_all (block_ok bs) blks" "idle sc"
  shows "\<exists>sc'. scan_lines bs n (concat (map block_lines blks)) sc = Inr sc' \<and> idle sc' \<and>
    sc_out sc' = sc_out sc @ map block_text blks \<and> sc_no_tx sc' = sc_no_tx sc"
  using assms
proof (induction blks arbitrary: n sc)
  case (Cons blk blks)
  obtain sc1 where 1: "scan_lines bs n (block_lines blk) sc = Inr sc1" "idle sc1"
      "sc_out sc1 = sc_out sc @ [block_text blk]" "sc_no_tx sc1 = sc_no_tx sc"
    using scan_block [of bs blk sc n] Cons.prems by auto
  then show ?case
    using Cons.IH [of sc1 "n + length (block_lines blk)"] Cons.prems by (auto simp: scan_lines_append)
qed simp

lemma block_lines_no_LF: "l \<in> set (block_lines blk) \<Longrightarrow> LF \<notin> set l"
  by (cases blk) (auto dest: split_on_pieces)

text \<open>C9: Writing and reading a script. A file written from blocks parses back to exactly the
  blocks' texts, in order: a statement followed by a semicolon, whose own semicolons all stand
  in quotes or comments, and the body of a statement region, whose semicolons stand anywhere
  (a trigger or procedure). Each text must be trimmed, executable, lexically closed and free of
  annotations.\<close>

theorem parse_written_script:
  assumes "list_all (block_ok bs) blks"
  shows "parse_script (write_script blks) bs = Inr \<lparr>statements = map block_text blks, no_tx = False\<rparr>"
proof -
  let ?ls = "concat (map block_lines blks)"
  have lines: "split_on LF (write_script blks) = ?ls @ [[]]"
    unfolding write_script_def
    by (rule split_concat_lines) (auto dest: block_lines_no_LF)
  have "idle new_scanner" by (simp add: idle_def new_scanner_def)
  then obtain sc where sc: "scan_lines bs 0 ?ls new_scanner = Inr sc" "idle sc"
      "sc_out sc = map block_text blks" "\<not> sc_no_tx sc"
    using scan_blocks [OF assms, of new_scanner 0] by (auto simp: new_scanner_def)
  have q: "quiet []" by (simp add: quiet_def)
  have "scan_lines bs 0 (?ls @ [[]]) new_scanner = Inr (sc\<lparr>sc_buf := sc_buf sc @ [LF]\<rparr>)"
    using sc q by (simp add: scan_lines_append step_quiet apply_cut_def idle_def)
  moreover have "emit bs [sc_buf sc @ [LF]] = []"
    using sc(2) by (auto simp: idle_def emit_def is_executable_def trim_space_LF)
  ultimately show ?thesis
    using sc by (simp add: parse_script_def lines idle_def flush_emit)
qed

lemma parse_written_script_witness:
  "parse_script (write_script [Stmt (''set a=';' /*;*/''), Region ''begin x; end;'']) True =
   Inr \<lparr>statements = [''set a=';' /*;*/'', ''begin x; end;''], no_tx = False\<rparr>"
proof -
  have "list_all (block_ok True) [Stmt (''set a=';' /*;*/''), Region ''begin x; end;'']"
    by (simp add: scan_eval quiet_def onto_def)
  from parse_written_script [OF this] show ?thesis by simp
qed

end
