(* ===== verification/MigrationFiles.thy ===== *)
theory MigrationFiles
  imports SqlScanner "HOL-Library.Char_ord" "HOL-Library.List_Lexorder" "HOL-Library.Product_Lexorder"
    "HOL-Library.Multiset"
begin

text \<open>
  Migration files: \<^verbatim>\<open>cli/migrationx/load.go\<close> (file names, \<^verbatim>\<open>loadMigrations\<close>), \<^verbatim>\<open>merge.go\<close>
  (\<^verbatim>\<open>Merge\<close> and its file system) and \<^verbatim>\<open>create.go\<close>. A source \<^verbatim>\<open>fs.FS\<close> is the record \<open>fsys\<close>: the
  listing of its root (\<open>None\<close> when \<^verbatim>\<open>fs.ReadDir\<close> fails) and the bytes of each name it opens. The
  digest \<^verbatim>\<open>hex(sha256(.))\<close> is a parameter. Go maps are association lists.

  The lemmas show that file names parse exactly when they are canonical, that a loaded set is
  strictly ordered by version and accounts for every file of the directory, that merging keeps
  each file with its owner, and that paging through the merged root lists it once.
\<close>

section \<open>File names\<close>

datatype name_error = StrayFile | BadVersion | BadName

record half =
  h_version :: int
  h_name :: string
  h_down :: bool

definition valid_name :: "string \<Rightarrow> bool" where
  "valid_name name \<longleftrightarrow>
     list_all (\<lambda>r. (97 \<le> r \<and> r \<le> 122) \<or> (48 \<le> r \<and> r \<le> 57) \<or> r = 95) (runes name) \<and> name \<noteq> []"

definition cut_direction :: "string \<Rightarrow> (string \<times> bool) option" where
  "cut_direction rest =
     (case cut_suffix rest ''.down'' of
        Some r \<Rightarrow> Some (r, True)
      | None \<Rightarrow> (case cut_suffix rest ''.up'' of Some r \<Rightarrow> Some (r, False) | None \<Rightarrow> None))"

definition parse_filename :: "string \<Rightarrow> name_error + half" where
  "parse_filename filename =
     (case cut_suffix filename ''.sql'' of
        None \<Rightarrow> Inl StrayFile
      | Some rest \<Rightarrow>
          (case cut_direction rest of
             None \<Rightarrow> Inl StrayFile
           | Some (rest, down) \<Rightarrow>
               (let (version_text, name, ok) = cut (CHR ''_'') rest in
                if \<not> ok \<or> name = [] then Inl StrayFile
                else
                  (case parse_int64 version_text of
                     None \<Rightarrow> Inl BadVersion
                   | Some version \<Rightarrow>
                       if version \<le> 0 \<or> version_text \<noteq> format_int version then Inl BadVersion
                       else if \<not> valid_name name then Inl BadName
                       else Inr \<lparr>h_version = version, h_name = name, h_down = down\<rparr>))))"

definition half_filename :: "half \<Rightarrow> string" where
  "half_filename h =
     format_int (h_version h) @ ''_'' @ h_name h @ ''.'' @
     (if h_down h then ''down'' else ''up'') @ ''.sql''"

definition half_ok :: "half \<Rightarrow> bool" where
  "half_ok h \<longleftrightarrow> 0 < h_version h \<and> h_version h < 2 ^ 63 \<and> valid_name (h_name h)"

lemma parse_int64_range: "parse_int64 s = Some v \<Longrightarrow> - (2 ^ 63) \<le> v \<and> v < 2 ^ 63"
  by (auto simp: parse_int64_def Let_def split: option.splits if_splits)

lemma format_int_no_underscore: "0 < v \<Longrightarrow> CHR ''_'' \<notin> set (format_int v)"
proof
  assume v: "0 < v" and m: "CHR ''_'' \<in> set (format_int v)"
  then have "CHR ''_'' \<in> set (format_nat (nat v))" by (simp add: format_int_def)
  then have "is_digit (CHR ''_'')" using format_nat_digits [of "nat v"] by (simp add: list_all_iff)
  then show False by (simp add: is_digit_def)
qed

lemma cut_direction_Some:
  "cut_direction rest = Some (r, d) \<longleftrightarrow> rest = r @ (if d then ''.down'' else ''.up'')"
proof -
  have "cut_suffix (r @ ''.up'') ''.down'' = None" for r
    by (simp add: cut_suffix_def has_suffix_def)
  then show ?thesis
    by (auto simp: cut_direction_def cut_suffix_Some split: option.splits)
qed

text \<open>C10: File names are canonical. A name parses to a half exactly when it is the name written
  for that half: its positive 64-bit version in decimal without sign or leading zeros, an
  underscore, a lowercase name, the direction and the extension. Everything else is rejected, so
  no two spellings name the same migration file.\<close>

theorem parse_filename_canonical:
  "parse_filename f = Inr h \<longleftrightarrow> f = half_filename h \<and> half_ok h"
proof
  assume p: "parse_filename f = Inr h"
  then obtain rest where 1: "f = rest @ ''.sql''"
    by (auto simp: parse_filename_def cut_suffix_Some split: option.splits)
  then obtain r d where 2: "cut_direction rest = Some (r, d)"
    using p by (auto simp: parse_filename_def split: option.splits)
  obtain vt name ok where 3: "cut (CHR ''_'') r = (vt, name, ok)" by (metis prod_cases3)
  have n: "ok" "parse_int64 vt = Some (h_version h)" "0 < h_version h" "vt = format_int (h_version h)"
    "valid_name name" "h_name h = name" "h_down h = d"
    using p by (auto simp: parse_filename_def 1 2 3 split: if_splits option.splits)
  have "r = vt @ CHR ''_'' # name" using 3 n(1) by (simp add: cut_found)
  then show "f = half_filename h \<and> half_ok h"
    using 1 2 n parse_int64_range [OF n(2)]
    by (simp add: cut_direction_Some half_filename_def half_ok_def)
next
  assume a: "f = half_filename h \<and> half_ok h"
  let ?r = "format_int (h_version h) @ ''_'' @ h_name h"
  have d: "cut_direction (?r @ (if h_down h then ''.down'' else ''.up'')) = Some (?r, h_down h)"
    by (simp only: cut_direction_Some)
  have c: "cut (CHR ''_'') ?r = (format_int (h_version h), h_name h, True)"
    using a format_int_no_underscore by (simp add: cut_found half_ok_def)
  have v: "parse_int64 (format_int (h_version h)) = Some (h_version h)"
    using a by (intro parse_int64_format) (simp_all add: half_ok_def)
  have f: "f = (?r @ (if h_down h then ''.down'' else ''.up'')) @ ''.sql''"
    using a by (simp add: half_filename_def)
  have "h_name h \<noteq> []" using a by (simp add: half_ok_def valid_name_def)
  then show "parse_filename f = Inr h"
    using a unfolding parse_filename_def f cut_suffix_append option.case d prod.case c Let_def
    by (simp add: v half_ok_def)
qed

section \<open>Loading a directory\<close>

record dirent =
  d_name :: string
  d_dir :: bool

record fsys =
  fs_root :: "dirent list option"
  fs_open :: "string \<Rightarrow> string option"

record migration =
  m_version :: int
  m_name :: string
  m_checksum :: string
  m_up :: script
  m_down :: "script option"

datatype load_error =
    ListFailed
  | NotMigration string name_error
  | ReadFailed string
  | ScriptError string scan_error
  | DownWithoutUp string
  | DuplicateVersion string int

fun parse_entries :: "dirent list \<Rightarrow> load_error + half list" where
  "parse_entries [] = Inr []"
| "parse_entries (e # es) =
     (if d_dir e then Inl (NotMigration (d_name e) StrayFile)
      else
        (case parse_filename (d_name e) of
           Inl err \<Rightarrow> Inl (NotMigration (d_name e) err)
         | Inr h \<Rightarrow> (case parse_entries es of Inl err \<Rightarrow> Inl err | Inr hs \<Rightarrow> Inr (h # hs))))"

definition sort_halves :: "half list \<Rightarrow> half list" where
  \<comment> \<open>the stable sort: up halves first, then by version\<close>
  "sort_halves hs = sort_key (\<lambda>h. (h_down h, h_version h)) hs"

definition load_half ::
  "(string \<Rightarrow> string) \<Rightarrow> bool \<Rightarrow> (string \<Rightarrow> string option) \<Rightarrow> half \<Rightarrow> (int \<times> migration) list \<Rightarrow>
    load_error + (int \<times> migration) list" where
  \<comment> \<open>one iteration of the loop over the halves; \<open>hex_sum\<close> is the hex SHA-256 of the bytes\<close>
  "load_half hex_sum bs read h by_version =
     (let filename = half_filename h in
      case read filename of
        None \<Rightarrow> Inl (ReadFailed filename)
      | Some data \<Rightarrow>
          (case parse_script data bs of
             Inl e \<Rightarrow> Inl (ScriptError filename e)
           | Inr parsed \<Rightarrow>
               let existing = map_of by_version (h_version h) in
               if h_down h then
                 (case existing of
                    None \<Rightarrow> Inl (DownWithoutUp filename)
                  | Some m \<Rightarrow>
                      if m_name m \<noteq> h_name h then Inl (DownWithoutUp filename)
                      else Inr (AList.update (h_version h) (m\<lparr>m_down := Some parsed\<rparr>) by_version))
               else if existing \<noteq> None then Inl (DuplicateVersion filename (h_version h))
               else Inr (AList.update (h_version h)
                      \<lparr>m_version = h_version h, m_name = h_name h, m_checksum = hex_sum data,
                       m_up = parsed, m_down = None\<rparr> by_version)))"

fun load_halves ::
  "(string \<Rightarrow> string) \<Rightarrow> bool \<Rightarrow> (string \<Rightarrow> string option) \<Rightarrow> half list \<Rightarrow> (int \<times> migration) list \<Rightarrow>
    load_error + (int \<times> migration) list" where
  "load_halves hex_sum bs read [] m = Inr m"
| "load_halves hex_sum bs read (h # hs) m =
     (case load_half hex_sum bs read h m of
        Inl e \<Rightarrow> Inl e | Inr m' \<Rightarrow> load_halves hex_sum bs read hs m')"

definition load_migrations ::
  "(string \<Rightarrow> string) \<Rightarrow> fsys \<Rightarrow> bool \<Rightarrow> load_error + migration list" where
  "load_migrations hex_sum fs bs =
     (case fs_root fs of
        None \<Rightarrow> Inl ListFailed
      | Some entries \<Rightarrow>
          (case parse_entries entries of
             Inl e \<Rightarrow> Inl e
           | Inr halves \<Rightarrow>
               (case load_halves hex_sum bs (fs_open fs) (sort_halves halves) [] of
                  Inl e \<Rightarrow> Inl e
                | Inr by_version \<Rightarrow> Inr (sort_key m_version (map snd by_version)))))"

lemma parse_entries_names:
  "parse_entries es = Inr hs \<Longrightarrow>
    map d_name es = map half_filename hs \<and> list_all half_ok hs \<and> list_all (\<lambda>e. \<not> d_dir e) es"
  by (induction es arbitrary: hs) (auto split: if_splits sum.splits simp: parse_filename_canonical)

definition up_of :: "migration \<Rightarrow> half" where
  "up_of m = \<lparr>h_version = m_version m, h_name = m_name m, h_down = False\<rparr>"

definition down_of :: "migration \<Rightarrow> half" where
  "down_of m = \<lparr>h_version = m_version m, h_name = m_name m, h_down = True\<rparr>"

definition from_files ::
  "(string \<Rightarrow> string) \<Rightarrow> bool \<Rightarrow> (string \<Rightarrow> string option) \<Rightarrow> migration \<Rightarrow> bool" where
  \<comment> \<open>the migration is what its two files say\<close>
  "from_files hex_sum bs read m \<longleftrightarrow>
     (case read (half_filename (up_of m)) of
        None \<Rightarrow> False
      | Some data \<Rightarrow> m_checksum m = hex_sum data \<and> parse_script data bs = Inr (m_up m)) \<and>
     (case m_down m of
        None \<Rightarrow> True
      | Some s \<Rightarrow>
          (case read (half_filename (down_of m)) of
             None \<Rightarrow> False | Some data \<Rightarrow> parse_script data bs = Inr s))"

definition halves_of :: "migration list \<Rightarrow> half set" where
  "halves_of ms = up_of ` set ms \<union> down_of ` {m \<in> set ms. m_down m \<noteq> None}"

definition loaded ::
  "(string \<Rightarrow> string) \<Rightarrow> bool \<Rightarrow> (string \<Rightarrow> string option) \<Rightarrow> half set \<Rightarrow> (int \<times> migration) list \<Rightarrow> bool" where
  "loaded hex_sum bs read H by_version \<longleftrightarrow>
     distinct (map fst by_version) \<and>
     (\<forall>(v, m) \<in> set by_version. m_version m = v \<and> from_files hex_sum bs read m) \<and>
     halves_of (map snd by_version) = H"

lemma half_eqs:
  "up_of m = h \<longleftrightarrow> \<not> h_down h \<and> m_version m = h_version h \<and> m_name m = h_name h"
  "down_of m = h \<longleftrightarrow> h_down h \<and> m_version m = h_version h \<and> m_name m = h_name h"
  by (cases h; auto simp: up_of_def down_of_def)+

lemma of_down_simps [simp]:
  "up_of (m\<lparr>m_down := d\<rparr>) = up_of m" "down_of (m\<lparr>m_down := d\<rparr>) = down_of m"
  by (simp_all add: up_of_def down_of_def)

lemma set_update_distinct:
  "distinct (map fst xs) \<Longrightarrow> set (AList.update k v xs) = insert (k, v) {p \<in> set xs. fst p \<noteq> k}"
  by (induction xs) (auto simp: image_iff)

lemma halves_of_insert: "set ms = insert e (set ns) \<Longrightarrow> halves_of ms = halves_of [e] \<union> halves_of ns"
  by (auto simp: halves_of_def)

lemma halves_of_one: "halves_of [e] = insert (up_of e) (if m_down e = None then {} else {down_of e})"
  by (auto simp: halves_of_def)

lemma loaded_half:
  assumes "loaded hex_sum bs read H m" "load_half hex_sum bs read h m = Inr m'"
  shows "loaded hex_sum bs read (insert h H) m'"
proof -
  note l = assms(1) [unfolded loaded_def]
  obtain data parsed where d: "read (half_filename h) = Some data" "parse_script data bs = Inr parsed"
    using assms(2) by (auto simp: load_half_def Let_def split: option.splits sum.splits)
  show ?thesis
  proof (cases "h_down h")
    case True
    then obtain e where e: "map_of m (h_version h) = Some e" "m_name e = h_name h"
        "m' = AList.update (h_version h) (e\<lparr>m_down := Some parsed\<rparr>) m"
      using assms(2) d by (auto simp: load_half_def Let_def split: option.splits if_splits)
    have mem: "(h_version h, e) \<in> set m" using e(1) by (rule map_of_SomeD)
    then have h: "down_of e = h" "from_files hex_sum bs read e" "m_version e = h_version h"
      using l e(2) True by (auto simp: half_eqs)
    let ?rest = "map snd (filter (\<lambda>p. fst p \<noteq> h_version h) m)" and ?e = "e\<lparr>m_down := Some parsed\<rparr>"
    have m': "set m' = insert (h_version h, ?e) {p \<in> set m. fst p \<noteq> h_version h}"
      using l by (simp add: e(3) set_update_distinct)
    have m: "set m = insert (h_version h, e) {p \<in> set m. fst p \<noteq> h_version h}"
      using mem l by (auto dest: eq_key_imp_eq_value)
    have "set (map snd m) = insert e (set ?rest)" by (simp only: set_map) (subst m, auto)
    moreover have "set (map snd m') = insert ?e (set ?rest)" by (simp only: set_map m') auto
    ultimately have "halves_of (map snd m') = insert h (halves_of (map snd m))"
      using halves_of_insert [of "map snd m" e ?rest] halves_of_insert [of "map snd m'" ?e ?rest] h(1)
      by (auto simp: halves_of_one)
    then have "halves_of (map snd m') = insert h H" using l by simp
    moreover have "from_files hex_sum bs read (e\<lparr>m_down := Some parsed\<rparr>)"
      using h d by (simp add: from_files_def split: option.splits)
    moreover have "distinct (map fst m')" using l by (simp add: e(3) distinct_update)
    moreover have "\<forall>(v, n) \<in> set m'. m_version n = v \<and> from_files hex_sum bs read n"
      using l h(3) calculation(2) unfolding m' by auto
    ultimately show ?thesis unfolding loaded_def by blast
  next
    case False
    let ?e = "\<lparr>m_version = h_version h, m_name = h_name h, m_checksum = hex_sum data,
               m_up = parsed, m_down = None\<rparr>"
    have e: "map_of m (h_version h) = None" "m' = AList.update (h_version h) ?e m"
      using assms(2) d False by (auto simp: load_half_def Let_def split: option.splits if_splits)
    have h: "up_of ?e = h" using False by (simp add: half_eqs)
    have "set m' = insert (h_version h, ?e) (set m)"
      using l e by (auto simp: set_update_distinct map_of_eq_None_iff image_iff)
    then have "halves_of (map snd m') = insert h (halves_of (map snd m))"
      using halves_of_insert [of "map snd m'" ?e "map snd m"] by (simp add: halves_of_one h)
    moreover have "from_files hex_sum bs read ?e" using h d by (simp add: from_files_def)
    moreover have "distinct (map fst m')" using l by (simp add: e(2) distinct_update)
    ultimately show ?thesis
      using l \<open>set m' = _\<close> by (simp add: loaded_def)
  qed
qed

lemma loaded_halves:
  "loaded hex_sum bs read H m \<Longrightarrow> load_halves hex_sum bs read hs m = Inr m' \<Longrightarrow>
    loaded hex_sum bs read (set hs \<union> H) m'"
proof (induction hs arbitrary: H m)
  case (Cons h hs)
  then obtain m1 where "load_half hex_sum bs read h m = Inr m1" "load_halves hex_sum bs read hs m1 = Inr m'"
    by (auto split: sum.splits)
  then show ?case using Cons.IH [OF loaded_half [OF Cons.prems(1)]] by simp
qed simp

text \<open>C11: What \<^verbatim>\<open>loadMigrations\<close> accepts. A loaded set is strictly ordered by version; the
  directory holds exactly the up file of each migration and the down file of each that has one,
  and nothing else; and each migration is what those files say: the parsed scripts and the
  checksum of the up file's bytes.\<close>

theorem load_migrations_sound:
  assumes "load_migrations hex_sum fs bs = Inr ms" "fs_root fs = Some entries"
  shows "sorted_wrt (<) (map m_version ms) \<and>
    set (map d_name entries) = half_filename ` halves_of ms \<and> list_all (\<lambda>e. \<not> d_dir e) entries \<and>
    (\<forall>m \<in> set ms. from_files hex_sum bs (fs_open fs) m \<and> 0 < m_version m \<and> valid_name (m_name m))"
proof -
  obtain hs by_version where l: "parse_entries entries = Inr hs"
      "load_halves hex_sum bs (fs_open fs) (sort_halves hs) [] = Inr by_version"
      "ms = sort_key m_version (map snd by_version)"
    using assms by (auto simp: load_migrations_def split: sum.splits)
  have "loaded hex_sum bs (fs_open fs) {} []" by (simp add: loaded_def halves_of_def)
  from loaded_halves [OF this l(2)]
  have ld: "loaded hex_sum bs (fs_open fs) (set hs) by_version" by (simp add: sort_halves_def)
  have mv: "map m_version (map snd by_version) = map fst by_version"
    using ld by (auto simp: loaded_def)
  have "sorted (map m_version ms)" using l(3) by simp
  moreover have "distinct (map m_version ms)"
  proof -
    have "mset ms = mset (map snd by_version)" unfolding l(3) by (rule mset_sort)
    then have "mset (map m_version ms) = mset (map fst by_version)" using mv by (metis mset_map)
    then show ?thesis using ld unfolding loaded_def by (metis mset_eq_imp_distinct_iff)
  qed
  ultimately have srt: "sorted_wrt (<) (map m_version ms)" by (simp add: strict_sorted_iff)
  have set: "set ms = snd ` set by_version" using l(3) by simp
  then have hf: "halves_of ms = set hs"
    using ld by (simp add: loaded_def halves_of_def)
  note e = parse_entries_names [OF l(1)]
  have "0 < m_version m \<and> valid_name (m_name m)" if "m \<in> set ms" for m
  proof -
    have "up_of m \<in> set hs" using hf that by (auto simp: halves_of_def)
    then have "half_ok (up_of m)" using e by (simp add: list_all_iff)
    then show ?thesis by (simp add: half_ok_def up_of_def)
  qed
  moreover have "from_files hex_sum bs (fs_open fs) m" if "m \<in> set ms" for m
    using ld that set by (auto simp: loaded_def)
  moreover have "set (map d_name entries) = half_filename ` halves_of ms"
    using e hf by (metis set_map)
  ultimately show ?thesis using srt e by blast
qed

definition demo_fs :: fsys where
  \<comment> \<open>a two-file directory the concrete instance runs on\<close>
  "demo_fs = \<lparr>fs_root = Some [\<lparr>d_name = ''7_a.down.sql'', d_dir = False\<rparr>, \<lparr>d_name = ''7_a.up.sql'', d_dir = False\<rparr>],
     fs_open = map_of [(''7_a.up.sql'', ''create;''), (''7_a.down.sql'', ''drop'')]\<rparr>"

lemma digit_7: "char_of (55 :: nat) = CHR ''7''"
  using byte_of_inj [of "char_of (55 :: nat)" "CHR ''7''"] by simp

lemmas filename_eval =
  half_filename_def format_int_def format_nat.simps half_ok_def valid_name_def runes_ascii

lemma load_migrations_sound_witness:
  "load_migrations (\<lambda>s. s) demo_fs False =
     Inr [\<lparr>m_version = 7, m_name = ''a'', m_checksum = ''create;'',
           m_up = \<lparr>statements = [''create''], no_tx = False\<rparr>,
           m_down = Some \<lparr>statements = [''drop''], no_tx = False\<rparr>\<rparr>] \<and>
   valid_name ''a''"
proof -
  have p: "parse_filename ''7_a.up.sql'' = Inr \<lparr>h_version = 7, h_name = ''a'', h_down = False\<rparr>"
    "parse_filename ''7_a.down.sql'' = Inr \<lparr>h_version = 7, h_name = ''a'', h_down = True\<rparr>"
    unfolding parse_filename_canonical by (simp_all add: filename_eval digit_7)
  have r: "half_filename \<lparr>h_version = 7, h_name = ''a'', h_down = False\<rparr> = ''7_a.up.sql''"
    "half_filename \<lparr>h_version = 7, h_name = ''a'', h_down = True\<rparr> = ''7_a.down.sql''"
    by (simp_all add: filename_eval digit_7)
  have c: "parse_script ''create;'' False = Inr \<lparr>statements = [''create''], no_tx = False\<rparr>"
    "parse_script ''drop'' False = Inr \<lparr>statements = [''drop''], no_tx = False\<rparr>"
    by (simp_all add: scan_eval)
  let ?m = "\<lparr>m_version = 7, m_name = ''a'', m_checksum = ''create;'',
           m_up = \<lparr>statements = [''create''], no_tx = False\<rparr>,
           m_down = Some \<lparr>statements = [''drop''], no_tx = False\<rparr>\<rparr>"
  have l: "load_migrations (\<lambda>s. s) demo_fs False = Inr [?m]"
    by (simp add: load_migrations_def demo_fs_def p sort_halves_def load_half_def r c Let_def)
  show ?thesis
    using load_migrations_sound [OF l, of "[\<lparr>d_name = ''7_a.down.sql'', d_dir = False\<rparr>, \<lparr>d_name = ''7_a.up.sql'', d_dir = False\<rparr>]"] l
    by (simp add: demo_fs_def)
qed

section \<open>Merging sources\<close>

datatype merge_error =
    NilSource nat
  | SourceListFailed nat
  | DuplicateFile string nat nat

record merged =
  mg_owner :: "(string \<times> fsys) list"
  mg_entries :: "dirent list"

type_synonym owner_index = "(string \<times> nat) list"

fun merge_entries ::
  "nat \<Rightarrow> fsys \<Rightarrow> dirent list \<Rightarrow> owner_index \<times> merged \<Rightarrow> merge_error + owner_index \<times> merged" where
  "merge_entries i src [] st = Inr st"
| "merge_entries i src (e # es) (oi, mg) =
     (let name = d_name e in
      if d_dir e \<or> has_prefix name ''.'' then merge_entries i src es (oi, mg)
      else
        (case map_of oi name of
           Some prev \<Rightarrow> Inl (DuplicateFile name prev i)
         | None \<Rightarrow>
             merge_entries i src es
               (AList.update name i oi,
                mg\<lparr>mg_owner := AList.update name src (mg_owner mg), mg_entries := mg_entries mg @ [e]\<rparr>)))"

fun merge_sources ::
  "nat \<Rightarrow> fsys option list \<Rightarrow> owner_index \<times> merged \<Rightarrow> merge_error + owner_index \<times> merged" where
  "merge_sources i [] st = Inr st"
| "merge_sources i (None # srcs) st = Inl (NilSource i)"
| "merge_sources i (Some src # srcs) st =
     (case fs_root src of
        None \<Rightarrow> Inl (SourceListFailed i)
      | Some es \<Rightarrow>
          (case merge_entries i src es st of
             Inl e \<Rightarrow> Inl e | Inr st' \<Rightarrow> merge_sources (i + 1) srcs st'))"

definition merge_fs :: "fsys option list \<Rightarrow> merge_error + merged" where
  "merge_fs srcs =
     (case merge_sources 0 srcs ([], \<lparr>mg_owner = [], mg_entries = []\<rparr>) of
        Inl e \<Rightarrow> Inl e
      | Inr (_, mg) \<Rightarrow> Inr (mg\<lparr>mg_entries := sort_key d_name (mg_entries mg)\<rparr>))"

record merged_dir =
  md_entries :: "dirent list"
  md_offset :: nat

datatype open_error = PathInvalid | PathNotExist | SourceOpenFailed

datatype opened = OpenedDir merged_dir | OpenedFile string

definition valid_path :: "string \<Rightarrow> bool" where
  \<comment> \<open>\<^verbatim>\<open>fs.ValidPath\<close>\<close>
  "valid_path name \<longleftrightarrow>
     utf8 (runes name) = name \<and>
     (name = ''.'' \<or> list_all (\<lambda>e. e \<notin> {[], ''.'', ''..''}) (split_on (CHR ''/'') name))"

definition merged_open :: "merged \<Rightarrow> string \<Rightarrow> open_error + opened" where
  "merged_open mg name =
     (if \<not> valid_path name then Inl PathInvalid
      else if name = ''.'' then Inr (OpenedDir \<lparr>md_entries = mg_entries mg, md_offset = 0\<rparr>)
      else
        (case map_of (mg_owner mg) name of
           None \<Rightarrow> Inl PathNotExist
         | Some src \<Rightarrow>
             (case fs_open src name of None \<Rightarrow> Inl SourceOpenFailed | Some data \<Rightarrow> Inr (OpenedFile data))))"

record file_info =
  fi_name :: string
  fi_size :: int
  fi_mode :: "bool \<times> nat"  \<comment> \<open>directory, permissions\<close>
  fi_mod_time :: instant
  fi_is_dir :: bool

definition root_info :: file_info where
  "root_info = \<lparr>fi_name = ''.'', fi_size = 0, fi_mode = (True, 0x16D), fi_mod_time = zero_time, fi_is_dir = True\<rparr>"

definition merged_stat :: "merged_dir \<Rightarrow> file_info" where
  "merged_stat d = root_info"

definition merged_read :: "merged_dir \<Rightarrow> open_error + string" where
  "merged_read d = Inl PathInvalid"

definition read_dir :: "int \<Rightarrow> merged_dir \<Rightarrow> dirent list option \<times> merged_dir" where
  \<comment> \<open>\<open>None\<close> is \<^verbatim>\<open>io.EOF\<close>\<close>
  "read_dir n d =
     (let rest = drop (md_offset d) (md_entries d) in
      if 0 < n \<and> rest = [] then (None, d)
      else
        let rest = (if 0 < n then take (min (nat n) (length rest)) rest else rest)
        in (Some rest, d\<lparr>md_offset := md_offset d + length rest\<rparr>))"

definition carried :: "dirent \<Rightarrow> bool" where
  "carried e \<longleftrightarrow> \<not> (d_dir e \<or> has_prefix (d_name e) ''.'')"

definition eligible :: "fsys \<Rightarrow> dirent list" where
  \<comment> \<open>the root entries \<^verbatim>\<open>Merge\<close> carries over: no directories, no dot-files\<close>
  "eligible src =
     filter carried
       (case fs_root src of None \<Rightarrow> [] | Some es \<Rightarrow> es)"

definition owned :: "fsys \<Rightarrow> (string \<times> fsys) list" where
  "owned src = map (\<lambda>e. (d_name e, src)) (eligible src)"

lemma update_append: "k \<notin> fst ` set xs \<Longrightarrow> AList.update k v xs = xs @ [(k, v)]"
  by (induction xs) auto

definition merge_inv :: "owner_index \<times> merged \<Rightarrow> bool" where
  "merge_inv st \<longleftrightarrow>
     map fst (fst st) = map d_name (mg_entries (snd st)) \<and>
     map fst (mg_owner (snd st)) = map d_name (mg_entries (snd st)) \<and>
     distinct (map d_name (mg_entries (snd st)))"

lemma merge_entries_spec:
  assumes "merge_inv (oi, mg)"
  shows "case merge_entries i src es (oi, mg) of
      Inl e \<Rightarrow> \<not> distinct (map d_name (mg_entries mg @
        filter carried es))
    | Inr (oi', mg') \<Rightarrow> merge_inv (oi', mg') \<and>
        mg_entries mg' = mg_entries mg @ filter carried es \<and>
        mg_owner mg' = mg_owner mg @
          map (\<lambda>e. (d_name e, src)) (filter carried es)"
  using assms
proof (induction es arbitrary: oi mg)
  case (Cons e es)
  show ?case
  proof (cases "d_dir e \<or> has_prefix (d_name e) ''.''")
    case True
    then have "\<not> carried e" by (simp add: carried_def)
    then show ?thesis using True Cons.IH [OF Cons.prems] by (simp add: Let_def split: sum.splits prod.splits)
  next
    case False
    then have c: "carried e" by (simp add: carried_def)
    have keys: "fst ` set oi = set (map d_name (mg_entries mg))"
        "fst ` set (mg_owner mg) = set (map d_name (mg_entries mg))"
      using Cons.prems unfolding merge_inv_def by (metis fst_conv snd_conv set_map)+
    show ?thesis
    proof (cases "map_of oi (d_name e)")
      case None
      then have new: "d_name e \<notin> fst ` set oi" by (simp add: map_of_eq_None_iff)
      let ?mg = "mg\<lparr>mg_owner := mg_owner mg @ [(d_name e, src)], mg_entries := mg_entries mg @ [e]\<rparr>"
      have "merge_inv (oi @ [(d_name e, i)], ?mg)"
        using Cons.prems new keys by (simp add: merge_inv_def)
      from Cons.IH [OF this] show ?thesis
        using False c None new keys by (simp add: Let_def update_append split: sum.splits prod.splits)
    next
      case (Some prev)
      then have "d_name e \<in> fst ` set oi" by (metis map_of_eq_None_iff option.distinct(1))
      then show ?thesis using False c Some keys by (auto simp: Let_def)
    qed
  qed
qed simp

definition listable :: "fsys option \<Rightarrow> bool" where
  "listable s = (case s of None \<Rightarrow> False | Some src \<Rightarrow> fs_root src \<noteq> None)"

lemma merge_sources_spec:
  assumes "merge_inv (oi, mg)"
  shows "case merge_sources i srcs (oi, mg) of
      Inl e \<Rightarrow> \<not> (list_all listable srcs \<and>
        distinct (map d_name (mg_entries mg @ concat (map (eligible \<circ> the) srcs))))
    | Inr (oi', mg') \<Rightarrow> merge_inv (oi', mg') \<and> list_all listable srcs \<and>
        mg_entries mg' = mg_entries mg @ concat (map (eligible \<circ> the) srcs) \<and>
        mg_owner mg' = mg_owner mg @ concat (map (owned \<circ> the) srcs)"
  using assms
proof (induction srcs arbitrary: i oi mg)
  case (Cons s srcs)
  show ?case
  proof (cases "listable s")
    case False
    then show ?thesis by (auto simp: listable_def split: option.splits)
  next
    case True
    then obtain src es where s: "s = Some src" "fs_root src = Some es"
      by (auto simp: listable_def split: option.splits)
    have el: "filter carried es = eligible src"
      by (simp add: eligible_def s)
    note m = merge_entries_spec [OF Cons.prems, where i = i and src = src and es = es, unfolded el]
    show ?thesis
    proof (cases "merge_entries i src es (oi, mg)")
      case (Inl e)
      then show ?thesis using m s by auto
    next
      case (Inr st)
      obtain oi1 mg1 where st: "st = (oi1, mg1)" by fastforce
      show ?thesis
        using m Inr st s True Cons.IH [of oi1 mg1 "i + 1"]
        by (auto simp: owned_def comp_def split: sum.splits prod.splits)
    qed
  qed
qed simp

text \<open>C12: Merging sources. \<^verbatim>\<open>Merge\<close> succeeds exactly when every source is non-nil and listable and no
  eligible name occurs twice; then the merged root lists the eligible entries of all sources,
  sorted by name, and opening a listed name reads it from the source that owns it.\<close>

theorem merge_fs_correct:
  "(case merge_fs srcs of
      Inl e \<Rightarrow> \<not> (list_all listable srcs \<and> distinct (map d_name (concat (map (eligible \<circ> the) srcs))))
    | Inr mg \<Rightarrow> list_all listable srcs \<and> distinct (map d_name (concat (map (eligible \<circ> the) srcs))) \<and>
        sorted (map d_name (mg_entries mg)) \<and>
        mset (mg_entries mg) = mset (concat (map (eligible \<circ> the) srcs)) \<and>
        (\<forall>src \<in> set (map the srcs). \<forall>e \<in> set (eligible src). valid_path (d_name e) \<longrightarrow>
           merged_open mg (d_name e) =
             (case fs_open src (d_name e) of None \<Rightarrow> Inl SourceOpenFailed | Some data \<Rightarrow> Inr (OpenedFile data))))"
proof -
  let ?mg0 = "\<lparr>mg_owner = [], mg_entries = []\<rparr>"
  have "merge_inv ([], ?mg0)" by (simp add: merge_inv_def)
  note m = merge_sources_spec [OF this, where i = 0 and srcs = srcs]
  show ?thesis
  proof (cases "merge_sources 0 srcs ([], ?mg0)")
    case (Inl e)
    then show ?thesis using m by (simp add: merge_fs_def)
  next
    case (Inr st)
    obtain oi mg where st: "st = (oi, mg)" by fastforce
    note m' = m [unfolded Inr st, simplified]
    have own: "merged_open (mg\<lparr>mg_entries := sort_key d_name (mg_entries mg)\<rparr>) (d_name e) =
        (case fs_open src (d_name e) of None \<Rightarrow> Inl SourceOpenFailed | Some data \<Rightarrow> Inr (OpenedFile data))"
      if e: "src \<in> set (map the srcs)" "e \<in> set (eligible src)" "valid_path (d_name e)" for src e
    proof -
      have "distinct (map fst (mg_owner mg))" using m' by (auto simp: merge_inv_def)
      moreover have "(d_name e, src) \<in> set (mg_owner mg)"
        using m' e by (auto simp: owned_def)
      ultimately have "map_of (mg_owner mg) (d_name e) = Some src" by (rule map_of_is_SomeI)
      moreover have "d_name e \<noteq> ''.''" using e(2) by (auto simp: eligible_def carried_def has_prefix_def)
      ultimately show ?thesis using e(3) by (simp add: merged_open_def)
    qed
    show ?thesis
      using m' own by (auto simp: merge_fs_def Inr st merge_inv_def)
  qed
qed

lemma merge_fs_correct_witness:
  "merged_open \<lparr>mg_owner = [(''7_a.down.sql'', demo_fs), (''7_a.up.sql'', demo_fs)],
      mg_entries = [\<lparr>d_name = ''7_a.down.sql'', d_dir = False\<rparr>, \<lparr>d_name = ''7_a.up.sql'', d_dir = False\<rparr>]\<rparr>
     ''7_a.up.sql'' = Inr (OpenedFile ''create;'')"
proof -
  let ?es = "[\<lparr>d_name = ''7_a.down.sql'', d_dir = False\<rparr>, \<lparr>d_name = ''7_a.up.sql'', d_dir = False\<rparr>]"
  let ?mg = "\<lparr>mg_owner = [(''7_a.down.sql'', demo_fs), (''7_a.up.sql'', demo_fs)], mg_entries = ?es\<rparr>"
  have r: "fs_root demo_fs = Some ?es" "fs_open demo_fs ''7_a.up.sql'' = Some ''create;''"
    by (simp_all add: demo_fs_def)
  have m: "merge_fs [Some demo_fs] = Inr ?mg"
    by (simp add: merge_fs_def r has_prefix_def Let_def less_list_code)
  have v: "valid_path ''7_a.up.sql''"
    by (simp add: valid_path_def utf8_runes_ascii)
  have "\<lparr>d_name = ''7_a.up.sql'', d_dir = False\<rparr> \<in> set (eligible demo_fs)"
    by (simp add: eligible_def carried_def r has_prefix_def)
  then show ?thesis
    using merge_fs_correct [of "[Some demo_fs]"] v r unfolding m by fastforce
qed

fun read_pages :: "int list \<Rightarrow> merged_dir \<Rightarrow> dirent list option list \<times> merged_dir" where
  "read_pages [] d = ([], d)"
| "read_pages (n # ns) d =
     (let (p, d1) = read_dir n d; (ps, d2) = read_pages ns d1 in (p # ps, d2))"

definition page_entries :: "dirent list option \<Rightarrow> dirent list" where
  "page_entries p = (case p of None \<Rightarrow> [] | Some es \<Rightarrow> es)"

lemma drop_add: "drop (a + b) xs = drop b (drop a xs)"
  by (simp add: add.commute)

lemma read_dir_page:
  "md_entries (snd (read_dir n d)) = md_entries d"
  "page_entries (fst (read_dir n d)) @ drop (md_offset (snd (read_dir n d))) (md_entries d) =
    drop (md_offset d) (md_entries d)"
  "case fst (read_dir n d) of
     None \<Rightarrow> 0 < n \<and> drop (md_offset d) (md_entries d) = []
   | Some es \<Rightarrow> 0 < n \<longrightarrow> es \<noteq> [] \<and> length es \<le> nat n"
  by (auto simp: read_dir_def Let_def page_entries_def drop_add simp del: drop_drop)

lemma read_pages_entries:
  "md_entries (snd (read_pages ns d)) = md_entries d"
  "concat (map page_entries (fst (read_pages ns d))) @
    drop (md_offset (snd (read_pages ns d))) (md_entries d) = drop (md_offset d) (md_entries d)"
proof (induction ns arbitrary: d)
  case (Cons n ns)
  {
    case 1
    then show ?case using Cons.IH(1) read_dir_page(1) [of n d] by (simp add: split_beta)
  next
    case 2
    show ?case
      using Cons.IH(2) [of "snd (read_dir n d)"] read_dir_page(1,2) [of n d] by (simp add: split_beta)
  }
qed simp_all

text \<open>Paging through the merged root. Whatever page sizes a caller passes to \<^verbatim>\<open>ReadDir\<close>, the
  pages in order followed by what a last \<^verbatim>\<open>ReadDir(-1)\<close> returns are the whole listing, each entry
  once; a positive size never returns more entries than asked for, and \<^verbatim>\<open>io.EOF\<close> comes only when
  everything has been returned.\<close>

theorem read_dir_paging:
  "concat (map page_entries (fst (read_pages ns \<lparr>md_entries = es, md_offset = 0\<rparr>))) @
     page_entries (fst (read_dir (-1) (snd (read_pages ns \<lparr>md_entries = es, md_offset = 0\<rparr>)))) = es \<and>
   (case fst (read_dir n (snd (read_pages ns \<lparr>md_entries = es, md_offset = 0\<rparr>))) of
      None \<Rightarrow> concat (map page_entries (fst (read_pages ns \<lparr>md_entries = es, md_offset = 0\<rparr>))) = es
    | Some page \<Rightarrow> n \<le> 0 \<or> page \<noteq> [] \<and> length page \<le> nat n)"
proof -
  let ?d = "\<lparr>md_entries = es, md_offset = 0\<rparr>" and ?r = "read_pages ns \<lparr>md_entries = es, md_offset = 0\<rparr>"
  note p = read_pages_entries [of ns ?d, simplified]
  have "page_entries (fst (read_dir (-1) (snd ?r))) = drop (md_offset (snd ?r)) es"
    using p(1) by (simp add: read_dir_def page_entries_def)
  then show ?thesis
    using p read_dir_page(3) [of n "snd ?r"] by (auto split: option.splits)
qed

section \<open>Creating a pair of files\<close>

datatype create_error = CreateBadName | CreateMkdir | CreateExists string | CreateWrite

definition create ::
  "(string \<Rightarrow> string) \<Rightarrow> bool \<Rightarrow> bool \<Rightarrow> bool \<Rightarrow> int \<Rightarrow> string \<Rightarrow> (string \<times> string) list \<Rightarrow>
    (create_error + string \<times> string) \<times> (string \<times> string) list" where
  \<comment> \<open>\<open>in_dir\<close> is \<^verbatim>\<open>filepath.Join(dir, .)\<close>; \<open>mk\<close>, \<open>w1\<close> and \<open>w2\<close> say whether \<^verbatim>\<open>MkdirAll\<close> and the two
      writes succeed (a failed write leaves no file); \<open>files\<close> are the files that exist\<close>
  "create in_dir mk w1 w2 version name files =
     (if \<not> valid_name name then (Inl CreateBadName, files)
      else if \<not> mk then (Inl CreateMkdir, files)
      else
        let up = in_dir (half_filename \<lparr>h_version = version, h_name = name, h_down = False\<rparr>);
            down = in_dir (half_filename \<lparr>h_version = version, h_name = name, h_down = True\<rparr>);
            header = ''-- '' @ name @ [LF]
        in if map_of files up \<noteq> None then (Inl (CreateExists up), files)
           else if map_of files down \<noteq> None then (Inl (CreateExists down), files)
           else if \<not> w1 then (Inl CreateWrite, files)
           else
             let files1 = AList.update up header files in
             if \<not> w2 then (Inl CreateWrite, AList.delete up files1)
             else (Inr (up, down), AList.update down header files1))"

lemma create_all_or_nothing:
  assumes "create in_dir mk w1 w2 version name files = (r, files')"
  shows "case r of
      Inl e \<Rightarrow> map_of files' = map_of files
    | Inr (up, down) \<Rightarrow> map_of files up = None \<and> map_of files down = None \<and>
        map_of files' = (map_of files)(up \<mapsto> ''-- '' @ name @ [LF], down \<mapsto> ''-- '' @ name @ [LF])"
  using assms
  by (auto simp: create_def Let_def update_conv' delete_conv' fun_upd_idem split: if_splits)

end
