(* ===== verification/Migrator.thy ===== *)
theory Migrator
  imports MigrationFiles
begin

text \<open>
  The migration engine, \<^verbatim>\<open>cli/migrationx/migrationx.go\<close> and \<^verbatim>\<open>dialect.go\<close>. The database driver
  (\<^verbatim>\<open>database/sql\<close> and the server behind it) is the parameter \<open>engine\<close>: a record of the calls
  the code makes on the pinned connection and on a \<^verbatim>\<open>*sql.Tx\<close>, each a function of the session
  state that says whether the call returned an error. SQL is the datatype \<open>sql\<close>: the migration's
  own text, and one constructor per statement the code composes. A context is \<open>Ctx\<close> or, for the
  cleanup calls on \<^verbatim>\<open>context.WithoutCancel\<close>, \<open>Uncancelled\<close>. \<open>sqlite_dialect\<close> and \<open>mysql_dialect\<close>
  are the two implementations of \<^verbatim>\<open>dialectOps\<close>, as records of functions.

  A method of \<^verbatim>\<open>Migrator\<close> is a function on \<open>mstate\<close>, the session and the log lines written so
  far, that returns an error value or a result.
\<close>

section \<open>The driver\<close>

datatype sql =
    SqlText string
  | SqlInsert int string string string
  | SqlInsertDirty int string string string
  | SqlDelete int
  | SqlSetDirty bool int
  | SqlBegin
  | SqlCommit
  | SqlRollback
  | SqlBusyTimeout int
  | SqlReleaseLock
  | SqlCreateTable bool
  | SqlAddDirtyColumn

datatype ctx = Ctx | Uncancelled

record hrow =
  r_name :: string
  r_checksum :: string
  r_applied_at :: string

type_synonym history = "(int \<times> hrow) list"

record 's engine =
  e_conn :: "'s \<Rightarrow> bool \<times> 's"
  e_close :: "'s \<Rightarrow> 's"
  e_poison :: "'s \<Rightarrow> 's"
  e_cancelled :: "'s \<Rightarrow> bool"
  e_exec :: "ctx \<Rightarrow> sql \<Rightarrow> 's \<Rightarrow> bool \<times> 's"
  e_probe :: "ctx \<Rightarrow> int \<Rightarrow> 's \<Rightarrow> bool option \<times> 's"
  e_rows :: "'s \<Rightarrow> history option \<times> 's"
  e_dirty :: "'s \<Rightarrow> int list option \<times> 's"
  e_has_dirty_column :: "'s \<Rightarrow> bool option \<times> 's"
  e_get_lock :: "int \<Rightarrow> 's \<Rightarrow> int option option \<times> 's"
  e_begin_tx :: "'s \<Rightarrow> bool \<times> 's"
  e_tx_exec :: "ctx \<Rightarrow> sql \<Rightarrow> 's \<Rightarrow> bool \<times> 's"
  e_tx_probe :: "ctx \<Rightarrow> int \<Rightarrow> 's \<Rightarrow> bool option \<times> 's"
  e_tx_commit :: "'s \<Rightarrow> bool \<times> 's"
  e_tx_rollback :: "'s \<Rightarrow> bool \<times> 's"
  e_now :: "'s \<Rightarrow> instant \<times> 's"
  e_hostname :: "string option"  \<comment> \<open>\<open>None\<close> when \<^verbatim>\<open>os.Hostname\<close> fails\<close>
  e_current_user :: "string option"  \<comment> \<open>the name \<^verbatim>\<open>user.Current\<close> finds\<close>
  e_user_env :: string  \<comment> \<open>the environment variable \<^verbatim>\<open>USER\<close>\<close>

section \<open>Errors and log lines\<close>

datatype exec_error =
    EBegin | ELockTimeout | EProbe | EStatement string | ERecord | ECommit | EPremark

datatype mig_error =
    MNilDB | MBadDialect int | MBadTable string | MBadLockTimeout | MLoad load_error
  | MCreateTable | MHeal
  | MConn | MLock | MLockTimeout
  | MReadRows | MReadDirty
  | MChecksum int | MOrphan int | MDirty string | MOutOfOrder string
  | MNothingApplied | MNoDown int
  | MApply int exec_error | MRollback int exec_error

datatype log_event =
    LogApplied int string int  \<comment> \<open>version, name, milliseconds\<close>
  | LogSkipped int string
  | LogRollbackStart int string string string  \<comment> \<open>version, name, host, operating-system user\<close>
  | LogRollbackDone int string string string int bool
  | LogUnknownTarget int | LogUnlockFailed

record 's mstate =
  sess :: 's
  logs :: "log_event list"

definition log_line :: "log_event \<Rightarrow> 's mstate \<Rightarrow> 's mstate" where
  "log_line e s = s\<lparr>logs := logs s @ [e]\<rparr>"

definition call :: "('s \<Rightarrow> 'a \<times> 's) \<Rightarrow> 's mstate \<Rightarrow> 'a \<times> 's mstate" where
  "call f s = (case f (sess s) of (r, s') \<Rightarrow> (r, s\<lparr>sess := s'\<rparr>))"

definition os_user :: "'s engine \<Rightarrow> string" where
  "os_user E = (case e_current_user E of Some u \<Rightarrow> u | None \<Rightarrow> e_user_env E)"

definition log_timed :: "'s engine \<Rightarrow> instant \<Rightarrow> (int \<Rightarrow> log_event) \<Rightarrow> 's mstate \<Rightarrow> 's mstate" where
  \<comment> \<open>a line with the milliseconds since \<open>start\<close>\<close>
  "log_timed E start ev s =
     (case call (e_now E) s of (t, s') \<Rightarrow> log_line (ev (quot (time_sub t start) 1000000)) s')"

definition and_then ::
  "('s \<Rightarrow> ('e + 'a) \<times> 's) \<Rightarrow> ('a \<Rightarrow> 's \<Rightarrow> ('e + 'b) \<times> 's) \<Rightarrow> 's \<Rightarrow> ('e + 'b) \<times> 's" where
  \<comment> \<open>the \<^verbatim>\<open>if err != nil { return err }\<close> idiom\<close>
  "and_then a f s = (case a s of (Inl e, s') \<Rightarrow> (Inl e, s') | (Inr x, s') \<Rightarrow> f x s')"

section \<open>Dialects\<close>

record 's tx_ops =
  tx_exec :: "ctx \<Rightarrow> sql \<Rightarrow> 's \<Rightarrow> bool \<times> 's"
  tx_has :: "ctx \<Rightarrow> int \<Rightarrow> 's \<Rightarrow> bool option \<times> 's"
  tx_commit :: "ctx \<Rightarrow> 's \<Rightarrow> bool \<times> 's"
  tx_rollback :: "ctx \<Rightarrow> 's \<Rightarrow> bool \<times> 's"

record 's dirty_ops =
  ensure_dirty_column :: "'s \<Rightarrow> bool \<times> 's"
  mark_dirty :: "int \<Rightarrow> string \<Rightarrow> string \<Rightarrow> string \<Rightarrow> 's \<Rightarrow> bool \<times> 's"
  set_dirty :: "int \<Rightarrow> bool \<Rightarrow> 's \<Rightarrow> bool \<times> 's"
  dirty_versions :: "'s \<Rightarrow> int list option \<times> 's"

record 's dialect_ops =
  create_table :: "'s \<Rightarrow> bool \<times> 's"
  lock :: "duration \<Rightarrow> 's \<Rightarrow> mig_error option \<times> 's"
  unlock :: "ctx \<Rightarrow> 's \<Rightarrow> bool \<times> 's"
  begin_tx :: "'s \<Rightarrow> (exec_error + 's tx_ops) \<times> 's"
  backslash_escapes :: bool
  format_time :: "instant \<Rightarrow> string"
  dirty_cap :: "'s dirty_ops option"

definition raw_rollback :: "'s engine \<Rightarrow> ctx \<Rightarrow> 's \<Rightarrow> bool \<times> 's" where
  "raw_rollback E c s =
     (case e_exec E c SqlRollback s of
        (False, s') \<Rightarrow> (False, e_poison E s')
      | (True, s') \<Rightarrow> (True, s'))"

definition raw_tx :: "'s engine \<Rightarrow> 's tx_ops" where
  "raw_tx E =
     \<lparr>tx_exec = e_exec E, tx_has = e_probe E, tx_commit = (\<lambda>c. e_exec E c SqlCommit),
      tx_rollback = raw_rollback E\<rparr>"

definition sqlite_begin :: "'s engine \<Rightarrow> 's \<Rightarrow> (exec_error + 's tx_ops) \<times> 's" where
  "sqlite_begin E s =
     (case e_exec E Ctx SqlBegin s of
        (False, s') \<Rightarrow> (Inl (if e_cancelled E s' then EBegin else ELockTimeout), s')
      | (True, s') \<Rightarrow> (Inr (raw_tx E), s'))"

definition sqlite_lock :: "'s engine \<Rightarrow> duration \<Rightarrow> 's \<Rightarrow> mig_error option \<times> 's" where
  "sqlite_lock E timeout s =
     (case e_exec E Ctx (SqlBusyTimeout (quot timeout 1000000)) s of
        (False, s') \<Rightarrow> (Some MLock, s')
      | (True, s') \<Rightarrow> (None, s'))"

definition sqlite_dialect :: "(instant \<Rightarrow> string) \<Rightarrow> 's engine \<Rightarrow> 's dialect_ops" where
  \<comment> \<open>\<open>rfc3339\<close> formats a UTC time with \<^verbatim>\<open>time.RFC3339\<close>\<close>
  "sqlite_dialect rfc3339 E =
     \<lparr>create_table = e_exec E Ctx (SqlCreateTable False),
      lock = sqlite_lock E,
      unlock = (\<lambda>_ s. (True, s)),
      begin_tx = sqlite_begin E,
      backslash_escapes = False,
      format_time = rfc3339,
      dirty_cap = None\<rparr>"

definition sql_tx :: "'s engine \<Rightarrow> 's tx_ops" where
  "sql_tx E =
     \<lparr>tx_exec = e_tx_exec E, tx_has = e_tx_probe E, tx_commit = (\<lambda>_. e_tx_commit E),
      tx_rollback = (\<lambda>_. e_tx_rollback E)\<rparr>"

definition mysql_begin :: "'s engine \<Rightarrow> 's \<Rightarrow> (exec_error + 's tx_ops) \<times> 's" where
  "mysql_begin E s =
     (case e_begin_tx E s of (False, s') \<Rightarrow> (Inl EBegin, s') | (True, s') \<Rightarrow> (Inr (sql_tx E), s'))"

definition mysql_lock :: "'s engine \<Rightarrow> duration \<Rightarrow> 's \<Rightarrow> mig_error option \<times> 's" where
  "mysql_lock E timeout s =
     (case e_get_lock E (quot timeout second) s of
        (None, s') \<Rightarrow> (Some MLock, s')
      | (Some got, s') \<Rightarrow> (if got \<noteq> Some 1 then Some MLockTimeout else None, s'))"

definition mysql_ensure_dirty :: "'s engine \<Rightarrow> 's \<Rightarrow> bool \<times> 's" where
  "mysql_ensure_dirty E s =
     (case e_has_dirty_column E s of
        (None, s') \<Rightarrow> (False, s')
      | (Some True, s') \<Rightarrow> (True, s')
      | (Some False, s') \<Rightarrow> e_exec E Ctx SqlAddDirtyColumn s')"

definition mysql_dirty :: "'s engine \<Rightarrow> 's dirty_ops" where
  "mysql_dirty E =
     \<lparr>ensure_dirty_column = mysql_ensure_dirty E,
      mark_dirty = (\<lambda>v name sum t. e_exec E Ctx (SqlInsertDirty v name sum t)),
      set_dirty = (\<lambda>v d. e_exec E Ctx (SqlSetDirty d v)),
      dirty_versions = e_dirty E\<rparr>"

definition mysql_dialect :: "(instant \<Rightarrow> string) \<Rightarrow> 's engine \<Rightarrow> 's dialect_ops" where
  \<comment> \<open>\<open>date_time\<close> formats a UTC time with \<^verbatim>\<open>time.DateTime\<close>\<close>
  "mysql_dialect date_time E =
     \<lparr>create_table = e_exec E Ctx (SqlCreateTable True),
      lock = mysql_lock E,
      unlock = (\<lambda>c. e_exec E c SqlReleaseLock),
      begin_tx = mysql_begin E,
      backslash_escapes = True,
      format_time = date_time,
      dirty_cap = Some (mysql_dirty E)\<rparr>"

definition dialect_for ::
  "(instant \<Rightarrow> string) \<Rightarrow> (instant \<Rightarrow> string) \<Rightarrow> 's engine \<Rightarrow> int \<Rightarrow> mig_error + 's dialect_ops" where
  "dialect_for rfc3339 date_time E d =
     (if d = 1 then Inr (sqlite_dialect rfc3339 E)
      else if d = 2 then Inr (mysql_dialect date_time E)
      else Inl (MBadDialect d))"

section \<open>The migrator\<close>

record 's migrator =
  m_dialect :: "'s dialect_ops"
  m_migrations :: "migration list"
  m_table :: string
  m_allow_ooo :: bool
  m_lock_wait :: duration

record mig_config =
  c_dialect :: int
  c_table :: string
  c_allow_ooo :: bool
  c_lock_timeout :: duration

definition default_table :: string where
  "default_table = ''migration_histories''"

definition default_lock_timeout :: duration where
  "default_lock_timeout = 30 * second"

definition table_ok :: "string \<Rightarrow> bool" where
  "table_ok t \<longleftrightarrow>
     t \<noteq> [] \<and> list_all (\<lambda>c. is_upper c \<or> is_lower c \<or> is_digit c \<or> c = CHR ''_'') t"

definition new_migrator ::
  "(string \<Rightarrow> string) \<Rightarrow> (instant \<Rightarrow> string) \<Rightarrow> (instant \<Rightarrow> string) \<Rightarrow> 's engine option \<Rightarrow> fsys \<Rightarrow>
    mig_config \<Rightarrow> 's mstate \<Rightarrow> (mig_error + 's migrator) \<times> 's mstate" where
  \<comment> \<open>\<open>None\<close> for the engine is a nil \<^verbatim>\<open>*sql.DB\<close>\<close>
  "new_migrator hex_sum rfc3339 date_time db fs c s =
     (case db of
        None \<Rightarrow> (Inl MNilDB, s)
      | Some E \<Rightarrow>
          (case dialect_for rfc3339 date_time E (c_dialect c) of
             Inl e \<Rightarrow> (Inl e, s)
           | Inr d \<Rightarrow>
               let table = (if c_table c = [] then default_table else c_table c);
                   wait = or_default (c_lock_timeout c) default_lock_timeout in
               if \<not> table_ok table then (Inl (MBadTable table), s)
               else if wait < second then (Inl MBadLockTimeout, s)
               else
                 (case load_migrations hex_sum fs (backslash_escapes d) of
                    Inl e \<Rightarrow> (Inl (MLoad e), s)
                  | Inr migs \<Rightarrow>
                      let m = \<lparr>m_dialect = d, m_migrations = migs, m_table = table,
                               m_allow_ooo = c_allow_ooo c, m_lock_wait = wait\<rparr> in
                      (case call (e_conn E) s of
                         (False, s1) \<Rightarrow> (Inl MConn, s1)
                       | (True, s1) \<Rightarrow>
                           let (r, s2) =
                             (case call (create_table d) s1 of
                                (False, s2) \<Rightarrow> (Inl MCreateTable, s2)
                              | (True, s2) \<Rightarrow>
                                  (case dirty_cap d of
                                     None \<Rightarrow> (Inr m, s2)
                                   | Some dd \<Rightarrow>
                                       (case call (ensure_dirty_column dd) s2 of
                                          (False, s3) \<Rightarrow> (Inl MHeal, s3)
                                        | (True, s3) \<Rightarrow> (Inr m, s3))))
                           in (r, s2\<lparr>sess := e_close E (sess s2)\<rparr>)))))"

definition locked ::
  "'s engine \<Rightarrow> 's migrator \<Rightarrow> ('s mstate \<Rightarrow> (mig_error + 'a) \<times> 's mstate) \<Rightarrow> 's mstate \<Rightarrow>
    (mig_error + 'a) \<times> 's mstate" where
  "locked E m fn s =
     (case call (e_conn E) s of
        (False, s1) \<Rightarrow> (Inl MConn, s1)
      | (True, s1) \<Rightarrow>
          let (r, s4) =
            (case call (lock (m_dialect m) (m_lock_wait m)) s1 of
               (Some e, s2) \<Rightarrow> (Inl e, s2)
             | (None, s2) \<Rightarrow>
                 let (r, s3) = fn s2 in
                 (case call (unlock (m_dialect m) Uncancelled) s3 of
                    (True, s4) \<Rightarrow> (r, s4)
                  | (False, s4) \<Rightarrow> (r, log_line LogUnlockFailed s4)))
          in (r, s4\<lparr>sess := e_close E (sess s4)\<rparr>))"

definition applied_rows :: "'s engine \<Rightarrow> 's mstate \<Rightarrow> (mig_error + history) \<times> 's mstate" where
  "applied_rows E s =
     (case call (e_rows E) s of
        (None, s') \<Rightarrow> (Inl MReadRows, s')
      | (Some rows, s') \<Rightarrow> (Inr (fold (\<lambda>(v, r). AList.update v r) rows []), s'))"

definition by_version :: "migration list \<Rightarrow> (int \<times> migration) list" where
  "by_version migs = fold (\<lambda>m. AList.update (m_version m) m) migs []"

fun verify_checksums :: "migration list \<Rightarrow> history \<Rightarrow> mig_error option" where
  "verify_checksums migs [] = None"
| "verify_checksums migs ((v, row) # applied) =
     (case map_of (by_version migs) v of
        None \<Rightarrow> verify_checksums migs applied
      | Some m \<Rightarrow>
          if m_checksum m \<noteq> r_checksum row then Some (MChecksum v) else verify_checksums migs applied)"

fun find_orphan :: "migration list \<Rightarrow> history \<Rightarrow> mig_error option" where
  "find_orphan migs [] = None"
| "find_orphan migs ((v, row) # applied) =
     (if map_of (by_version migs) v = None then Some (MOrphan v) else find_orphan migs applied)"

definition verify :: "migration list \<Rightarrow> history \<Rightarrow> mig_error option" where
  "verify migs applied =
     (case verify_checksums migs applied of
        Some e \<Rightarrow> Some e
      | None \<Rightarrow> find_orphan migs applied)"

definition dirty_set :: "'s migrator \<Rightarrow> 's mstate \<Rightarrow> (mig_error + int list) \<times> 's mstate" where
  "dirty_set m s =
     (case dirty_cap (m_dialect m) of
        None \<Rightarrow> (Inr [], s)
      | Some d \<Rightarrow>
          (case call (dirty_versions d) s of
             (None, s') \<Rightarrow> (Inl MReadDirty, s')
           | (Some vs, s') \<Rightarrow> (Inr (remdups vs), s')))"

definition dirty_version_list :: "int list \<Rightarrow> string" where
  "dirty_version_list vs = join '', '' (map format_int (sort vs))"

definition check_dirty :: "'s migrator \<Rightarrow> 's mstate \<Rightarrow> (mig_error + unit) \<times> 's mstate" where
  "check_dirty m =
     and_then (dirty_set m)
       (\<lambda>vs s. (if vs = [] then Inr () else Inl (MDirty (dirty_version_list vs)), s))"

definition version_list :: "migration list \<Rightarrow> string" where
  "version_list migs = join '', '' (map (\<lambda>m. format_int (m_version m) @ ''_'' @ m_name m) migs)"

definition first_line :: "string \<Rightarrow> string" where
  "first_line stmt = fst (cut LF stmt)"

section \<open>Running one script\<close>

fun tx_statements :: "'s tx_ops \<Rightarrow> string list \<Rightarrow> 's mstate \<Rightarrow> (exec_error + unit) \<times> 's mstate" where
  "tx_statements tx [] s = (Inr (), s)"
| "tx_statements tx (q # qs) s =
     (case call (tx_exec tx Ctx (SqlText q)) s of
        (False, s') \<Rightarrow> (Inl (EStatement (first_line q)), s')
      | (True, s') \<Rightarrow> tx_statements tx qs s')"

definition abort_tx :: "'s tx_ops \<Rightarrow> 'r \<Rightarrow> 's mstate \<Rightarrow> 'r \<times> 's mstate" where
  \<comment> \<open>\<^verbatim>\<open>_ = tx.rollback(cleanupCtx); return r\<close>\<close>
  "abort_tx tx r s = (r, snd (call (tx_rollback tx Uncancelled) s))"

definition exec_tx ::
  "'s dialect_ops \<Rightarrow> int \<Rightarrow> bool \<Rightarrow> string list \<Rightarrow> sql \<Rightarrow> 's mstate \<Rightarrow> (exec_error + bool) \<times> 's mstate" where
  \<comment> \<open>the result is \<^verbatim>\<open>skipped\<close>; \<open>rcd\<close> is the history write of the \<^verbatim>\<open>record\<close> closure\<close>
  "exec_tx d version down stmts rcd s =
     (case call (begin_tx d) s of
        (Inl e, s1) \<Rightarrow> (Inl e, s1)
      | (Inr tx, s1) \<Rightarrow>
          (case call (tx_has tx Uncancelled version) s1 of
             (None, s2) \<Rightarrow> abort_tx tx (Inl EProbe) s2
           | (Some exists, s2) \<Rightarrow>
               if exists \<noteq> down then abort_tx tx (Inr True) s2
               else
                 (case tx_statements tx stmts s2 of
                    (Inl e, s3) \<Rightarrow> abort_tx tx (Inl e) s3
                  | (Inr _, s3) \<Rightarrow>
                      (case call (tx_exec tx Ctx rcd) s3 of
                         (False, s4) \<Rightarrow> abort_tx tx (Inl ERecord) s4
                       | (True, s4) \<Rightarrow>
                           (case call (tx_commit tx Uncancelled) s4 of
                              (True, s5) \<Rightarrow> (Inr False, s5)
                            | (False, s5) \<Rightarrow> (Inl ECommit, s5))))))"

fun raw_statements :: "'s engine \<Rightarrow> string list \<Rightarrow> 's mstate \<Rightarrow> (exec_error + unit) \<times> 's mstate" where
  "raw_statements E [] s = (Inr (), s)"
| "raw_statements E (q # qs) s =
     (case call (e_exec E Ctx (SqlText q)) s of
        (False, s') \<Rightarrow> (Inl (EStatement (first_line q)), s')
      | (True, s') \<Rightarrow> raw_statements E qs s')"

definition exec_raw ::
  "'s engine \<Rightarrow> int \<Rightarrow> string list \<Rightarrow> ('s \<Rightarrow> bool \<times> 's) option \<Rightarrow> ('s \<Rightarrow> bool \<times> 's) \<Rightarrow> 's mstate \<Rightarrow>
    (exec_error + bool) \<times> 's mstate" where
  "exec_raw E version stmts premark rcd s =
     (let body = (\<lambda>s.
        (case (case premark of None \<Rightarrow> (True, s) | Some p \<Rightarrow> call p s) of
           (False, s1) \<Rightarrow> (Inl EPremark, s1)
         | (True, s1) \<Rightarrow>
             (case raw_statements E stmts s1 of
                (Inl e, s2) \<Rightarrow> (Inl e, s2)
              | (Inr _, s2) \<Rightarrow>
                  (case call rcd s2 of
                     (True, s3) \<Rightarrow> (Inr False, s3)
                   | (False, s3) \<Rightarrow> (Inl ERecord, s3)))))
      in if 0 \<le> version then
           (case call (e_probe E Ctx version) s of
              (None, s') \<Rightarrow> (Inl EProbe, s')
            | (Some True, s') \<Rightarrow> (Inr True, s')
            | (Some False, s') \<Rightarrow> body s')
         else body s)"

definition apply_up :: "'s engine \<Rightarrow> 's migrator \<Rightarrow> migration \<Rightarrow> 's mstate \<Rightarrow> (mig_error + unit) \<times> 's mstate" where
  "apply_up E m mig s =
     (let d = m_dialect m;
          v = m_version mig;
          (start, s0) = call (e_now E) s;
          at = format_time d start;
          insert = SqlInsert v (m_name mig) (m_checksum mig) at;
          (r, s1) =
            (if no_tx (m_up mig) then
               exec_raw E v (statements (m_up mig))
                 (case dirty_cap d of
                    None \<Rightarrow> None
                  | Some dd \<Rightarrow> Some (mark_dirty dd v (m_name mig) (m_checksum mig) at))
                 (case dirty_cap d of
                    None \<Rightarrow> e_exec E Ctx insert
                  | Some dd \<Rightarrow> set_dirty dd v False) s0
             else exec_tx d v False (statements (m_up mig)) insert s0)
      in case r of
           Inl e \<Rightarrow> (Inl (MApply v e), s1)
         | Inr True \<Rightarrow> (Inr (), log_line (LogSkipped v (m_name mig)) s1)
         | Inr False \<Rightarrow> (Inr (), log_timed E start (LogApplied v (m_name mig)) s1))"

definition rollback :: "'s engine \<Rightarrow> 's migrator \<Rightarrow> migration \<Rightarrow> 's mstate \<Rightarrow> (mig_error + unit) \<times> 's mstate" where
  "rollback E m mig s =
     (let d = m_dialect m; v = m_version mig in
      case m_down mig of
        None \<Rightarrow> (Inl (MNoDown v), s)
      | Some script \<Rightarrow>
          let host = (case e_hostname E of None \<Rightarrow> [] | Some h \<Rightarrow> h);
              (start, s0) = call (e_now E) (log_line (LogRollbackStart v (m_name mig) host (os_user E)) s);
              (r, s1) =
                (if no_tx script then
                   exec_raw E (-1) (statements script)
                     (case dirty_cap d of None \<Rightarrow> None | Some dd \<Rightarrow> Some (set_dirty dd v True))
                     (e_exec E Ctx (SqlDelete v)) s0
                 else exec_tx d v True (statements script) (SqlDelete v) s0);
              s2 = log_timed E start (\<lambda>ms. LogRollbackDone v (m_name mig) host (os_user E) ms (is_ok r)) s1
          in case r of Inl e \<Rightarrow> (Inl (MRollback v e), s2) | Inr _ \<Rightarrow> (Inr (), s2))"

section \<open>The public operations\<close>

definition max_version :: "history \<Rightarrow> int" where
  "max_version applied = fold (\<lambda>(v, _) mx. max mx v) applied 0"

definition pending :: "'s migrator \<Rightarrow> history \<Rightarrow> migration list" where
  "pending m applied = filter (\<lambda>mig. map_of applied (m_version mig) = None) (m_migrations m)"

definition out_of_order :: "'s migrator \<Rightarrow> history \<Rightarrow> migration list" where
  "out_of_order m applied = filter (\<lambda>mig. m_version mig < max_version applied) (pending m applied)"

fun apply_pending ::
  "'s engine \<Rightarrow> 's migrator \<Rightarrow> int \<Rightarrow> int \<Rightarrow> int \<Rightarrow> migration list \<Rightarrow> 's mstate \<Rightarrow>
    (mig_error + unit) \<times> 's mstate" where
  \<comment> \<open>the loop of \<^verbatim>\<open>up\<close>: arguments \<open>limit\<close>, \<open>target\<close> and the running \<open>n\<close>\<close>
  "apply_pending E m limit target n [] s = (Inr (), s)"
| "apply_pending E m limit target n (mig # migs) s =
     (if 0 < target \<and> target < m_version mig then apply_pending E m limit target n migs s
      else if 0 < limit \<and> n = limit then (Inr (), s)
      else
        (case apply_up E m mig s of
           (Inl e, s') \<Rightarrow> (Inl e, s')
         | (Inr _, s') \<Rightarrow> apply_pending E m limit target (n + 1) migs s'))"

definition guard :: "mig_error option \<Rightarrow> 's mstate \<Rightarrow> (mig_error + unit) \<times> 's mstate" where
  "guard e s = (case e of None \<Rightarrow> (Inr (), s) | Some e \<Rightarrow> (Inl e, s))"

definition up_body ::
  "'s engine \<Rightarrow> 's migrator \<Rightarrow> int \<Rightarrow> int \<Rightarrow> 's mstate \<Rightarrow> (mig_error + unit) \<times> 's mstate" where
  "up_body E m limit target =
     and_then (applied_rows E) (\<lambda>applied.
       and_then (guard (verify (m_migrations m) applied)) (\<lambda>_.
         and_then (check_dirty m) (\<lambda>_ s.
           if out_of_order m applied \<noteq> [] \<and> \<not> m_allow_ooo m
           then (Inl (MOutOfOrder (version_list (out_of_order m applied))), s)
           else apply_pending E m limit target 0 (pending m applied) s)))"

definition up where "up E m limit target = locked E m (up_body E m limit target)"

fun rollback_applied ::
  "'s engine \<Rightarrow> 's migrator \<Rightarrow> int \<Rightarrow> history \<Rightarrow> migration list \<Rightarrow> 's mstate \<Rightarrow>
    (mig_error + unit) \<times> 's mstate" where
  \<comment> \<open>the loop of \<^verbatim>\<open>down\<close>, over the migrations backwards\<close>
  "rollback_applied E m target applied [] s = (Inr (), s)"
| "rollback_applied E m target applied (mig # migs) s =
     (if map_of applied (m_version mig) = None then rollback_applied E m target applied migs s
      else if 0 \<le> target \<and> m_version mig \<le> target then (Inr (), s)
      else
        (case rollback E m mig s of
           (Inl e, s') \<Rightarrow> (Inl e, s')
         | (Inr _, s') \<Rightarrow>
             if target < 0 then (Inr (), s') else rollback_applied E m target applied migs s'))"

definition down_body :: "'s engine \<Rightarrow> 's migrator \<Rightarrow> int \<Rightarrow> 's mstate \<Rightarrow> (mig_error + unit) \<times> 's mstate" where
  "down_body E m target =
     and_then (applied_rows E) (\<lambda>applied.
       and_then (guard (verify (m_migrations m) applied)) (\<lambda>_.
         and_then (check_dirty m) (\<lambda>_ s.
           if applied = [] then (Inl MNothingApplied, s)
           else rollback_applied E m target applied (rev (m_migrations m)) s)))"

definition down where "down E m target = locked E m (down_body E m target)"

definition warn_unknown_version :: "'s migrator \<Rightarrow> int \<Rightarrow> 's mstate \<Rightarrow> 's mstate" where
  "warn_unknown_version m version s =
     (if map_of (by_version (m_migrations m)) version = None then log_line (LogUnknownTarget version) s else s)"

definition mig_up where "mig_up E m = up E m 0 0"
definition mig_up_by_one where "mig_up_by_one E m = up E m 1 0"

definition mig_up_to where
  "mig_up_to E m version s =
     up E m 0 version (if 0 < version then warn_unknown_version m version s else s)"

definition mig_down where "mig_down E m = down E m (-1)"

definition mig_down_to where
  "mig_down_to E m version s =
     down E m (max version 0) (if 0 < version then warn_unknown_version m version s else s)"

record status_entry =
  se_version :: int
  se_name :: string
  se_applied :: bool
  se_applied_at :: instant
  se_out_of_order :: bool
  se_orphaned :: bool
  se_dirty :: bool

definition parse_time :: "(string \<Rightarrow> instant option) \<Rightarrow> (string \<Rightarrow> instant option) \<Rightarrow> string \<Rightarrow> instant" where
  \<comment> \<open>the two layouts' parsers in the order they are tried\<close>
  "parse_time p_rfc3339 p_date_time t =
     (case p_rfc3339 t of
        Some i \<Rightarrow> i
      | None \<Rightarrow> (case p_date_time t of Some i \<Rightarrow> i | None \<Rightarrow> zero_time))"

definition status_entries ::
  "(string \<Rightarrow> instant) \<Rightarrow> migration list \<Rightarrow> history \<Rightarrow> int list \<Rightarrow> status_entry list" where
  "status_entries parse migs applied dirty =
     (let index = by_version migs;
          mx = max_version (filter (\<lambda>(v, _). map_of index v \<noteq> None) applied);
          known = map (\<lambda>mig.
            (case map_of applied (m_version mig) of
               Some row \<Rightarrow>
                 \<lparr>se_version = m_version mig, se_name = m_name mig, se_applied = True,
                  se_applied_at = parse (r_applied_at row), se_out_of_order = False,
                  se_orphaned = False, se_dirty = (m_version mig \<in> set dirty)\<rparr>
             | None \<Rightarrow>
                 \<lparr>se_version = m_version mig, se_name = m_name mig, se_applied = False,
                  se_applied_at = zero_time, se_out_of_order = (m_version mig < mx),
                  se_orphaned = False, se_dirty = False\<rparr>)) migs;
          orphans = map (\<lambda>(v, row).
            \<lparr>se_version = v, se_name = r_name row, se_applied = True,
             se_applied_at = parse (r_applied_at row), se_out_of_order = False,
             se_orphaned = True, se_dirty = (v \<in> set dirty)\<rparr>)
            (filter (\<lambda>(v, _). map_of index v = None) applied)
      in sort_key se_version (known @ orphans))"

definition unlocked ::
  "'s engine \<Rightarrow> ('s mstate \<Rightarrow> (mig_error + 'a) \<times> 's mstate) \<Rightarrow> 's mstate \<Rightarrow> (mig_error + 'a) \<times> 's mstate" where
  "unlocked E fn s =
     (case call (e_conn E) s of
        (False, s1) \<Rightarrow> (Inl MConn, s1)
      | (True, s1) \<Rightarrow> (case fn s1 of (r, s2) \<Rightarrow> (r, s2\<lparr>sess := e_close E (sess s2)\<rparr>)))"

definition mig_status ::
  "(string \<Rightarrow> instant) \<Rightarrow> 's engine \<Rightarrow> 's migrator \<Rightarrow> 's mstate \<Rightarrow> (mig_error + status_entry list) \<times> 's mstate" where
  "mig_status parse E m =
     unlocked E (and_then (applied_rows E) (\<lambda>applied.
       and_then (guard (verify_checksums (m_migrations m) applied)) (\<lambda>_.
         and_then (dirty_set m) (\<lambda>dirty s.
           (Inr (status_entries parse (m_migrations m) applied dirty), s)))))"

definition mig_version :: "'s engine \<Rightarrow> 's migrator \<Rightarrow> 's mstate \<Rightarrow> (mig_error + int) \<times> 's mstate" where
  "mig_version E m =
     unlocked E (and_then (applied_rows E) (\<lambda>applied.
       and_then (guard (verify (m_migrations m) applied)) (\<lambda>_ s. (Inr (max_version applied), s))))"

section \<open>The command line\<close>

datatype command_error = QuantityToUp | QuantityToDown | CommandFailed mig_error

definition lift_error :: "(mig_error + 'a) \<times> 's mstate \<Rightarrow> (command_error + 'a) \<times> 's mstate" where
  "lift_error r = (case r of (Inl e, s) \<Rightarrow> (Inl (CommandFailed e), s) | (Inr x, s) \<Rightarrow> (Inr x, s))"

definition command_up ::
  "bool \<Rightarrow> int \<Rightarrow> 's engine \<Rightarrow> 's migrator \<Rightarrow> 's mstate \<Rightarrow> (command_error + unit) \<times> 's mstate" where
  \<comment> \<open>\<^verbatim>\<open>migrate up\<close> with the flags \<^verbatim>\<open>--one\<close> and \<^verbatim>\<open>--to\<close>\<close>
  "command_up one up_to E m s =
     (if one \<and> 0 < up_to then (Inl QuantityToUp, s)
      else lift_error
        (if one then mig_up_by_one E m s
         else if 0 < up_to then mig_up_to E m up_to s
         else mig_up E m s))"

definition command_down ::
  "bool \<Rightarrow> int \<Rightarrow> 's engine \<Rightarrow> 's migrator \<Rightarrow> 's mstate \<Rightarrow> (command_error + unit) \<times> 's mstate" where
  \<comment> \<open>\<^verbatim>\<open>migrate down\<close> with the flags \<^verbatim>\<open>--all\<close> and \<^verbatim>\<open>--to\<close>\<close>
  "command_down all_of down_to E m s =
     (if all_of \<and> 0 < down_to then (Inl QuantityToDown, s)
      else lift_error
        (if all_of then mig_down_to E m 0 s
         else if 0 < down_to then mig_down_to E m down_to s
         else mig_down E m s))"

definition status_line :: "(instant \<Rightarrow> string) \<Rightarrow> status_entry \<Rightarrow> string" where
  \<comment> \<open>\<open>fmt_utc\<close> formats a UTC time as \<^verbatim>\<open>2006-01-02 15:04:05\<close>; U+2713 is the check mark\<close>
  "status_line fmt_utc r =
     (let (mark, note) =
        (if se_orphaned r then (utf8 [0x2713], ''orphaned: file missing'')
         else if se_applied r then
           (utf8 [0x2713], if se_applied_at r = zero_time then [] else fmt_utc (se_applied_at r))
         else if se_out_of_order r then ('' '', ''out of order'')
         else ('' '', []))
      in mark @ '' '' @ format_int (se_version r) @ ''_'' @ se_name r @ '' '' @ note @ [LF])"

end
