(* ===== verification/MigratorSpec.thy ===== *)
theory MigratorSpec
  imports Migrator
begin

text \<open>
  What the migration engine guarantees. The documented behaviour of the driver is stated as
  predicates on the \<open>engine\<close> parameter: \<open>view\<close> reads off a session the database as the
  connection sees it and, in an open transaction, the database a rollback restores;
  \<open>sql_eff\<close> is the effect of a statement on the history table (version is its primary key),
  with \<open>run\<close> the effect of a migration's own text. A failed statement may or may not have had
  its effect, a failed \<^verbatim>\<open>COMMIT\<close> may have committed, rolled back or left the transaction open.
  \<open>tx_dialect\<close> is the contract the engine code uses; both dialects are shown to meet it.
\<close>

section \<open>The database behind the driver\<close>

record 'd database =
  hist :: history
  dirt :: "int list"
  content :: 'd

abbreviation versions :: "'d database \<Rightarrow> int set" where
  "versions db \<equiv> fst ` set (hist db)"

fun sql_eff :: "(string \<Rightarrow> 'd \<Rightarrow> 'd option) \<Rightarrow> sql \<Rightarrow> 'd database \<Rightarrow> 'd database option" where
  "sql_eff run (SqlText q) db = map_option (\<lambda>c. db\<lparr>content := c\<rparr>) (run q (content db))"
| "sql_eff run (SqlInsert v n c t) db =
     (if v \<in> versions db then None
      else Some (db\<lparr>hist := (v, \<lparr>r_name = n, r_checksum = c, r_applied_at = t\<rparr>) # hist db\<rparr>))"
| "sql_eff run (SqlInsertDirty v n c t) db =
     (if v \<in> versions db then None
      else Some (db\<lparr>hist := (v, \<lparr>r_name = n, r_checksum = c, r_applied_at = t\<rparr>) # hist db,
                     dirt := v # dirt db\<rparr>))"
| "sql_eff run (SqlDelete v) db =
     Some (db\<lparr>hist := AList.delete v (hist db), dirt := removeAll v (dirt db)\<rparr>)"
| "sql_eff run (SqlSetDirty d v) db =
     Some (db\<lparr>dirt := (if d \<and> v \<in> versions db then v # removeAll v (dirt db) else removeAll v (dirt db))\<rparr>)"
| "sql_eff run _ db = Some db"

fun is_control :: "sql \<Rightarrow> bool" where
  "is_control SqlBegin = True"
| "is_control SqlCommit = True"
| "is_control SqlRollback = True"
| "is_control _ = False"

fun effs :: "(string \<Rightarrow> 'd \<Rightarrow> 'd option) \<Rightarrow> sql list \<Rightarrow> 'd database \<Rightarrow> 'd database option" where
  "effs run [] db = Some db"
| "effs run (q # qs) db = (case sql_eff run q db of None \<Rightarrow> None | Some db' \<Rightarrow> effs run qs db')"

type_synonym ('s, 'd) view = "'s \<Rightarrow> 'd database \<times> 'd database option"

section \<open>Documented behaviour of the driver\<close>

definition reads_ok :: "'s engine \<Rightarrow> ('s, 'd) view \<Rightarrow> bool" where
  \<comment> \<open>reads report the visible database and change nothing; neither do the clock, the pool
      and the advisory lock; a statement outside control statements has its effect when it
      succeeds, and none or all of it when it fails\<close>
  "reads_ok E view \<longleftrightarrow>
     (\<forall>s. view (snd (e_conn E s)) = view s \<and> view (snd (e_now E s)) = view s \<and>
          view (snd (e_rows E s)) = view s \<and> view (snd (e_dirty E s)) = view s \<and>
          (\<forall>n. view (snd (e_get_lock E n s)) = view s) \<and>
          (\<forall>c n. view (snd (e_probe E c n s)) = view s \<and>
             fst (e_probe E c n s) \<in> {None, Some (n \<in> versions (fst (view s)))}) \<and>
          (case fst (e_rows E s) of
             None \<Rightarrow> True
           | Some rows \<Rightarrow> map_of rows = map_of (hist (fst (view s))) \<and> distinct (map fst rows)) \<and>
          (case fst (e_dirty E s) of None \<Rightarrow> True | Some vs \<Rightarrow> set vs = set (dirt (fst (view s)))) \<and>
          (snd (view s) = None \<longrightarrow> view (e_close E s) = view s))"

definition exec_ok :: "'s engine \<Rightarrow> (string \<Rightarrow> 'd \<Rightarrow> 'd option) \<Rightarrow> ('s, 'd) view \<Rightarrow> bool" where
  "exec_ok E run view \<longleftrightarrow>
     (\<forall>c q s. \<not> is_control q \<longrightarrow>
        snd (view (snd (e_exec E c q s))) = snd (view s) \<and>
        (if fst (e_exec E c q s)
         then sql_eff run q (fst (view s)) = Some (fst (view (snd (e_exec E c q s))))
         else fst (view (snd (e_exec E c q s))) = fst (view s) \<or>
              sql_eff run q (fst (view s)) = Some (fst (view (snd (e_exec E c q s))))))"

definition after_commit :: "('s, 'd) view \<Rightarrow> 's \<Rightarrow> bool \<times> 's \<Rightarrow> bool" where
  "after_commit view s r \<longleftrightarrow>
     (case snd (view s) of
        None \<Rightarrow> True
      | Some saved \<Rightarrow>
          (if fst r then view (snd r) = (fst (view s), None)
           else view (snd r) \<in> {view s, (fst (view s), None), (saved, None)}))"

definition sqlite_control_ok :: "'s engine \<Rightarrow> ('s, 'd) view \<Rightarrow> bool" where
  \<comment> \<open>\<^verbatim>\<open>BEGIN IMMEDIATE\<close> saves the database; \<^verbatim>\<open>ROLLBACK\<close> restores it; a connection discarded
      by the pool is closed, and closing rolls its transaction back\<close>
  "sqlite_control_ok E view \<longleftrightarrow>
     (\<forall>c s. (snd (view s) = None \<longrightarrow>
          view (snd (e_exec E c SqlBegin s)) =
            (if fst (e_exec E c SqlBegin s) then (fst (view s), Some (fst (view s))) else view s)) \<and>
        after_commit view s (e_exec E c SqlCommit s) \<and>
        (case snd (view s) of
           None \<Rightarrow> True
         | Some saved \<Rightarrow>
             view (e_poison E s) = (saved, None) \<and>
             view (snd (e_exec E c SqlRollback s)) \<in>
               (if fst (e_exec E c SqlRollback s) then {(saved, None)} else {view s, (saved, None)})) \<and>
        (snd (view s) = None \<longrightarrow> view (e_poison E s) = view s))"

definition mysql_tx_ok ::
  "'s engine \<Rightarrow> (string \<Rightarrow> 'd \<Rightarrow> 'd option) \<Rightarrow> (sql \<Rightarrow> bool) \<Rightarrow> ('s, 'd) view \<Rightarrow> bool" where
  \<comment> \<open>a \<^verbatim>\<open>*sql.Tx\<close> on statements \<open>S\<close> that do not commit implicitly (no DDL)\<close>
  "mysql_tx_ok E run S view \<longleftrightarrow>
     (\<forall>s. (snd (view s) = None \<longrightarrow>
          view (snd (e_begin_tx E s)) =
            (if fst (e_begin_tx E s) then (fst (view s), Some (fst (view s))) else view s)) \<and>
        (\<forall>c q. S q \<longrightarrow> snd (view (snd (e_tx_exec E c q s))) = snd (view s) \<and>
           (fst (e_tx_exec E c q s) \<longrightarrow>
             sql_eff run q (fst (view s)) = Some (fst (view (snd (e_tx_exec E c q s)))))) \<and>
        (\<forall>c n. view (snd (e_tx_probe E c n s)) = view s \<and>
           fst (e_tx_probe E c n s) \<in> {None, Some (n \<in> versions (fst (view s)))}) \<and>
        after_commit view s (e_tx_commit E s) \<and>
        (case snd (view s) of
           None \<Rightarrow> True
         | Some saved \<Rightarrow> view (snd (e_tx_rollback E s)) = (saved, None)))"

section \<open>The transaction contract\<close>

definition tx_ok ::
  "'s tx_ops \<Rightarrow> (string \<Rightarrow> 'd \<Rightarrow> 'd option) \<Rightarrow> (sql \<Rightarrow> bool) \<Rightarrow> ('s, 'd) view \<Rightarrow> bool" where
  "tx_ok tx run S view \<longleftrightarrow>
     (\<forall>c s saved. snd (view s) = Some saved \<longrightarrow>
        (\<forall>q. S q \<longrightarrow> snd (view (snd (tx_exec tx c q s))) = Some saved \<and>
           (fst (tx_exec tx c q s) \<longrightarrow>
             sql_eff run q (fst (view s)) = Some (fst (view (snd (tx_exec tx c q s)))))) \<and>
        (\<forall>n. view (snd (tx_has tx c n s)) = view s \<and>
           fst (tx_has tx c n s) \<in> {None, Some (n \<in> versions (fst (view s)))}) \<and>
        after_commit view s (tx_commit tx c s) \<and>
        view (snd (tx_rollback tx c s)) = (saved, None))"

definition tx_dialect ::
  "'s dialect_ops \<Rightarrow> (string \<Rightarrow> 'd \<Rightarrow> 'd option) \<Rightarrow> (sql \<Rightarrow> bool) \<Rightarrow> ('s, 'd) view \<Rightarrow> bool" where
  "tx_dialect d run S view \<longleftrightarrow>
     (\<forall>s. snd (view s) = None \<longrightarrow>
        (case begin_tx d s of
           (Inl e, s') \<Rightarrow> e \<noteq> ECommit \<and> view s' = view s
         | (Inr tx, s') \<Rightarrow> tx_ok tx run S view \<and> view s' = (fst (view s), Some (fst (view s)))))"

lemma raw_tx_simps [simp]:
  "tx_exec (raw_tx E) = e_exec E" "tx_has (raw_tx E) = e_probe E"
  "tx_commit (raw_tx E) = (\<lambda>c. e_exec E c SqlCommit)" "tx_rollback (raw_tx E) = raw_rollback E"
  by (simp_all add: raw_tx_def)

lemma sql_tx_simps [simp]:
  "tx_exec (sql_tx E) = e_tx_exec E" "tx_has (sql_tx E) = e_tx_probe E"
  "tx_commit (sql_tx E) = (\<lambda>_. e_tx_commit E)" "tx_rollback (sql_tx E) = (\<lambda>_. e_tx_rollback E)"
  by (simp_all add: sql_tx_def)

lemma exec_okD:
  assumes "exec_ok E run view" "\<not> is_control q" "e_exec E c q s = (ok, s')"
  shows "snd (view s') = snd (view s)"
    and "ok \<Longrightarrow> sql_eff run q (fst (view s)) = Some (fst (view s'))"
    and "\<not> ok \<Longrightarrow> fst (view s') = fst (view s) \<or> sql_eff run q (fst (view s)) = Some (fst (view s'))"
  using assms(1) [unfolded exec_ok_def, THEN spec, THEN spec, THEN spec, of q c s] assms(2,3)
  by (auto split: if_splits)

lemma probe_okD:
  assumes "reads_ok E view" "e_probe E c n s = (r, s')"
  shows "view s' = view s" "r = None \<or> r = Some (n \<in> versions (fst (view s)))"
  using assms(1) [unfolded reads_ok_def, THEN spec, of s] assms(2) by (metis fst_conv insert_iff singletonD snd_conv)+

lemma sqlite_begin_okD:
  assumes "sqlite_control_ok E view" "snd (view s) = None" "e_exec E c SqlBegin s = (ok, s')"
  shows "view s' = (if ok then (fst (view s), Some (fst (view s))) else view s)"
  using assms(1) [unfolded sqlite_control_ok_def, THEN spec, THEN spec, of s c] assms(2,3) by simp

lemma sqlite_rollback_okD:
  assumes "sqlite_control_ok E view" "snd (view s) = Some saved"
  shows "view (snd (raw_rollback E c s)) = (saved, None)"
proof -
  note law = assms(1) [unfolded sqlite_control_ok_def, THEN spec, THEN spec, of _ c]
  obtain ok s' where r: "e_exec E c SqlRollback s = (ok, s')" by fastforce
  show ?thesis
  proof (cases ok)
    case True
    then show ?thesis using law [of s] assms(2) r by (simp add: raw_rollback_def)
  next
    case False
    then have "view s' = view s \<or> view s' = (saved, None)" using law [of s] assms(2) r by simp
    then have "view (e_poison E s') = (saved, None)" using law [of s'] assms(2) by auto
    then show ?thesis using False r by (simp add: raw_rollback_def)
  qed
qed

lemma raw_tx_ok:
  assumes "reads_ok E view" "exec_ok E run view" "sqlite_control_ok E view"
  shows "tx_ok (raw_tx E) run (\<lambda>q. \<not> is_control q) view"
  unfolding tx_ok_def raw_tx_simps
proof (intro allI impI conjI)
  fix c :: ctx and s saved assume o: "snd (view s) = Some saved"
  show "view (snd (raw_rollback E c s)) = (saved, None)"
    using sqlite_rollback_okD [OF assms(3) o] .
  show "after_commit view s (e_exec E c SqlCommit s)"
    using assms(3) [unfolded sqlite_control_ok_def, THEN spec, THEN spec, of s c] by blast
  show "view (snd (e_probe E c n s)) = view s"
      "fst (e_probe E c n s) \<in> {None, Some (n \<in> versions (fst (view s)))}" for n
    using probe_okD [OF assms(1), of c n s] by (metis insert_iff surjective_pairing)+
  fix q assume q: "\<not> is_control q"
  show "snd (view (snd (e_exec E c q s))) = Some saved"
    using exec_okD(1) [OF assms(2) q] o by (metis surjective_pairing)
  show "sql_eff run q (fst (view s)) = Some (fst (view (snd (e_exec E c q s))))" if "fst (e_exec E c q s)"
    using exec_okD(2) [OF assms(2) q] that by (metis surjective_pairing)
qed

lemma sqlite_tx_dialect:
  assumes "reads_ok E view" "exec_ok E run view" "sqlite_control_ok E view"
  shows "tx_dialect (sqlite_dialect fmt E) run (\<lambda>q. \<not> is_control q) view"
  unfolding tx_dialect_def
proof (intro allI impI)
  fix s assume n: "snd (view s) = None"
  obtain ok s' where b: "e_exec E Ctx SqlBegin s = (ok, s')" by fastforce
  show "case begin_tx (sqlite_dialect fmt E) s of
      (Inl e, s') \<Rightarrow> e \<noteq> ECommit \<and> view s' = view s
    | (Inr tx, s') \<Rightarrow> tx_ok tx run (\<lambda>q. \<not> is_control q) view \<and> view s' = (fst (view s), Some (fst (view s)))"
    using sqlite_begin_okD [OF assms(3) n b] raw_tx_ok [OF assms] b
    by (cases ok) (simp_all add: sqlite_dialect_def sqlite_begin_def)
qed

lemma mysql_tx_dialect:
  assumes "mysql_tx_ok E run S view"
  shows "tx_dialect (mysql_dialect fmt E) run S view"
  unfolding tx_dialect_def
proof (intro allI impI)
  have tx: "tx_ok (sql_tx E) run S view"
    unfolding tx_ok_def sql_tx_simps
  proof (intro allI impI)
    fix c :: ctx and s saved assume o: "snd (view s) = Some saved"
    show "(\<forall>q. S q \<longrightarrow> snd (view (snd (e_tx_exec E c q s))) = Some saved \<and>
           (fst (e_tx_exec E c q s) \<longrightarrow>
             sql_eff run q (fst (view s)) = Some (fst (view (snd (e_tx_exec E c q s)))))) \<and>
        (\<forall>n. view (snd (e_tx_probe E c n s)) = view s \<and>
           fst (e_tx_probe E c n s) \<in> {None, Some (n \<in> versions (fst (view s)))}) \<and>
        after_commit view s (e_tx_commit E s) \<and> view (snd (e_tx_rollback E s)) = (saved, None)"
      using assms [unfolded mysql_tx_ok_def, THEN spec, of s] o by simp
  qed
  fix s assume n: "snd (view s) = None"
  obtain ok s' where b: "e_begin_tx E s = (ok, s')" by fastforce
  have "view s' = (if ok then (fst (view s), Some (fst (view s))) else view s)"
    using assms [unfolded mysql_tx_ok_def, THEN spec, of s] n b by simp
  then show "case begin_tx (mysql_dialect fmt E) s of
      (Inl e, s') \<Rightarrow> e \<noteq> ECommit \<and> view s' = view s
    | (Inr tx, s') \<Rightarrow> tx_ok tx run S view \<and> view s' = (fst (view s), Some (fst (view s)))"
    using tx b by (cases ok) (simp_all add: mysql_dialect_def mysql_begin_def)
qed

section \<open>One transaction\<close>

lemma callD: "call f s = (r, s') \<Longrightarrow> f (sess s) = (r, sess s') \<and> logs s' = logs s"
  by (cases "f (sess s)") (auto simp: call_def)

lemma effs_append:
  "effs run (xs @ ys) v = (case effs run xs v of None \<Rightarrow> None | Some v' \<Rightarrow> effs run ys v')"
  by (induction xs arbitrary: v) (auto split: option.splits)

lemma tx_execD:
  assumes "tx_ok tx run S view" "snd (view (sess s)) = Some saved" "S q" "call (tx_exec tx c q) s = (ok, s')"
  shows "snd (view (sess s')) = Some saved" "logs s' = logs s"
    "ok \<Longrightarrow> sql_eff run q (fst (view (sess s))) = Some (fst (view (sess s')))"
proof -
  have r: "tx_exec tx c q (sess s) = (ok, sess s')" "logs s' = logs s" using callD [OF assms(4)] by auto
  have "snd (view (snd (tx_exec tx c q (sess s)))) = Some saved \<and>
    (fst (tx_exec tx c q (sess s)) \<longrightarrow>
      sql_eff run q (fst (view (sess s))) = Some (fst (view (snd (tx_exec tx c q (sess s))))))"
    using assms(1) [unfolded tx_ok_def] assms(2,3) by blast
  then show "snd (view (sess s')) = Some saved" "logs s' = logs s"
    "ok \<Longrightarrow> sql_eff run q (fst (view (sess s))) = Some (fst (view (sess s')))"
    using r by simp_all
qed

lemma tx_hasD:
  assumes "tx_ok tx run S view" "snd (view (sess s)) = Some saved" "call (tx_has tx c n) s = (r, s')"
  shows "view (sess s') = view (sess s)" "logs s' = logs s"
    "r = Some b \<Longrightarrow> b = (n \<in> versions (fst (view (sess s))))"
proof -
  have r: "tx_has tx c n (sess s) = (r, sess s')" "logs s' = logs s" using callD [OF assms(3)] by auto
  have "view (snd (tx_has tx c n (sess s))) = view (sess s) \<and>
      fst (tx_has tx c n (sess s)) \<in> {None, Some (n \<in> versions (fst (view (sess s))))}"
    using assms(1) [unfolded tx_ok_def] assms(2) by blast
  then show "view (sess s') = view (sess s)" "logs s' = logs s"
    "r = Some b \<Longrightarrow> b = (n \<in> versions (fst (view (sess s))))"
    using r by auto
qed

lemma tx_commitD:
  assumes "tx_ok tx run S view" "snd (view (sess s)) = Some saved" "call (tx_commit tx c) s = (ok, s')"
  shows "logs s' = logs s" "ok \<Longrightarrow> view (sess s') = (fst (view (sess s)), None)"
    "\<not> ok \<Longrightarrow> view (sess s') \<in> {view (sess s), (fst (view (sess s)), None), (saved, None)}"
proof -
  have r: "tx_commit tx c (sess s) = (ok, sess s')" "logs s' = logs s" using callD [OF assms(3)] by auto
  have "after_commit view (sess s) (tx_commit tx c (sess s))"
    using assms(1) [unfolded tx_ok_def] assms(2) by blast
  then show "logs s' = logs s" "ok \<Longrightarrow> view (sess s') = (fst (view (sess s)), None)"
    "\<not> ok \<Longrightarrow> view (sess s') \<in> {view (sess s), (fst (view (sess s)), None), (saved, None)}"
    using r assms(2) by (simp_all add: after_commit_def)
qed

lemma abort_txD:
  assumes "tx_ok tx run S view" "snd (view (sess s)) = Some saved" "abort_tx tx r s = (r', s')"
  shows "r' = r" "view (sess s') = (saved, None)" "logs s' = logs s"
proof -
  have "view (snd (tx_rollback tx Uncancelled (sess s))) = (saved, None)"
    using assms(1) [unfolded tx_ok_def] assms(2) by blast
  then show "r' = r" "view (sess s') = (saved, None)" "logs s' = logs s"
    using assms(3) by (auto simp: abort_tx_def call_def split: prod.splits)
qed

lemma tx_statementsD:
  assumes "tx_ok tx run S view" "snd (view (sess s)) = Some saved" "\<forall>q \<in> set qs. S (SqlText q)"
    "tx_statements tx qs s = (r, s')"
  shows "snd (view (sess s')) = Some saved \<and> logs s' = logs s \<and>
    (r = Inr () \<longrightarrow> effs run (map SqlText qs) (fst (view (sess s))) = Some (fst (view (sess s'))))
    \<and> r \<noteq> Inl ECommit"
  using assms(2-)
proof (induction qs arbitrary: s)
  case (Cons q qs)
  obtain ok s1 where e: "call (tx_exec tx Ctx (SqlText q)) s = (ok, s1)" by fastforce
  have 1: "snd (view (sess s1)) = Some saved" "logs s1 = logs s"
    "ok \<Longrightarrow> sql_eff run (SqlText q) (fst (view (sess s))) = Some (fst (view (sess s1)))"
    using tx_execD [OF assms(1) Cons.prems(1) _ e] Cons.prems(2) by auto
  show ?case
  proof (cases ok)
    case True
    then have "tx_statements tx qs s1 = (r, s')" using Cons.prems(3) e by simp
    from Cons.IH [OF 1(1) _ this] show ?thesis using 1 True Cons.prems(2) by (simp del: sql_eff.simps)
  next
    case False
    then show ?thesis using Cons.prems(3) e 1 by auto
  qed
qed auto

definition tx_outcome ::
  "(string \<Rightarrow> 'd \<Rightarrow> 'd option) \<Rightarrow> int \<Rightarrow> bool \<Rightarrow> sql list \<Rightarrow> 'd database \<Rightarrow>
    exec_error + bool \<Rightarrow> 'd database \<times> 'd database option \<Rightarrow> bool" where
  \<comment> \<open>what a transaction may leave behind: \<open>qs\<close> is the script with its history write\<close>
  "tx_outcome run version dn qs v r after \<longleftrightarrow>
     (case r of
        Inr True \<Rightarrow> (version \<in> versions v) \<noteq> dn \<and> after = (v, None)
      | Inr False \<Rightarrow> (version \<in> versions v) = dn \<and> (\<exists>v'. effs run qs v = Some v' \<and> after = (v', None))
      | Inl e \<Rightarrow>
          if e = ECommit
          then \<exists>v'. effs run qs v = Some v' \<and> after \<in> {(v', Some v), (v', None), (v, None)}
          else after = (v, None))"

text \<open>C14: A migration's transaction is atomic. On either dialect, from a session with no open
  transaction, \<^verbatim>\<open>execTx\<close> either reports success, and the script and its history row are committed
  together; or reports skipped, exactly when the history row is already (or, for a rollback, no
  longer) there, and nothing changed; or fails, and the database is as it was with no transaction
  left open. Only a failed \<^verbatim>\<open>COMMIT\<close> leaves a choice: the whole effect or none of it, and possibly
  a transaction that is still open.\<close>

theorem exec_tx_atomic:
  assumes "tx_dialect d run S view" "\<forall>q \<in> set stmts. S (SqlText q)" "S rcd"
    and "view (sess s) = (v, None)" "exec_tx d version dn stmts rcd s = (r, s')"
  shows "tx_outcome run version dn (map SqlText stmts @ [rcd]) v r (view (sess s')) \<and> logs s' = logs s"
proof -
  obtain bg s1 where b: "call (begin_tx d) s = (bg, s1)" by fastforce
  have bv: "case bg of Inl e \<Rightarrow> e \<noteq> ECommit \<and> view (sess s1) = (v, None) | Inr tx \<Rightarrow> tx_ok tx run S view \<and> view (sess s1) = (v, Some v)"
    using assms(1) [unfolded tx_dialect_def, THEN spec, of "sess s"] assms(4) callD [OF b]
    by (auto split: sum.splits)
  have l1: "logs s1 = logs s" using callD [OF b] by simp
  show ?thesis
  proof (cases bg)
    case (Inl e)
    then show ?thesis using assms(5) b bv l1
      by (auto simp: exec_tx_def tx_outcome_def)
  next
    case (Inr tx)
    have tx: "tx_ok tx run S view" and v1: "view (sess s1) = (v, Some v)" using bv Inr by auto
    then have o1: "snd (view (sess s1)) = Some v" by simp
    obtain h s2 where h: "call (tx_has tx Uncancelled version) s1 = (h, s2)" by fastforce
    note hv = tx_hasD [OF tx o1 h]
    have o2: "snd (view (sess s2)) = Some v" using hv(1) o1 by simp
    note ab = abort_txD [OF tx]
    show ?thesis
    proof (cases h)
      case None
      then have "abort_tx tx (Inl EProbe) s2 = (r, s')" using assms(5) b Inr h by (simp add: exec_tx_def)
      from ab [OF o2 this] show ?thesis using hv(2) l1 by (simp add: tx_outcome_def)
    next
      case (Some exists)
      have ex: "exists = (version \<in> versions v)" using hv(3) Some v1 by simp
      show ?thesis
      proof (cases "exists = dn")
        case False
        then have "abort_tx tx (Inr True) s2 = (r, s')" using assms(5) b Inr h Some by (simp add: exec_tx_def)
        from ab [OF o2 this] show ?thesis using False hv(2) l1 ex by (simp add: tx_outcome_def)
      next
        case True
        obtain sr s3 where t: "tx_statements tx stmts s2 = (sr, s3)" by fastforce
        note tv = tx_statementsD [OF tx o2 assms(2) t]
        then have o3: "snd (view (sess s3)) = Some v" by simp
        show ?thesis
        proof (cases sr)
          case (Inl e)
          then have "abort_tx tx (Inl e) s3 = (r, s')" using assms(5) b Inr h Some True t by (simp add: exec_tx_def)
          from ab [OF o3 this] show ?thesis using hv(2) l1 tv Inl by (simp add: tx_outcome_def)
        next
          case sok: (Inr u)
          obtain ok s4 where rc: "call (tx_exec tx Ctx rcd) s3 = (ok, s4)" by fastforce
          note rv = tx_execD [OF tx o3 assms(3) rc]
          show ?thesis
          proof (cases ok)
            case False
            then have "abort_tx tx (Inl ERecord) s4 = (r, s')"
              using assms(5) b Inr h Some True t sok rc by (simp add: exec_tx_def)
            from ab [OF rv(1) this] show ?thesis using hv(2) l1 tv rv(2) by (simp add: tx_outcome_def)
          next
            case rok: True
            obtain cok s5 where cm: "call (tx_commit tx Uncancelled) s4 = (cok, s5)" by fastforce
            note cv = tx_commitD [OF tx rv(1) cm]
            have e: "effs run (map SqlText stmts @ [rcd]) v = Some (fst (view (sess s4)))"
              using tv sok rv(3) rok hv(1) v1 by (simp add: effs_append)
            have r: "(r, s') = (if cok then Inr False else Inl ECommit, s5)"
              using assms(5) b Inr h Some True t sok rc rok cm by (cases cok) (simp_all add: exec_tx_def)
            have v4: "view (sess s4) = (fst (view (sess s4)), Some v)"
              using rv(1) by (metis prod.collapse)
            show ?thesis
            proof (cases cok)
              case True
              then show ?thesis using r cv e ex \<open>exists = dn\<close> hv(2) l1 tv rv(2)
                by (auto simp: tx_outcome_def)
            next
              case False
              then have "view (sess s5) \<in> {(fst (view (sess s4)), Some v), (fst (view (sess s4)), None), (v, None)}"
                using cv(3) v4 by simp
              then show ?thesis using r False e cv(1) hv(2) l1 tv rv(2)
                by (simp add: tx_outcome_def)
            qed
          qed
        qed
      qed
    qed
  qed
qed

section \<open>A concrete driver\<close>

text \<open>A driver in memory, on which the concrete instances of the properties run: its content is the
  list of executed texts, the text \<^verbatim>\<open>bad\<close> fails, and \<open>mem_fail\<close> makes \<^verbatim>\<open>COMMIT\<close> fail with the
  transaction left open, as SQLite does when it is busy.\<close>

record mem =
  mem_db :: "string list database"
  mem_saved :: "string list database option"
  mem_fail :: bool

definition mem_run :: "string \<Rightarrow> string list \<Rightarrow> string list option" where
  "mem_run q c = (if q = ''bad'' then None else Some (c @ [q]))"

definition mem_exec :: "ctx \<Rightarrow> sql \<Rightarrow> mem \<Rightarrow> bool \<times> mem" where
  "mem_exec c q s =
     (case q of
        SqlBegin \<Rightarrow> (True, s\<lparr>mem_saved := Some (mem_db s)\<rparr>)
      | SqlCommit \<Rightarrow> if mem_fail s then (False, s) else (True, s\<lparr>mem_saved := None\<rparr>)
      | SqlRollback \<Rightarrow>
          (True, s\<lparr>mem_db := (case mem_saved s of None \<Rightarrow> mem_db s | Some v \<Rightarrow> v), mem_saved := None\<rparr>)
      | _ \<Rightarrow>
          (case sql_eff mem_run q (mem_db s) of
             None \<Rightarrow> (False, s)
           | Some v \<Rightarrow> (True, s\<lparr>mem_db := v\<rparr>)))"

definition mem_engine :: "mem engine" where
  "mem_engine =
     \<lparr>e_conn = (\<lambda>s. (True, s)), e_close = (\<lambda>s. s),
      e_poison = (\<lambda>s. snd (mem_exec Ctx SqlRollback s)), e_cancelled = (\<lambda>_. False),
      e_exec = mem_exec,
      e_probe = (\<lambda>c n s. (Some (n \<in> fst ` set (hist (mem_db s))), s)),
      e_rows = (\<lambda>s. (Some (AList.clearjunk (hist (mem_db s))), s)),
      e_dirty = (\<lambda>s. (Some (dirt (mem_db s)), s)),
      e_has_dirty_column = (\<lambda>s. (Some True, s)),
      e_get_lock = (\<lambda>n s. (Some (Some 1), s)),
      e_begin_tx = mem_exec Ctx SqlBegin,
      e_tx_exec = mem_exec,
      e_tx_probe = (\<lambda>c n s. (Some (n \<in> fst ` set (hist (mem_db s))), s)),
      e_tx_commit = mem_exec Ctx SqlCommit, e_tx_rollback = mem_exec Ctx SqlRollback,
      e_now = (\<lambda>s. (0, s)), e_hostname = Some ''h'', e_current_user = None, e_user_env = ''u''\<rparr>"

definition mem_view :: "mem \<Rightarrow> string list database \<times> string list database option" where
  "mem_view s = (mem_db s, mem_saved s)"

lemma mem_exec_ok: "exec_ok mem_engine mem_run mem_view"
  unfolding exec_ok_def
proof (intro allI impI)
  fix c q s assume "\<not> is_control q"
  then have "mem_exec c q s = (case sql_eff mem_run q (mem_db s) of
      None \<Rightarrow> (False, s) | Some v \<Rightarrow> (True, s\<lparr>mem_db := v\<rparr>))"
    by (cases q) (simp_all add: mem_exec_def)
  then show "snd (mem_view (snd (e_exec mem_engine c q s))) = snd (mem_view s) \<and>
      (if fst (e_exec mem_engine c q s)
       then sql_eff mem_run q (fst (mem_view s)) = Some (fst (mem_view (snd (e_exec mem_engine c q s))))
       else fst (mem_view (snd (e_exec mem_engine c q s))) = fst (mem_view s) \<or>
            sql_eff mem_run q (fst (mem_view s)) = Some (fst (mem_view (snd (e_exec mem_engine c q s)))))"
    by (simp add: mem_engine_def mem_view_def split: option.splits)
qed

lemma mem_control_ok: "sqlite_control_ok mem_engine mem_view"
  by (auto simp: sqlite_control_ok_def after_commit_def mem_engine_def mem_view_def mem_exec_def
      split: option.splits)

lemma mem_reads_ok: "reads_ok mem_engine mem_view"
  by (simp add: reads_ok_def mem_engine_def mem_view_def map_of_clearjunk distinct_clearjunk)

lemmas mem_tx = sqlite_tx_dialect [OF mem_reads_ok mem_exec_ok mem_control_ok]

definition mem_start :: "bool \<Rightarrow> mem mstate" where
  "mem_start f =
     \<lparr>sess = \<lparr>mem_db = \<lparr>hist = [], dirt = [], content = []\<rparr>, mem_saved = None, mem_fail = f\<rparr>, logs = []\<rparr>"

lemmas mem_eval =
  exec_tx_def call_def sqlite_dialect_def sqlite_begin_def raw_rollback_def abort_tx_def
  mem_engine_def mem_exec_def mem_run_def mem_start_def mem_view_def

lemma exec_tx_atomic_witness:
  "tx_outcome mem_run 7 False [SqlText ''a'', SqlText ''bad'', SqlInsert 7 ''n'' ''c'' ''t'']
     \<lparr>hist = [], dirt = [], content = []\<rparr> (Inl (EStatement ''bad''))
     (\<lparr>hist = [], dirt = [], content = []\<rparr>, None)"
proof -
  let ?d = "sqlite_dialect (\<lambda>_. ''t'') mem_engine"
  have "exec_tx ?d 7 False [''a'', ''bad''] (SqlInsert 7 ''n'' ''c'' ''t'') (mem_start False) =
      (Inl (EStatement ''bad''), mem_start False)"
    by (simp add: mem_eval first_line_def cut_def)
  from exec_tx_atomic [OF mem_tx _ _ _ this, of "\<lparr>hist = [], dirt = [], content = []\<rparr>"]
  show ?thesis by (simp add: mem_start_def mem_view_def)
qed

lemma failed_commit_strands:
  \<comment> \<open>no \<^verbatim>\<open>ROLLBACK\<close> follows a failed \<^verbatim>\<open>COMMIT\<close>: the transaction stays open on the connection\<close>
  "\<exists>s'. exec_tx (sqlite_dialect (\<lambda>_. ''t'') mem_engine) 7 False [''a''] (SqlInsert 7 ''n'' ''c'' ''t'') (mem_start True) =
      (Inl ECommit, s') \<and> mem_saved (sess s') \<noteq> None"
  by (simp add: mem_eval)

section \<open>A script outside a transaction\<close>

lemma e_execD:
  assumes "exec_ok E run view" "\<not> is_control q" "call (e_exec E c q) s = (ok, s')" "view (sess s) = (v, None)"
  shows "logs s' = logs s" "snd (view (sess s')) = None"
    "ok \<Longrightarrow> sql_eff run q v = Some (fst (view (sess s')))"
    "\<not> ok \<Longrightarrow> fst (view (sess s')) = v \<or> sql_eff run q v = Some (fst (view (sess s')))"
proof -
  have e: "e_exec E c q (sess s) = (ok, sess s')" "logs s' = logs s" using callD [OF assms(3)] by auto
  show "logs s' = logs s" "snd (view (sess s')) = None"
    "ok \<Longrightarrow> sql_eff run q v = Some (fst (view (sess s')))"
    "\<not> ok \<Longrightarrow> fst (view (sess s')) = v \<or> sql_eff run q v = Some (fst (view (sess s')))"
    using exec_okD [OF assms(1,2) e(1)] e(2) assms(4) by simp_all
qed

lemma raw_statementsD:
  assumes "exec_ok E run view" "view (sess s) = (v, None)" "raw_statements E qs s = (r, s')"
  shows "logs s' = logs s \<and> (\<exists>n v'. effs run (map SqlText (take n qs)) v = Some v' \<and>
    view (sess s') = (v', None) \<and> (r = Inr () \<longrightarrow> length qs \<le> n) \<and> r \<noteq> Inl EProbe \<and> r \<noteq> Inl EPremark)"
  using assms(2,3)
proof (induction qs arbitrary: s v)
  case (Cons q qs)
  obtain ok s1 where e: "call (e_exec E Ctx (SqlText q)) s = (ok, s1)" by fastforce
  note x = e_execD [OF assms(1) _ e Cons.prems(1), simplified is_control.simps, simplified]
  show ?case
  proof (cases ok)
    case True
    have v1: "view (sess s1) = (fst (view (sess s1)), None)" using x(2) by (metis prod.collapse)
    have "raw_statements E qs s1 = (r, s')" using Cons.prems(2) e True by simp
    from Cons.IH [OF v1 this] obtain n v' where n: "logs s' = logs s1"
        "effs run (map SqlText (take n qs)) (fst (view (sess s1))) = Some v'" "view (sess s') = (v', None)"
        "r = Inr () \<longrightarrow> length qs \<le> n" "r \<noteq> Inl EProbe" "r \<noteq> Inl EPremark" by auto
    have "sql_eff run (SqlText q) v = Some (fst (view (sess s1)))"
      using e_execD(3) [OF assms(1) _ e Cons.prems(1) True] by simp
    then have "effs run (map SqlText (take (Suc n) (q # qs))) v = Some v'"
      using n(2) by (simp del: sql_eff.simps)
    then show ?thesis using n x(1) by (intro conjI exI [of _ "Suc n"] exI [of _ v']) auto
  next
    case False
    then have r: "r = Inl (EStatement (first_line q))" "s' = s1" using Cons.prems(2) e by auto
    have v1: "view (sess s1) = (fst (view (sess s1)), None)" using x(2) by (metis prod.collapse)
    have "fst (view (sess s1)) = v \<or> sql_eff run (SqlText q) v = Some (fst (view (sess s1)))"
      using e_execD(4) [OF assms(1) _ e Cons.prems(1) False] by simp
    then show ?thesis
    proof
      assume "fst (view (sess s1)) = v"
      then show ?thesis using r v1 x(1) by (intro conjI exI [of _ 0] exI [of _ v]) auto
    next
      assume "sql_eff run (SqlText q) v = Some (fst (view (sess s1)))"
      then have "effs run (map SqlText (take 1 (q # qs))) v = Some (fst (view (sess s1)))"
        by (simp del: sql_eff.simps)
      then show ?thesis using r v1 x(1) by (intro conjI exI [of _ 1] exI [of _ "fst (view (sess s1))"]) auto
    qed
  qed
qed auto

end
