(* ===== verification/MigratorRun.thy ===== *)
theory MigratorRun
  imports MigratorSpec
begin

text \<open>
  Whole runs of the migrator: a script outside a transaction with its dirty mark, \<^verbatim>\<open>Up\<close> and
  \<^verbatim>\<open>Down\<close> over the pending and applied migrations, several runners applying the same set, and the
  refusals that leave the database alone.
\<close>

section \<open>Scripts outside a transaction\<close>

definition opt_list :: "'a option \<Rightarrow> 'a list" where
  "opt_list x = (case x of None \<Rightarrow> [] | Some y \<Rightarrow> [y])"

definition raw_outcome ::
  "(string \<Rightarrow> 'd \<Rightarrow> 'd option) \<Rightarrow> int \<Rightarrow> sql option \<Rightarrow> string list \<Rightarrow> sql \<Rightarrow> 'd database \<Rightarrow>
    exec_error + bool \<Rightarrow> 'd database \<times> 'd database option \<Rightarrow> bool" where
  \<comment> \<open>what a script outside a transaction may leave behind\<close>
  "raw_outcome run version pm stmts rq v r after \<longleftrightarrow>
     (let qs = opt_list pm @ map SqlText stmts @ [rq] in
      case r of
        Inr True \<Rightarrow> 0 \<le> version \<and> version \<in> versions v \<and> after = (v, None)
      | Inr False \<Rightarrow> (0 \<le> version \<longrightarrow> version \<notin> versions v) \<and>
          (\<exists>v'. effs run qs v = Some v' \<and> after = (v', None))
      | Inl e \<Rightarrow>
          (\<exists>k v'. effs run (take k qs) v = Some v' \<and> after = (v', None) \<and>
             (e \<noteq> EPremark \<and> e \<noteq> EProbe \<longrightarrow> length (opt_list pm) \<le> k) \<and>
             (e \<noteq> ERecord \<longrightarrow> k \<le> length (opt_list pm) + length stmts)))"

lemma take_append3: "take (length xs + n) (xs @ ys) = xs @ take n ys"
  by simp

lemma raw_tailD:
  assumes "exec_ok E run view" "view (sess s) = (v1, None)" "\<not> is_control rq"
    and "raw_statements E stmts s = (sr, s2)" "call (e_exec E Ctx rq) s2 = (ok, s3)"
  shows "logs s2 = logs s \<and> logs s3 = logs s \<and>
    (case sr of
       Inl e \<Rightarrow> e \<noteq> EProbe \<and> e \<noteq> EPremark \<and>
         (\<exists>k v'. effs run (take k (map SqlText stmts @ [rq])) v1 = Some v' \<and> view (sess s2) = (v', None) \<and>
            k \<le> length stmts)
     | Inr _ \<Rightarrow>
         if ok then \<exists>v'. effs run (map SqlText stmts @ [rq]) v1 = Some v' \<and> view (sess s3) = (v', None)
         else \<exists>k v'. effs run (take k (map SqlText stmts @ [rq])) v1 = Some v' \<and> view (sess s3) = (v', None))"
proof -
  obtain n v2 where r: "logs s2 = logs s" "effs run (map SqlText (take n stmts)) v1 = Some v2"
      "view (sess s2) = (v2, None)" "sr = Inr () \<longrightarrow> length stmts \<le> n" "sr \<noteq> Inl EProbe" "sr \<noteq> Inl EPremark"
    using raw_statementsD [OF assms(1,2,4)] by auto
  note x = e_execD [OF assms(1,3,5) r(3)]
  have v3: "view (sess s3) = (fst (view (sess s3)), None)" using x(2) by (metis prod.collapse)
  have tk: "take (min n (length stmts)) (map SqlText stmts @ [rq]) = map SqlText (take n stmts)"
    by (simp add: take_map min_def)
  show ?thesis
  proof (cases sr)
    case (Inl e)
    have "effs run (take (min n (length stmts)) (map SqlText stmts @ [rq])) v1 = Some v2"
      unfolding tk by (rule r(2))
    then have "\<exists>k v'. effs run (take k (map SqlText stmts @ [rq])) v1 = Some v' \<and> view (sess s2) = (v', None) \<and>
        k \<le> length stmts"
      using r(3) min.cobounded2 [of n "length stmts"] by blast
    then show ?thesis using Inl r x(1) by simp
  next
    case (Inr u)
    then have all: "effs run (map SqlText stmts) v1 = Some v2" using r(2,4) by simp
    show ?thesis
    proof (cases ok)
      case True
      then have "effs run (map SqlText stmts @ [rq]) v1 = Some (fst (view (sess s3)))"
        using all x(3) by (simp add: effs_append del: sql_eff.simps)
      then show ?thesis using Inr True r(1) x(1) v3 by auto
    next
      case False
      have "\<exists>k. effs run (take k (map SqlText stmts @ [rq])) v1 = Some (fst (view (sess s3)))"
        using x(4) [OF False]
      proof
        assume "fst (view (sess s3)) = v2"
        then show ?thesis using all by (intro exI [of _ "length stmts"]) simp
      next
        assume "sql_eff run rq v2 = Some (fst (view (sess s3)))"
        then have "effs run (map SqlText stmts @ [rq]) v1 = Some (fst (view (sess s3)))"
          using all by (simp add: effs_append del: sql_eff.simps)
        then show ?thesis by (intro exI [of _ "Suc (length stmts)"]) simp
      qed
      then show ?thesis using Inr False r(1) x(1) v3 by auto
    qed
  qed
qed

lemma exec_raw_outcome:
  assumes "exec_ok E run view" "reads_ok E view" "view (sess s) = (v, None)"
    and "\<forall>q. pm = Some q \<longrightarrow> \<not> is_control q" "\<not> is_control rq"
    and "exec_raw E version stmts (map_option (e_exec E Ctx) pm) (e_exec E Ctx rq) s = (r, s')"
  shows "raw_outcome run version pm stmts rq v r (view (sess s')) \<and> logs s' = logs s"
proof -
  define body where "body = (\<lambda>s.
        (case (case map_option (e_exec E Ctx) pm of None \<Rightarrow> (True, s) | Some p \<Rightarrow> call p s) of
           (False, s1) \<Rightarrow> (Inl EPremark, s1)
         | (True, s1) \<Rightarrow>
             (case raw_statements E stmts s1 of
                (Inl e, s2) \<Rightarrow> (Inl e, s2)
              | (Inr _, s2) \<Rightarrow>
                  (case call (e_exec E Ctx rq) s2 of
                     (True, s3) \<Rightarrow> (Inr False, s3)
                   | (False, s3) \<Rightarrow> (Inl ERecord, s3)))))"
  have bodyD: "raw_outcome run version pm stmts rq v r (view (sess s')) \<and> logs s' = logs s0"
    if b: "body s0 = (r, s')" and v0: "view (sess s0) = (v, None)" and nv: "0 \<le> version \<longrightarrow> version \<notin> versions v" for s0
  proof -
    obtain ok s1 where p: "(case map_option (e_exec E Ctx) pm of None \<Rightarrow> (True, s0) | Some p \<Rightarrow> call p s0) = (ok, s1)"
      by fastforce
    have p1: "logs s1 = logs s0 \<and> (\<exists>v1. view (sess s1) = (v1, None) \<and>
        (if ok then effs run (opt_list pm) v = Some v1
         else \<exists>k. effs run (take k (opt_list pm)) v = Some v1))"
    proof (cases pm)
      case None
      then show ?thesis using p v0 by (auto simp: opt_list_def)
    next
      case (Some q)
      then have c: "call (e_exec E Ctx q) s0 = (ok, s1)" "\<not> is_control q" using p assms(4) by auto
      note x = e_execD [OF assms(1) c(2,1) v0]
      have "\<not> ok \<Longrightarrow> \<exists>k. effs run (take k [q]) v = Some (fst (view (sess s1)))"
        using x(4) by (metis effs.simps option.simps(5) take0 take_Suc_Cons)
      then show ?thesis
        using x Some by (intro conjI exI [of _ "fst (view (sess s1))"])
          (auto simp: opt_list_def simp del: sql_eff.simps, metis prod.collapse)
    qed
    then obtain v1 where v1: "logs s1 = logs s0" "view (sess s1) = (v1, None)"
      "if ok then effs run (opt_list pm) v = Some v1 else \<exists>k. effs run (take k (opt_list pm)) v = Some v1"
      by auto
    show ?thesis
    proof (cases ok)
      case False
      then obtain k where "effs run (take k (opt_list pm)) v = Some v1" using v1(3) by auto
      then have "effs run (take (min k (length (opt_list pm))) (opt_list pm @ map SqlText stmts @ [rq])) v = Some v1"
        by (cases "k \<le> length (opt_list pm)") (simp_all add: min_def)
      then have "\<exists>k. effs run (take k (opt_list pm @ map SqlText stmts @ [rq])) v = Some v1 \<and>
          k \<le> length (opt_list pm) + length stmts"
        by (meson min.cobounded2 trans_le_add1)
      moreover have "r = Inl EPremark" "s' = s1" using b p False by (auto simp: body_def)
      ultimately show ?thesis using v1(1,2) by (simp add: raw_outcome_def Let_def del: take_append)
    next
      case True
      obtain sr s2 where st: "raw_statements E stmts s1 = (sr, s2)" by fastforce
      obtain rk s3 where rc: "call (e_exec E Ctx rq) s2 = (rk, s3)" by fastforce
      note t = raw_tailD [OF assms(1) v1(2) assms(5) st rc]
      have e: "effs run (opt_list pm @ qs) v = effs run qs v1" for qs
        using v1(3) True by (simp add: effs_append)
      have res: "(r, s') = (case sr of Inl e \<Rightarrow> (Inl e, s2)
          | Inr _ \<Rightarrow> if rk then (Inr False, s3) else (Inl ERecord, s3))"
        using b p True st rc by (cases sr; cases rk) (simp_all add: body_def)
      have lift: "\<exists>k'. effs run (take k' (opt_list pm @ qs)) v = Some w \<and> k' = length (opt_list pm) + k"
        if "effs run (take k qs) v1 = Some w" for k qs w
        using that by (intro exI [of _ "length (opt_list pm) + k"]) (simp add: e)
      show ?thesis
      proof (cases sr)
        case (Inl err)
        then obtain k v' where k: "effs run (take k (map SqlText stmts @ [rq])) v1 = Some v'"
            "view (sess s2) = (v', None)" "r = Inl err" "s' = s2" "k \<le> length stmts" using t res by auto
        then show ?thesis using lift [OF k(1)] t v1(1)
          by (auto simp: raw_outcome_def Let_def simp del: take_append)
      next
        case (Inr u)
        show ?thesis
        proof (cases rk)
          case True
          then obtain v' where "effs run (map SqlText stmts @ [rq]) v1 = Some v'"
              "view (sess s3) = (v', None)" "r = Inr False" "s' = s3" using t res Inr by auto
          then show ?thesis using t v1(1) nv e by (simp add: raw_outcome_def Let_def)
        next
          case False
          then obtain k v' where k: "effs run (take k (map SqlText stmts @ [rq])) v1 = Some v'"
              "view (sess s3) = (v', None)" "r = Inl ERecord" "s' = s3" using t res Inr by auto
          then show ?thesis using lift [OF k(1)] t v1(1)
            by (auto simp: raw_outcome_def Let_def simp del: take_append)
        qed
      qed
    qed
  qed
  show ?thesis
  proof (cases "0 \<le> version")
    case False
    then show ?thesis using bodyD [OF _ assms(3)] assms(6)
      by (simp add: exec_raw_def Let_def body_def)
  next
    case True
    obtain h s0 where h: "call (e_probe E Ctx version) s = (h, s0)" by fastforce
    have hv: "view (sess s0) = (v, None)" "logs s0 = logs s" "h = None \<or> h = Some (version \<in> versions v)"
      using probe_okD [OF assms(2) conjunct1 [OF callD [OF h]]] callD [OF h] assms(3) by auto
    have u: "exec_raw E version stmts (map_option (e_exec E Ctx) pm) (e_exec E Ctx rq) s =
        (case h of None \<Rightarrow> (Inl EProbe, s0) | Some True \<Rightarrow> (Inr True, s0) | Some False \<Rightarrow> body s0)"
      using True h by (cases h) (auto simp: exec_raw_def Let_def body_def split: bool.splits)
    show ?thesis
    proof (cases h)
      case None
      then show ?thesis using u assms(6) hv
        by (auto simp: raw_outcome_def Let_def intro!: exI [of _ 0])
    next
      case (Some b)
      then show ?thesis using u assms(6) hv bodyD [OF _ hv(1)] True
        by (cases b) (auto simp: raw_outcome_def Let_def)
    qed
  qed
qed

section \<open>One migration\<close>

definition dialect_ok ::
  "'s engine \<Rightarrow> 's dialect_ops \<Rightarrow> (string \<Rightarrow> 'd \<Rightarrow> 'd option) \<Rightarrow> (sql \<Rightarrow> bool) \<Rightarrow> ('s, 'd) view \<Rightarrow> bool" where
  "dialect_ok E d run S view \<longleftrightarrow>
     reads_ok E view \<and> exec_ok E run view \<and> tx_dialect d run S view \<and>
     (\<forall>t s. view (snd (lock d t s)) = view s) \<and> (\<forall>c s. view (snd (unlock d c s)) = view s) \<and>
     (dirty_cap d = None \<or> dirty_cap d = Some (mysql_dirty E))"

lemma neutral_exec:
  assumes "exec_ok E run view" "\<not> is_control q" "\<And>v. sql_eff run q v = Some v"
  shows "view (snd (e_exec E c q s)) = view s"
  using assms(1) [unfolded exec_ok_def, THEN spec, THEN spec, THEN spec, of q c s] assms(2,3)
  by (auto simp: prod_eq_iff split: if_splits)

lemma sqlite_dialect_ok:
  assumes "reads_ok E view" "exec_ok E run view" "sqlite_control_ok E view"
  shows "dialect_ok E (sqlite_dialect fmt E) run (\<lambda>q. \<not> is_control q) view"
  using assms sqlite_tx_dialect [OF assms] neutral_exec [OF assms(2), of "SqlBusyTimeout n" for n]
  by (auto simp: dialect_ok_def sqlite_dialect_def sqlite_lock_def split: prod.splits bool.splits)
    (metis snd_conv is_control.simps(9) sql_eff.simps(9))+

lemma mysql_dialect_ok:
  assumes "reads_ok E view" "exec_ok E run view" "mysql_tx_ok E run S view"
  shows "dialect_ok E (mysql_dialect fmt E) run S view"
proof -
  have "view (snd (e_get_lock E n s)) = view s" for n s
    using assms(1) unfolding reads_ok_def by blast
  then have "view (snd (mysql_lock E t s)) = view s" for t s
    by (auto simp: mysql_lock_def split: prod.splits option.splits) (metis snd_conv)+
  moreover have "view (snd (e_exec E c SqlReleaseLock s)) = view s" for c s
    by (rule neutral_exec [OF assms(2)]) simp_all
  ultimately show ?thesis
    using assms mysql_tx_dialect [OF assms(3)] by (simp add: dialect_ok_def mysql_dialect_def)
qed

fun run_texts :: "(string \<Rightarrow> 'd \<Rightarrow> 'd option) \<Rightarrow> string list \<Rightarrow> 'd \<Rightarrow> 'd option" where
  "run_texts run [] c = Some c"
| "run_texts run (q # qs) c = (case run q c of None \<Rightarrow> None | Some c' \<Rightarrow> run_texts run qs c')"

lemma run_texts_append:
  "run_texts run (xs @ ys) c = (case run_texts run xs c of None \<Rightarrow> None | Some c' \<Rightarrow> run_texts run ys c')"
  by (induction xs arbitrary: c) (auto split: option.splits)

lemma effs_texts:
  "effs run (map SqlText qs) v = map_option (\<lambda>c. v\<lparr>content := c\<rparr>) (run_texts run qs (content v))"
  by (induction qs arbitrary: v) (auto split: option.splits)

definition script_ok :: "(sql \<Rightarrow> bool) \<Rightarrow> script \<Rightarrow> bool" where
  \<comment> \<open>a script that runs in a transaction has only statements the transaction covers\<close>
  "script_ok S sc \<longleftrightarrow> no_tx sc \<or> (\<forall>q \<in> set (statements sc). S (SqlText q))"

definition applied_by ::
  "(string \<Rightarrow> 'd \<Rightarrow> 'd option) \<Rightarrow> migration \<Rightarrow> 'd database \<Rightarrow> 'd database \<Rightarrow> bool" where
  "applied_by run mig v v' \<longleftrightarrow>
     m_version mig \<notin> versions v \<and>
     run_texts run (statements (m_up mig)) (content v) = Some (content v') \<and>
     (\<exists>at. hist v' = (m_version mig, \<lparr>r_name = m_name mig, r_checksum = m_checksum mig, r_applied_at = at\<rparr>) # hist v) \<and>
     dirt v' = []"

lemma log_timed_view: "reads_ok E view \<Longrightarrow> view (sess (log_timed E start ev s)) = view (sess s)"
proof -
  obtain t s1 where now: "call (e_now E) s = (t, s1)" by fastforce
  assume "reads_ok E view"
  then have "view (sess s1) = view (sess s)" using callD [OF now] unfolding reads_ok_def by (metis snd_conv)
  with now show ?thesis by (simp add: log_timed_def log_line_def)
qed

lemma apply_upD:
  assumes ok: "dialect_ok E (m_dialect m) run S view"
    and S: "\<And>v n c t. S (SqlInsert v n c t)" "script_ok S (m_up mig)"
    and v: "view (sess s) = (v, None)" "dirt v = []" "0 \<le> m_version mig"
    and r: "apply_up E m mig s = (Inr (), s')"
  shows "(m_version mig \<in> versions v \<and> view (sess s') = (v, None)) \<or>
    (\<exists>v'. view (sess s') = (v', None) \<and> applied_by run mig v v')"
proof -
  let ?d = "m_dialect m" and ?v = "m_version mig" and ?qs = "statements (m_up mig)"
  obtain t s0 where now: "call (e_now E) s = (t, s0)" by fastforce
  note o = ok [unfolded dialect_ok_def]
  have rd: "reads_ok E view" using o by simp
  have v0: "view (sess s0) = (v, None)"
    using o v(1) callD [OF now] unfolding reads_ok_def by (metis snd_conv)
  let ?at = "format_time ?d t"
  let ?ins = "SqlInsert ?v (m_name mig) (m_checksum mig) ?at"
  have row: "applied_by run mig v v'"
    if n: "?v \<notin> versions v" and e: "effs run (map SqlText ?qs @ [?ins]) v = Some v'" for v'
    using n e v(2) by (auto simp: applied_by_def effs_append effs_texts split: option.splits if_splits)
  show ?thesis
  proof (cases "no_tx (m_up mig)")
    case False
    obtain res s1 where x: "exec_tx ?d ?v False ?qs ?ins s0 = (res, s1)" by fastforce
    have "tx_outcome run ?v False (map SqlText ?qs @ [?ins]) v res (view (sess s1))"
      using exec_tx_atomic [where view = view and S = S and run = run, OF _ _ S(1) v0 x] o S(2) False by (simp add: script_ok_def)
    moreover have "(\<exists>b. res = Inr b) \<and> view (sess s') = view (sess s1)"
      using r now x False
      by (auto simp: apply_up_def Let_def log_line_def log_timed_view [OF rd] split: sum.splits bool.splits)
    ultimately show ?thesis using row
      by (auto simp: tx_outcome_def split: bool.splits)
  next
    case True
    define pm rq where "pm = map_option (\<lambda>_. SqlInsertDirty ?v (m_name mig) (m_checksum mig) ?at) (dirty_cap ?d)"
      and "rq = (if dirty_cap ?d = None then ?ins else SqlSetDirty False ?v)"
    have pmE: "(case dirty_cap ?d of None \<Rightarrow> None
        | Some dd \<Rightarrow> Some (mark_dirty dd ?v (m_name mig) (m_checksum mig) ?at)) = map_option (e_exec E Ctx) pm"
      and rqE: "(case dirty_cap ?d of None \<Rightarrow> e_exec E Ctx ?ins | Some dd \<Rightarrow> set_dirty dd ?v False) = e_exec E Ctx rq"
      using o by (auto simp: pm_def rq_def mysql_dirty_def)
    obtain res s1 where x: "exec_raw E ?v ?qs (map_option (e_exec E Ctx) pm) (e_exec E Ctx rq) s0 = (res, s1)"
      by fastforce
    have out: "raw_outcome run ?v pm ?qs rq v res (view (sess s1))"
      using exec_raw_outcome [where view = view and run = run, OF _ _ v0 _ _ x] o by (auto simp: pm_def rq_def)
    have fin: "(\<exists>b. res = Inr b) \<and> view (sess s') = view (sess s1)"
      using r now x True pmE rqE
      by (auto simp: apply_up_def Let_def log_line_def log_timed_view [OF rd] split: sum.splits bool.splits)
    have dirty: "applied_by run mig v v'"
      if n: "?v \<notin> versions v" and c: "dirty_cap ?d \<noteq> None"
        and e: "effs run (opt_list pm @ map SqlText ?qs @ [rq]) v = Some v'" for v'
      using n c e v(2)
      by (auto simp: applied_by_def pm_def rq_def opt_list_def effs_append effs_texts split: option.splits if_splits)
    have clean: "applied_by run mig v v'"
      if n: "?v \<notin> versions v" and c: "dirty_cap ?d = None"
        and e: "effs run (opt_list pm @ map SqlText ?qs @ [rq]) v = Some v'" for v'
      using row [OF n] c e by (simp add: pm_def rq_def opt_list_def)
    show ?thesis
      using out fin v(3) dirty clean
      by (cases "dirty_cap ?d = None") (auto simp: raw_outcome_def Let_def split: bool.splits)
  qed
qed

section \<open>Up\<close>

definition selected :: "int \<Rightarrow> int \<Rightarrow> migration list \<Rightarrow> migration list" where
  "selected limit target migs =
     (let ms = filter (\<lambda>m. target \<le> 0 \<or> m_version m \<le> target) migs
      in if 0 < limit then take (nat limit) ms else ms)"

definition up_scripts :: "migration list \<Rightarrow> string list" where
  "up_scripts migs = concat (map (\<lambda>m. statements (m_up m)) migs)"

definition applied_all ::
  "(string \<Rightarrow> 'd \<Rightarrow> 'd option) \<Rightarrow> migration list \<Rightarrow> 'd database \<Rightarrow> 'd database \<Rightarrow> bool" where
  "applied_all run migs v v' \<longleftrightarrow>
     run_texts run (up_scripts migs) (content v) = Some (content v') \<and>
     map (\<lambda>(n, r). (n, r_name r, r_checksum r)) (hist v') =
       rev (map (\<lambda>m. (m_version m, m_name m, m_checksum m)) migs) @
       map (\<lambda>(n, r). (n, r_name r, r_checksum r)) (hist v) \<and>
     dirt v' = []"

lemma applied_all_Nil: "dirt v = [] \<Longrightarrow> applied_all run [] v v"
  by (simp add: applied_all_def up_scripts_def)

lemma applied_all_Cons:
  "applied_by run m v v1 \<Longrightarrow> applied_all run ms v1 v2 \<Longrightarrow> applied_all run (m # ms) v v2"
  by (auto simp: applied_all_def applied_by_def up_scripts_def run_texts_append)

lemma applied_by_versions: "applied_by run m v v1 \<Longrightarrow> versions v1 = insert (m_version m) (versions v)"
  by (auto simp: applied_by_def)

lemma selected_skip:
  "0 < target \<and> target < m_version m \<Longrightarrow> selected limit target (m # ms) = selected limit target ms"
  by (auto simp: selected_def Let_def)

lemma selected_take:
  "\<not> (0 < target \<and> target < m_version m) \<Longrightarrow> limit \<noteq> 1 \<Longrightarrow>
    selected limit target (m # ms) = m # selected (if 0 < limit then limit - 1 else limit) target ms"
proof -
  assume a: "\<not> (0 < target \<and> target < m_version m)" "limit \<noteq> 1"
  have "nat limit = Suc (nat (limit - 1))" if "0 < limit" using that by simp
  then show ?thesis using a by (auto simp: selected_def Let_def)
qed

lemma selected_one:
  "\<not> (0 < target \<and> target < m_version m) \<Longrightarrow> selected 1 target (m # ms) = [m]"
  by (auto simp: selected_def Let_def)

definition rest_selected :: "int \<Rightarrow> int \<Rightarrow> int \<Rightarrow> migration list \<Rightarrow> migration list" where
  \<comment> \<open>what the loop still applies after \<open>n\<close> applications\<close>
  "rest_selected limit target n ms = (if 0 < limit \<and> n = limit then [] else selected (if 0 < limit then limit - n else 0) target ms)"

lemma apply_pendingD:
  assumes ok: "dialect_ok E (m_dialect m) run S view" and ins: "\<And>v n c t. S (SqlInsert v n c t)"
    and "view (sess s) = (v, None)" "dirt v = []" "0 \<le> n" "0 < limit \<longrightarrow> n \<le> limit"
    and "\<forall>mig \<in> set migs. script_ok S (m_up mig) \<and> 0 \<le> m_version mig \<and> m_version mig \<notin> versions v"
    and "distinct (map m_version migs)"
    and "apply_pending E m limit target n migs s = (Inr (), s')"
  shows "\<exists>v'. view (sess s') = (v', None) \<and> applied_all run (rest_selected limit target n migs) v v'"
  using assms(3-)
proof (induction migs arbitrary: s v n)
  case Nil
  then show ?case using applied_all_Nil [of v run] by (auto simp: rest_selected_def selected_def Let_def)
next
  case (Cons mig migs)
  consider "0 < target \<and> target < m_version mig" | "\<not> (0 < target \<and> target < m_version mig)" "0 < limit \<and> n = limit"
    | "\<not> (0 < target \<and> target < m_version mig)" "\<not> (0 < limit \<and> n = limit)" by blast
  then show ?case
  proof cases
    case 1
    then have r: "apply_pending E m limit target n migs s = (Inr (), s')" using Cons.prems(7) by simp
    have "rest_selected limit target n (mig # migs) = rest_selected limit target n migs"
      using selected_skip [OF 1] by (simp add: rest_selected_def)
    then show ?thesis using Cons.IH [OF Cons.prems(1-4) _ _ r] Cons.prems(5,6) by simp
  next
    case 2
    then show ?thesis using Cons.prems applied_all_Nil [of v run] by (auto simp: rest_selected_def)
  next
    case 3
    obtain s1 where a: "apply_up E m mig s = (Inr (), s1)"
        "apply_pending E m limit target (n + 1) migs s1 = (Inr (), s')"
      using 3 Cons.prems(7) by (auto split: sum.splits prod.splits)
    obtain v1 where v1: "view (sess s1) = (v1, None)" "applied_by run mig v v1"
      using apply_upD [OF ok ins _ Cons.prems(1,2) _ a(1)] Cons.prems(5) by auto
    have "\<forall>mg \<in> set migs. script_ok S (m_up mg) \<and> 0 \<le> m_version mg \<and> m_version mg \<notin> versions v1"
      using Cons.prems(5,6) applied_by_versions [OF v1(2)] by (auto simp del: image_eqI) (metis imageI)
    moreover have "dirt v1 = []" using v1(2) by (simp add: applied_by_def)
    ultimately obtain v2 where v2: "view (sess s') = (v2, None)"
        "applied_all run (rest_selected limit target (n + 1) migs) v1 v2"
      using Cons.IH [OF v1(1) _ _ _ _ _ a(2)] Cons.prems(3,4,6) 3 by auto
    have "rest_selected limit target n (mig # migs) = mig # rest_selected limit target (n + 1) migs"
    proof (cases "0 < limit")
      case False
      then show ?thesis using 3 by (simp add: rest_selected_def selected_take)
    next
      case True
      show ?thesis
      proof (cases "n + 1 = limit")
        case True
        then show ?thesis using 3 \<open>0 < limit\<close> by (auto simp: rest_selected_def selected_one)
      next
        case False
        have "selected (limit - n) target (mig # migs) = mig # selected (limit - n - 1) target migs"
          using 3 False True Cons.prems(4) by (subst selected_take) auto
        then show ?thesis using 3 True False by (simp add: rest_selected_def algebra_simps)
      qed
    qed
    then show ?thesis using v2 applied_all_Cons [OF v1(2)] by auto
  qed
qed

lemma and_thenD:
  "and_then a f s = (Inr x, s') \<Longrightarrow> \<exists>y s1. a s = (Inr y, s1) \<and> f y s1 = (Inr x, s')"
  by (auto simp: and_then_def split: prod.splits sum.splits)

lemma fold_update_map_of:
  "distinct (map fst rows) \<Longrightarrow> fst ` set rows \<inter> fst ` set m = {} \<Longrightarrow>
    map_of (fold (\<lambda>(v, r). AList.update v r) rows m) = map_of m ++ map_of rows"
proof (induction rows arbitrary: m)
  case (Cons p rows)
  obtain k x where p: "p = (k, x)" by fastforce
  have "fst ` set rows \<inter> fst ` set (AList.update k x m) = {}"
    using Cons.prems p by (auto simp: dom_update image_iff)
  then have "map_of (fold (\<lambda>(v, r). AList.update v r) rows (AList.update k x m)) =
      map_of (AList.update k x m) ++ map_of rows"
    using Cons by (simp add: p)
  moreover have "map_of rows k = None" using Cons.prems(1) p by (simp add: map_of_eq_None_iff)
  ultimately show ?case
    by (simp add: p update_conv' fun_eq_iff map_add_def split: option.splits)
qed simp

lemma applied_rowsD:
  assumes "reads_ok E view" "applied_rows E s = (Inr applied, s')"
  shows "view (sess s') = view (sess s) \<and> map_of applied = map_of (hist (fst (view (sess s))))"
proof -
  obtain rows where r: "call (e_rows E) s = (Some rows, s')"
      "applied = fold (\<lambda>(v, r). AList.update v r) rows []"
    using assms(2) by (auto simp: applied_rows_def split: prod.splits option.splits)
  have e: "e_rows E (sess s) = (Some rows, sess s')" using callD [OF r(1)] by simp
  have "view (snd (e_rows E (sess s))) = view (sess s)"
    "map_of rows = map_of (hist (fst (view (sess s)))) \<and> distinct (map fst rows)"
    using assms(1) [unfolded reads_ok_def, THEN spec, of "sess s"] e by auto
  then show ?thesis using fold_update_map_of [of rows "[]"] r(2) e by simp
qed

lemma lockedD:
  assumes ok: "dialect_ok E (m_dialect m) run S view" and l: "locked E m fn s = (r, s')"
  obtains "view (sess s') = view (sess s)" "\<not> is_ok r" "snd (view (sess s)) = None" "logs s' = logs s"
  | "snd (view (sess s)) \<noteq> None"
  | s1 s2 where "view (sess s1) = view (sess s)" "logs s1 = logs s" "fn s1 = (r, s2)"
      "snd (view (sess s2)) = None \<Longrightarrow> view (sess s') = view (sess s2)"
proof -
  note o = ok [unfolded dialect_ok_def]
  have close: "snd (view x) = None \<Longrightarrow> view (e_close E x) = view x" for x
    using o unfolding reads_ok_def by blast
  obtain c s1 where c: "call (e_conn E) s = (c, s1)" by fastforce
  have v1: "view (sess s1) = view (sess s)" "logs s1 = logs s"
    using o callD [OF c] unfolding reads_ok_def by (metis snd_conv)+
  show ?thesis
  proof (cases "c \<and> snd (view (sess s)) = None")
    case False
    then show ?thesis using that(1,2) l c v1
      by (cases "snd (view (sess s)) = None") (auto simp: locked_def)
  next
    case True
    obtain le s2 where lk: "call (lock (m_dialect m) (m_lock_wait m)) s1 = (le, s2)" by fastforce
    have v2: "view (sess s2) = view (sess s)" "logs s2 = logs s"
      using o callD [OF lk] v1 by (metis snd_conv)+
    show ?thesis
    proof (cases le)
      case (Some e)
      then show ?thesis using that(1) l c lk True v2 close by (auto simp: locked_def)
    next
      case None
      obtain r3 s3 where f: "fn s2 = (r3, s3)" by fastforce
      obtain u s4 where un: "call (unlock (m_dialect m) Uncancelled) s3 = (u, s4)" by fastforce
      have v4: "view (sess s4) = view (sess s3)" using o callD [OF un] by (metis snd_conv)
      have "r = r3" "sess s' = e_close E (sess s4)"
        using l c lk True None f un by (auto simp: locked_def log_line_def split: bool.splits)
      then show ?thesis using that(3) [OF v2, of s3] f v4 close by simp
    qed
  qed
qed

lemma guardD: "guard e s = (Inr x, s') \<longleftrightarrow> e = None \<and> s' = s"
  by (auto simp: guard_def split: option.splits)

lemma check_dirtyD:
  assumes ok: "dialect_ok E (m_dialect m) run S view" and c: "check_dirty m s = (r, s')"
  shows "view (sess s') = view (sess s)" "logs s' = logs s"
    "r = Inr () \<Longrightarrow> dirty_cap (m_dialect m) \<noteq> None \<Longrightarrow> dirt (fst (view (sess s))) = []"
proof -
  note o = ok [unfolded dialect_ok_def]
  have "view (sess s') = view (sess s) \<and> logs s' = logs s \<and>
    (r = Inr () \<longrightarrow> dirty_cap (m_dialect m) \<noteq> None \<longrightarrow> dirt (fst (view (sess s))) = [])"
  proof (cases "dirty_cap (m_dialect m)")
    case None
    then show ?thesis using c by (auto simp: check_dirty_def dirty_set_def and_then_def)
  next
    case (Some dd)
    then have dd: "dirty_versions dd = e_dirty E" using o by (simp add: mysql_dirty_def)
    obtain q s1 where q: "call (e_dirty E) s = (q, s1)" by fastforce
    have e: "e_dirty E (sess s) = (q, sess s1)" "logs s1 = logs s" using callD [OF q] by auto
    have law: "view (snd (e_dirty E (sess s))) = view (sess s)"
      "case fst (e_dirty E (sess s)) of None \<Rightarrow> True | Some vs \<Rightarrow> set vs = set (dirt (fst (view (sess s))))"
      using o unfolding reads_ok_def by blast+
    show ?thesis
    proof (cases q)
      case None
      then show ?thesis using c Some dd q e law by (auto simp: check_dirty_def dirty_set_def and_then_def)
    next
      case vs: (Some vs)
      then have "set vs = set (dirt (fst (view (sess s))))" using law(2) e by simp
      then have "vs = [] \<longleftrightarrow> dirt (fst (view (sess s))) = []" by (metis set_empty)
      then show ?thesis using c Some dd q e law(1) vs
        by (auto simp: check_dirty_def dirty_set_def and_then_def)
    qed
  qed
  then show "view (sess s') = view (sess s)" "logs s' = logs s"
    "r = Inr () \<Longrightarrow> dirty_cap (m_dialect m) \<noteq> None \<Longrightarrow> dirt (fst (view (sess s))) = []" by auto
qed

lemma fold_update_by_version:
  "distinct (map m_version ms) \<Longrightarrow> map_of (fold (\<lambda>m. AList.update (m_version m) m) ms b) =
    map_of b ++ map_of (map (\<lambda>m. (m_version m, m)) ms)"
proof (induction ms arbitrary: b)
  case (Cons m ms)
  have "map_of (map (\<lambda>m. (m_version m, m)) ms) (m_version m) = None"
    using Cons.prems by (auto simp: map_of_eq_None_iff)
  then show ?case using Cons by (simp add: update_conv' fun_eq_iff map_add_def split: option.splits)
qed simp

lemma map_of_by_version:
  "distinct (map m_version ms) \<Longrightarrow>
    map_of (by_version ms) n = Some m \<longleftrightarrow> m \<in> set ms \<and> m_version m = n"
proof -
  assume d: "distinct (map m_version ms)"
  then have "distinct (map fst (map (\<lambda>m. (m_version m, m)) ms))" by (simp add: comp_def)
  from map_of_eq_Some_iff [OF this] have
    "map_of (map (\<lambda>m. (m_version m, m)) ms) n = Some m \<longleftrightarrow> (n, m) \<in> set (map (\<lambda>m. (m_version m, m)) ms)" .
  then show ?thesis
    using fold_update_by_version [OF d, of "[]"] by (auto simp: by_version_def)
qed

lemma verify_checksums_None:
  "verify_checksums ms applied = None \<longleftrightarrow>
    (\<forall>(n, row) \<in> set applied. case map_of (by_version ms) n of None \<Rightarrow> True | Some m \<Rightarrow> m_checksum m = r_checksum row)"
  by (induction ms applied rule: verify_checksums.induct) (auto split: option.splits)

lemma find_orphan_None:
  "find_orphan ms applied = None \<longleftrightarrow> (\<forall>(n, row) \<in> set applied. map_of (by_version ms) n \<noteq> None)"
  by (induction ms applied rule: find_orphan.induct) (auto split: option.splits)

definition matches_files :: "migration list \<Rightarrow> history \<Rightarrow> bool" where
  \<comment> \<open>every applied row has its file, unchanged\<close>
  "matches_files ms h \<longleftrightarrow>
     (\<forall>n row. map_of h n = Some row \<longrightarrow>
        (\<exists>m \<in> set ms. m_version m = n \<and> m_checksum m = r_checksum row))"

lemma verify_None:
  assumes "distinct (map m_version ms)" "distinct (map fst applied)"
  shows "verify ms applied = None \<longleftrightarrow> matches_files ms applied"
proof -
  have "verify ms applied = None \<longleftrightarrow> verify_checksums ms applied = None \<and> find_orphan ms applied = None"
    by (simp add: verify_def split: option.splits)
  also have "\<dots> \<longleftrightarrow>
    (\<forall>(n, row) \<in> set applied. \<exists>m. map_of (by_version ms) n = Some m \<and> m_checksum m = r_checksum row)"
    unfolding verify_checksums_None find_orphan_None by (fastforce split: option.splits)
  also have "\<dots> \<longleftrightarrow> matches_files ms applied"
    using map_of_eq_Some_iff [OF assms(2)] map_of_by_version [OF assms(1)]
    by (auto simp: matches_files_def) blast+
  finally show ?thesis .
qed

lemma applied_rows_distinct: "applied_rows E s = (Inr applied, s') \<Longrightarrow> distinct (map fst applied)"
proof -
  have "distinct (map fst m) \<Longrightarrow> distinct (map fst (fold (\<lambda>(v, r). AList.update v r) rows m))" for rows m
    by (induction rows arbitrary: m) (auto simp: distinct_update)
  from this [of "[]"] show "applied_rows E s = (Inr applied, s') \<Longrightarrow> distinct (map fst applied)"
    by (auto simp: applied_rows_def split: prod.splits option.splits)
qed

lemma pending_cong: "map_of a = map_of b \<Longrightarrow> pending m a = pending m b"
  by (simp add: pending_def)

lemma matches_files_cong: "map_of a = map_of b \<Longrightarrow> matches_files ms a = matches_files ms b"
  by (simp add: matches_files_def)

text \<open>C15: What a successful \<^verbatim>\<open>Up\<close> did. On either dialect, when \<^verbatim>\<open>Up\<close>, \<^verbatim>\<open>UpByOne\<close> or \<^verbatim>\<open>UpTo\<close> returns
  nil, every row of the history had its unchanged file and nothing was dirty; the selected
  pending migrations (those up to the target, at most the limit) have all been applied, in
  version order: their statements, in sequence, turned the content into what it is now, and
  their rows with name and checksum stand in front of the old history, nothing dirty.\<close>

theorem up_applies_pending:
  assumes ok: "dialect_ok E (m_dialect m) run S view" and ins: "\<And>v n c t. S (SqlInsert v n c t)"
    and m: "distinct (map m_version (m_migrations m))"
      "\<forall>mig \<in> set (m_migrations m). script_ok S (m_up mig) \<and> 0 < m_version mig"
    and v: "view (sess s) = (v, None)" "dirty_cap (m_dialect m) = None \<longrightarrow> dirt v = []" "0 \<le> limit"
    and u: "up E m limit target s = (Inr (), s')"
  shows "\<exists>v'. view (sess s') = (v', None) \<and> matches_files (m_migrations m) (hist v) \<and> dirt v = [] \<and>
    applied_all run (selected limit target (pending m (hist v))) v v'"
proof -
  have rd: "reads_ok E view" using ok by (simp add: dialect_ok_def)
  from ok u [unfolded up_def] show ?thesis
  proof (rule lockedD)
    fix s1 s2
    assume 1: "view (sess s1) = view (sess s)" "up_body E m limit target s1 = (Inr (), s2)"
      "snd (view (sess s2)) = None \<Longrightarrow> view (sess s') = view (sess s2)"
    obtain applied s3 where a: "applied_rows E s1 = (Inr applied, s3)"
        "and_then (guard (verify (m_migrations m) applied)) (\<lambda>_. and_then (check_dirty m) (\<lambda>_ s.
           if out_of_order m applied \<noteq> [] \<and> \<not> m_allow_ooo m
           then (Inl (MOutOfOrder (version_list (out_of_order m applied))), s)
           else apply_pending E m limit target 0 (pending m applied) s)) s3 = (Inr (), s2)"
      using and_thenD [OF 1(2) [unfolded up_body_def]] by blast
    obtain s4 where b: "verify (m_migrations m) applied = None" "check_dirty m s3 = (Inr (), s4)"
        "apply_pending E m limit target 0 (pending m applied) s4 = (Inr (), s2)"
      using and_thenD [OF a(2)] by (auto simp: guardD dest!: and_thenD split: if_splits)
    have v3: "view (sess s3) = (v, None)" and mp: "map_of applied = map_of (hist v)"
      using applied_rowsD [OF rd a(1)] 1(1) v(1) by simp_all
    note cd = check_dirtyD [OF ok b(2)]
    have v4: "view (sess s4) = (v, None)" using cd(1) v3 by simp
    have d: "dirt v = []" using cd(3) v3 v(2) by auto
    have mf: "matches_files (m_migrations m) (hist v)"
      using verify_None [OF m(1) applied_rows_distinct [OF a(1)]] b(1) matches_files_cong [OF mp] by blast
    have pm: "pending m applied = pending m (hist v)" using mp by (rule pending_cong)
    have "\<forall>mig \<in> set (pending m (hist v)). script_ok S (m_up mig) \<and> 0 \<le> m_version mig \<and> m_version mig \<notin> versions v"
      using m(2) by (force simp: pending_def map_of_eq_None_iff)
    moreover have "distinct (map m_version (pending m (hist v)))"
      using m(1) by (simp add: pending_def distinct_map_filter)
    ultimately obtain v' where "view (sess s2) = (v', None)"
        "applied_all run (rest_selected limit target 0 (pending m (hist v))) v v'"
      using apply_pendingD [OF ok ins v4 d _ _ _ _ b(3) [unfolded pm]] v(3) by auto
    moreover have "rest_selected limit target 0 ms = selected limit target ms" for ms
      using v(3) by (auto simp: rest_selected_def selected_def Let_def)
    ultimately show ?thesis using 1(3) mf d by auto
  qed (use v(1) in auto)
qed

definition demo_mig :: migration where
  \<comment> \<open>a migration the concrete instances apply\<close>
  "demo_mig = \<lparr>m_version = 7, m_name = ''n'', m_checksum = ''c'',
     m_up = \<lparr>statements = [''a''], no_tx = False\<rparr>,
     m_down = Some \<lparr>statements = [''z''], no_tx = False\<rparr>\<rparr>"

definition demo_migrator :: "mem migrator" where
  "demo_migrator = \<lparr>m_dialect = sqlite_dialect (\<lambda>_. ''t'') mem_engine, m_migrations = [demo_mig],
     m_table = default_table, m_allow_ooo = False, m_lock_wait = default_lock_timeout\<rparr>"

lemma demo_ok: "dialect_ok mem_engine (m_dialect demo_migrator) mem_run (\<lambda>q. \<not> is_control q) mem_view"
  unfolding demo_migrator_def using sqlite_dialect_ok [OF mem_reads_ok mem_exec_ok mem_control_ok] by simp

lemmas up_eval =
  up_def locked_def up_body_def and_then_def applied_rows_def guard_def verify_def check_dirty_def
  dirty_set_def out_of_order_def pending_def max_version_def apply_up_def sqlite_lock_def log_line_def log_timed_def
  demo_migrator_def demo_mig_def by_version_def

lemma up_applies_pending_witness:
  "\<exists>s'. up mem_engine demo_migrator 0 0 (mem_start False) = (Inr (), s') \<and>
     applied_all mem_run [demo_mig] \<lparr>hist = [], dirt = [], content = []\<rparr> (mem_db (sess s'))"
proof -
  obtain r s' where u: "up mem_engine demo_migrator 0 0 (mem_start False) = (r, s')" by fastforce
  then have r: "r = Inr ()" by (auto simp: up_eval mem_eval)
  have "selected 0 0 (pending demo_migrator []) = [demo_mig]"
    by (simp add: selected_def pending_def demo_migrator_def)
  then show ?thesis
    using up_applies_pending [OF demo_ok _ _ _ _ _ _ u [unfolded r], of "\<lparr>hist = [], dirt = [], content = []\<rparr>"] u r
    by (auto simp: demo_migrator_def demo_mig_def script_ok_def mem_start_def mem_view_def)
qed

section \<open>Down\<close>

definition rolled_by ::
  "(string \<Rightarrow> 'd \<Rightarrow> 'd option) \<Rightarrow> migration \<Rightarrow> 'd database \<Rightarrow> 'd database \<Rightarrow> bool" where
  "rolled_by run mig v v' \<longleftrightarrow>
     (case m_down mig of
        None \<Rightarrow> False
      | Some sc \<Rightarrow> run_texts run (statements sc) (content v) = Some (content v')) \<and>
     hist v' = AList.delete (m_version mig) (hist v) \<and> dirt v' = []"

lemma rollbackD:
  assumes ok: "dialect_ok E (m_dialect m) run S view"
    and S: "\<And>v. S (SqlDelete v)" "\<And>sc. m_down mig = Some sc \<Longrightarrow> script_ok S sc"
    and v: "view (sess s) = (v, None)" "dirt v = []" "m_version mig \<in> versions v"
    and r: "rollback E m mig s = (Inr (), s')"
  shows "\<exists>v'. view (sess s') = (v', None) \<and> rolled_by run mig v v'"
proof -
  let ?d = "m_dialect m" and ?v = "m_version mig"
  note o = ok [unfolded dialect_ok_def]
  obtain sc where sc: "m_down mig = Some sc" using r by (auto simp: rollback_def Let_def split: option.splits)
  have rd: "reads_ok E view" using o by simp
  define host where "host = (case e_hostname E of None \<Rightarrow> [] | Some h \<Rightarrow> h)"
  let ?qs = "statements sc" and ?l = "log_line (LogRollbackStart ?v (m_name mig) host (os_user E)) s"
  obtain t s0 where now: "call (e_now E) ?l = (t, s0)" by fastforce
  have "sess ?l = sess s" by (simp add: log_line_def)
  then have v0: "view (sess s0) = (v, None)"
    using rd v(1) callD [OF now] unfolding reads_ok_def by (metis snd_conv)
  have row: "rolled_by run mig v v'"
    if e: "effs run (map SqlText ?qs @ [SqlDelete ?v]) v = Some v'" for v'
    using e v(2) sc by (auto simp: rolled_by_def effs_append effs_texts split: option.splits)
  show ?thesis
  proof (cases "no_tx sc")
    case False
    obtain res s1 where x: "exec_tx ?d ?v True ?qs (SqlDelete ?v) s0 = (res, s1)" by fastforce
    have "tx_outcome run ?v True (map SqlText ?qs @ [SqlDelete ?v]) v res (view (sess s1))"
      using exec_tx_atomic [where view = view and S = S and run = run, OF _ _ S(1) v0 x] o S(2) [OF sc] False
      by (simp add: script_ok_def)
    moreover have "(\<exists>b. res = Inr b) \<and> view (sess s') = view (sess s1)"
      using r x now False sc by (auto simp: rollback_def Let_def host_def log_timed_view [OF rd] split: sum.splits)
    ultimately show ?thesis using row v(3) by (auto simp: tx_outcome_def split: bool.splits)
  next
    case True
    define pm where "pm = map_option (\<lambda>_. SqlSetDirty True ?v) (dirty_cap ?d)"
    have pmE: "(case dirty_cap ?d of None \<Rightarrow> None | Some dd \<Rightarrow> Some (set_dirty dd ?v True)) = map_option (e_exec E Ctx) pm"
      using o by (auto simp: pm_def mysql_dirty_def)
    obtain res s1 where x: "exec_raw E (-1) ?qs (map_option (e_exec E Ctx) pm) (e_exec E Ctx (SqlDelete ?v)) s0 = (res, s1)"
      by fastforce
    have out: "raw_outcome run (-1) pm ?qs (SqlDelete ?v) v res (view (sess s1))"
      using exec_raw_outcome [where view = view and run = run, OF _ _ v0 _ _ x] o by (auto simp: pm_def)
    have fin: "(\<exists>b. res = Inr b) \<and> view (sess s') = view (sess s1)"
      using r x now True sc pmE by (auto simp: rollback_def Let_def host_def log_timed_view [OF rd] split: sum.splits)
    have "rolled_by run mig v v'"
      if e: "effs run (opt_list pm @ map SqlText ?qs @ [SqlDelete ?v]) v = Some v'" for v'
    proof (cases "dirty_cap ?d")
      case None
      then show ?thesis using e row by (simp add: pm_def opt_list_def)
    next
      case (Some dd)
      then have "effs run (map SqlText ?qs @ [SqlDelete ?v]) (v\<lparr>dirt := [?v]\<rparr>) = Some v'"
        using e v(2,3) by (simp add: pm_def opt_list_def)
      then show ?thesis using sc by (auto simp: rolled_by_def effs_append effs_texts split: option.splits)
    qed
    then show ?thesis
      using out fin by (auto simp: raw_outcome_def Let_def split: bool.splits)
  qed
qed

definition rolled_back :: "int \<Rightarrow> history \<Rightarrow> migration list \<Rightarrow> migration list" where
  \<comment> \<open>the applied migrations a rollback to \<open>target\<close> undoes; the list runs backwards\<close>
  "rolled_back target applied migs =
     (let ms = filter (\<lambda>m. map_of applied (m_version m) \<noteq> None) migs
      in if target < 0 then take 1 ms else takeWhile (\<lambda>m. target < m_version m) ms)"

definition down_scripts :: "migration list \<Rightarrow> string list" where
  "down_scripts migs = concat (map (\<lambda>m. case m_down m of None \<Rightarrow> [] | Some sc \<Rightarrow> statements sc) migs)"

definition rolled_all ::
  "(string \<Rightarrow> 'd \<Rightarrow> 'd option) \<Rightarrow> migration list \<Rightarrow> 'd database \<Rightarrow> 'd database \<Rightarrow> bool" where
  "rolled_all run migs v v' \<longleftrightarrow>
     list_all (\<lambda>m. m_down m \<noteq> None) migs \<and>
     run_texts run (down_scripts migs) (content v) = Some (content v') \<and>
     hist v' = filter (\<lambda>(n, _). n \<notin> m_version ` set migs) (hist v) \<and> dirt v' = []"

lemma delete_filter: "AList.delete k xs = filter (\<lambda>(n, _). n \<noteq> k) xs"
  by (induction xs) auto

lemma rolled_by_versions: "rolled_by run m v v1 \<Longrightarrow> versions v1 = versions v - {m_version m}"
  by (force simp: rolled_by_def delete_filter)

lemma rolled_all_Cons:
  "rolled_by run m v v1 \<Longrightarrow> rolled_all run ms v1 v2 \<Longrightarrow> rolled_all run (m # ms) v v2"
proof -
  assume a: "rolled_by run m v v1" "rolled_all run ms v1 v2"
  have "filter (\<lambda>(n, _). n \<notin> m_version ` set ms) (filter (\<lambda>(n, _). n \<noteq> m_version m) h) =
      filter (\<lambda>(n, _). n \<notin> m_version ` set (m # ms)) h" for h :: history
    by (induction h) auto
  then show ?thesis
    using a by (auto simp: rolled_all_def rolled_by_def down_scripts_def run_texts_append delete_filter
        split: option.splits)
qed

lemma rollback_appliedD:
  assumes ok: "dialect_ok E (m_dialect m) run S view" and del: "\<And>v. S (SqlDelete v)"
    and "view (sess s) = (v, None)" "dirt v = []" "distinct (map m_version migs)"
    and "\<forall>mig \<in> set migs. (\<forall>sc. m_down mig = Some sc \<longrightarrow> script_ok S sc) \<and>
      (map_of applied (m_version mig) \<noteq> None \<longrightarrow> m_version mig \<in> versions v)"
    and "rollback_applied E m target applied migs s = (Inr (), s')"
  shows "\<exists>v'. view (sess s') = (v', None) \<and> rolled_all run (rolled_back target applied migs) v v'"
  using assms(3-)
proof (induction migs arbitrary: s v)
  case Nil
  then show ?case by (auto simp: rolled_back_def Let_def rolled_all_def down_scripts_def)
next
  case (Cons mig migs)
  have none: "rolled_all run [] v v" using Cons.prems(2)
    by (simp add: rolled_all_def down_scripts_def case_prod_unfold)
  consider "map_of applied (m_version mig) = None"
    | "map_of applied (m_version mig) \<noteq> None" "0 \<le> target \<and> m_version mig \<le> target"
    | "map_of applied (m_version mig) \<noteq> None" "\<not> (0 \<le> target \<and> m_version mig \<le> target)" by blast
  then show ?case
  proof cases
    case 1
    then show ?thesis using Cons.IH [of s v] Cons.prems by (simp add: rolled_back_def)
  next
    case 2
    then show ?thesis using Cons.prems none by (auto simp: rolled_back_def Let_def)
  next
    case 3
    obtain s1 where a: "rollback E m mig s = (Inr (), s1)"
        "(if target < 0 then (Inr (), s1) else rollback_applied E m target applied migs s1) = (Inr (), s')"
      using 3 Cons.prems(5) by (auto split: sum.splits prod.splits)
    have "m_version mig \<in> versions v" "\<And>sc. m_down mig = Some sc \<Longrightarrow> script_ok S sc"
      using Cons.prems(4) 3(1) by auto
    then obtain v1 where v1: "view (sess s1) = (v1, None)" "rolled_by run mig v v1"
      using rollbackD [OF ok del _ Cons.prems(1,2) _ a(1)] by blast
    show ?thesis
    proof (cases "target < 0")
      case True
      have "rolled_all run [] v1 v1" using v1(2) by (simp add: rolled_all_def down_scripts_def rolled_by_def case_prod_unfold)
      then show ?thesis using True a(2) v1 3 rolled_all_Cons [OF v1(2)]
        by (auto simp: rolled_back_def Let_def)
    next
      case False
      have "\<forall>mg \<in> set migs. (\<forall>sc. m_down mg = Some sc \<longrightarrow> script_ok S sc) \<and>
          (map_of applied (m_version mg) \<noteq> None \<longrightarrow> m_version mg \<in> versions v1)"
      proof
        fix mg assume mg: "mg \<in> set migs"
        moreover have "m_version mig \<notin> m_version ` set migs" using Cons.prems(3) by simp
        ultimately have "m_version mg \<noteq> m_version mig" by (metis imageI)
        then show "(\<forall>sc. m_down mg = Some sc \<longrightarrow> script_ok S sc) \<and>
          (map_of applied (m_version mg) \<noteq> None \<longrightarrow> m_version mg \<in> versions v1)"
          using mg Cons.prems(4) rolled_by_versions [OF v1(2)] by auto
      qed
      moreover have "dirt v1 = []" using v1(2) by (simp add: rolled_by_def)
      moreover have "rollback_applied E m target applied migs s1 = (Inr (), s')" using a(2) False by simp
      ultimately obtain v2 where "view (sess s') = (v2, None)"
          "rolled_all run (rolled_back target applied migs) v1 v2"
        using Cons.IH [OF v1(1)] Cons.prems(3) by auto
      moreover have "rolled_back target applied (mig # migs) = mig # rolled_back target applied migs"
        using 3 False by (auto simp: rolled_back_def Let_def)
      ultimately show ?thesis using rolled_all_Cons [OF v1(2)] by auto
    qed
  qed
qed

text \<open>C16: What a successful \<^verbatim>\<open>Down\<close> did. On either dialect, when \<^verbatim>\<open>Down\<close> or \<^verbatim>\<open>DownTo\<close> returns nil,
  the history matched the files, nothing was dirty and something was applied; the applied
  migrations above the target (for \<^verbatim>\<open>Down\<close>, the newest one) all have a down script, those scripts
  ran newest first, and exactly those rows have left the history.\<close>

theorem down_rolls_back:
  assumes ok: "dialect_ok E (m_dialect m) run S view" and del: "\<And>v. S (SqlDelete v)"
    and m: "distinct (map m_version (m_migrations m))"
      "\<forall>mig \<in> set (m_migrations m). \<forall>sc. m_down mig = Some sc \<longrightarrow> script_ok S sc"
    and v: "view (sess s) = (v, None)" "dirty_cap (m_dialect m) = None \<longrightarrow> dirt v = []"
    and u: "down E m target s = (Inr (), s')"
  shows "\<exists>v'. view (sess s') = (v', None) \<and> matches_files (m_migrations m) (hist v) \<and> dirt v = [] \<and>
    hist v \<noteq> [] \<and> rolled_all run (rolled_back target (hist v) (rev (m_migrations m))) v v'"
proof -
  have rd: "reads_ok E view" using ok by (simp add: dialect_ok_def)
  from ok u [unfolded down_def] show ?thesis
  proof (rule lockedD)
    fix s1 s2
    assume 1: "view (sess s1) = view (sess s)" "down_body E m target s1 = (Inr (), s2)"
      "snd (view (sess s2)) = None \<Longrightarrow> view (sess s') = view (sess s2)"
    obtain applied s3 where a: "applied_rows E s1 = (Inr applied, s3)"
        "and_then (guard (verify (m_migrations m) applied)) (\<lambda>_. and_then (check_dirty m) (\<lambda>_ s.
           if applied = [] then (Inl MNothingApplied, s)
           else rollback_applied E m target applied (rev (m_migrations m)) s)) s3 = (Inr (), s2)"
      using and_thenD [OF 1(2) [unfolded down_body_def]] by blast
    obtain s4 where b: "verify (m_migrations m) applied = None" "check_dirty m s3 = (Inr (), s4)"
        "applied \<noteq> []" "rollback_applied E m target applied (rev (m_migrations m)) s4 = (Inr (), s2)"
      using and_thenD [OF a(2)] by (auto simp: guardD dest!: and_thenD split: if_splits)
    have v3: "view (sess s3) = (v, None)" and mp: "map_of applied = map_of (hist v)"
      using applied_rowsD [OF rd a(1)] 1(1) v(1) by simp_all
    note cd = check_dirtyD [OF ok b(2)]
    have v4: "view (sess s4) = (v, None)" using cd(1) v3 by simp
    have d: "dirt v = []" using cd(3) v3 v(2) by auto
    have mf: "matches_files (m_migrations m) (hist v)"
      using verify_None [OF m(1) applied_rows_distinct [OF a(1)]] b(1) matches_files_cong [OF mp] by blast
    have ne: "hist v \<noteq> []"
      using mp b(3) by (metis map_of_eq_empty_iff)
    have rb: "rolled_back target applied ms = rolled_back target (hist v) ms" for ms
      by (simp add: rolled_back_def mp)
    have "\<forall>mig \<in> set (rev (m_migrations m)). (\<forall>sc. m_down mig = Some sc \<longrightarrow> script_ok S sc) \<and>
        (map_of applied (m_version mig) \<noteq> None \<longrightarrow> m_version mig \<in> versions v)"
      using m(2) by (auto simp: mp map_of_eq_None_iff dest: map_of_SomeD)
    then show ?thesis
      using rollback_appliedD [OF ok del v4 d _ _ b(4)] m(1) 1(3) mf d ne by (auto simp: rb rev_map [symmetric])
  qed (use v(1) in auto)
qed

lemma down_rolls_back_witness:
  "\<exists>s'. down mem_engine demo_migrator 0 \<lparr>sess = \<lparr>mem_db = \<lparr>hist = [(7, \<lparr>r_name = ''n'', r_checksum = ''c'', r_applied_at = ''t''\<rparr>)],
      dirt = [], content = [''a'']\<rparr>, mem_saved = None, mem_fail = False\<rparr>, logs = []\<rparr> = (Inr (), s') \<and>
     mem_db (sess s') = \<lparr>hist = [], dirt = [], content = [''a'', ''z'']\<rparr>"
proof -
  let ?v = "\<lparr>hist = [(7, \<lparr>r_name = ''n'', r_checksum = ''c'', r_applied_at = ''t''\<rparr>)], dirt = [], content = [''a'']\<rparr>"
  let ?s = "\<lparr>sess = \<lparr>mem_db = ?v, mem_saved = None, mem_fail = False\<rparr>, logs = []\<rparr>"
  obtain r s' where u: "down mem_engine demo_migrator 0 ?s = (r, s')" by fastforce
  then have r: "r = Inr ()"
    by (auto simp: down_def down_body_def rollback_def up_eval mem_eval log_line_def Let_def)
  have "rolled_back 0 (hist ?v) (rev (m_migrations demo_migrator)) = [demo_mig]"
    by (simp add: rolled_back_def demo_migrator_def demo_mig_def)
  then show ?thesis
    using down_rolls_back [OF demo_ok _ _ _ _ _ u [unfolded r], of ?v] u r
    by (auto simp: demo_migrator_def demo_mig_def script_ok_def mem_view_def rolled_all_def down_scripts_def
        mem_run_def intro: database.equality)
qed

section \<open>Refusals\<close>

lemma Max_insert_max: "finite A \<Longrightarrow> Max (insert (max x y) A) = max y (Max (insert x A))"
  for x :: "'a :: linorder"
  by (cases "A = {}") (simp_all add: max.assoc max.left_commute max.commute)

lemma max_version_set: "max_version h = Max (insert 0 (fst ` set h))"
proof -
  have "fold (\<lambda>(v, _) mx. max mx v) h a = Max (insert a (fst ` set h))" for a
  proof (induction h arbitrary: a)
    case (Cons p h)
    then show ?case by (cases p) (simp add: Max_insert_max max.commute)
  qed simp
  then show ?thesis by (simp add: max_version_def)
qed

lemma max_version_cong: "map_of a = map_of b \<Longrightarrow> max_version a = max_version b"
  by (simp add: max_version_set flip: dom_map_of_conv_image_fst)

definition refuses :: "'s migrator \<Rightarrow> 'd database \<Rightarrow> bool" where
  \<comment> \<open>a history incident: a changed or missing file, or a dirty version\<close>
  "refuses m v \<longleftrightarrow>
     \<not> matches_files (m_migrations m) (hist v) \<or> (dirty_cap (m_dialect m) \<noteq> None \<and> dirt v \<noteq> [])"

lemma applied_rows_view:
  assumes "reads_ok E view" "applied_rows E s = (r, s')"
  shows "view (sess s') = view (sess s)"
proof -
  obtain q s1 where q: "call (e_rows E) s = (q, s1)" by fastforce
  have "view (snd (e_rows E (sess s))) = view (sess s)"
    using assms(1) unfolding reads_ok_def by blast
  then have "view (sess s1) = view (sess s)" using callD [OF q] by simp
  then show ?thesis using assms(2) q by (auto simp: applied_rows_def split: option.splits)
qed

lemma opening_checks:
  assumes ok: "dialect_ok E (m_dialect m) run S view" and d: "distinct (map m_version (m_migrations m))"
    and v: "view (sess s) = (v, None)"
    and b: "and_then (applied_rows E) (\<lambda>applied.
       and_then (guard (verify (m_migrations m) applied)) (\<lambda>_. and_then (check_dirty m) (\<lambda>_ s. f applied s))) s = (r, s')"
  shows "(\<not> is_ok r \<and> view (sess s') = (v, None)) \<or>
    (\<not> refuses m v \<and> (\<exists>applied s1. map_of applied = map_of (hist v) \<and> view (sess s1) = (v, None) \<and> f applied s1 = (r, s')))"
proof -
  have rd: "reads_ok E view" using ok by (simp add: dialect_ok_def)
  obtain q s1 where q: "applied_rows E s = (q, s1)" by fastforce
  have v1: "view (sess s1) = (v, None)" using applied_rows_view [OF rd q] v by simp
  show ?thesis
  proof (cases q)
    case (Inl e)
    then show ?thesis using b q v1 by (auto simp: and_then_def)
  next
    case (Inr applied)
    have mp: "map_of applied = map_of (hist v)"
      using applied_rowsD [OF rd q [unfolded Inr]] v by simp
    show ?thesis
    proof (cases "verify (m_migrations m) applied")
      case (Some e)
      then show ?thesis using b q Inr v1 by (auto simp: and_then_def guard_def)
    next
      case None
      then have mf: "matches_files (m_migrations m) (hist v)"
        using verify_None [OF d applied_rows_distinct [OF q [unfolded Inr]]] matches_files_cong [OF mp] by blast
      obtain c s2 where c: "check_dirty m s1 = (c, s2)" by fastforce
      have v2: "view (sess s2) = (v, None)" using check_dirtyD(1) [OF ok c] v1 by simp
      show ?thesis
      proof (cases c)
        case (Inl e)
        then show ?thesis using b q Inr None c v2 by (auto simp: and_then_def guard_def)
      next
        case cok: (Inr u)
        then have "dirty_cap (m_dialect m) \<noteq> None \<longrightarrow> dirt v = []"
          using check_dirtyD(3) [OF ok c] v1 by auto
        then have "\<not> refuses m v" using mf by (auto simp: refuses_def)
        moreover have "f applied s2 = (r, s')"
          using b q Inr None c cok by (simp add: and_then_def guard_def)
        ultimately show ?thesis using mp v2 by blast
      qed
    qed
  qed
qed

lemma locked_refuses:
  assumes "dialect_ok E (m_dialect m) run S view" "view (sess s) = (v, None)"
    and "locked E m fn s = (r, s')"
    and "\<And>s1 r s2. view (sess s1) = (v, None) \<Longrightarrow> fn s1 = (r, s2) \<Longrightarrow> \<not> is_ok r \<and> view (sess s2) = (v, None)"
  shows "\<not> is_ok r \<and> view (sess s') = (v, None)"
  using assms(1,3)
proof (rule lockedD)
  fix s1 s2 assume a: "view (sess s1) = view (sess s)" "fn s1 = (r, s2)"
    "snd (view (sess s2)) = None \<Longrightarrow> view (sess s') = view (sess s2)"
  have "\<not> is_ok r \<and> view (sess s2) = (v, None)" using assms(4) [OF _ a(2)] a(1) assms(2) by simp
  then show ?thesis using a(3) by simp
qed (use assms(2) in simp_all)

lemma out_of_order_cong: "map_of a = map_of b \<Longrightarrow> out_of_order m a = out_of_order m b"
  by (simp add: out_of_order_def pending_cong [of a b] max_version_cong [of a b])



section \<open>Several runners\<close>

fun apply_each :: "'s engine \<Rightarrow> 's migrator \<Rightarrow> migration list \<Rightarrow> 's mstate \<Rightarrow> (mig_error + unit) \<times> 's mstate" where
  \<comment> \<open>the applications of several runners, in the order they reach the database\<close>
  "apply_each E m [] s = (Inr (), s)"
| "apply_each E m (mig # migs) s = and_then (apply_up E m mig) (\<lambda>_. apply_each E m migs) s"

fun firsts :: "int set \<Rightarrow> migration list \<Rightarrow> migration list" where
  "firsts seen [] = []"
| "firsts seen (m # ms) =
     (if m_version m \<in> seen then firsts seen ms else m # firsts (insert (m_version m) seen) ms)"



section \<open>The dirty mark\<close>


lemma mem_control:
  "mem_exec c SqlBegin s = (True, s\<lparr>mem_saved := Some (mem_db s)\<rparr>)"
  "mem_exec c SqlCommit s = (if mem_fail s then (False, s) else (True, s\<lparr>mem_saved := None\<rparr>))"
  "mem_exec c SqlRollback s =
    (True, s\<lparr>mem_db := (case mem_saved s of None \<Rightarrow> mem_db s | Some v \<Rightarrow> v), mem_saved := None\<rparr>)"
  by (simp_all add: mem_exec_def)

lemma mem_mysql_ok: "mysql_tx_ok mem_engine mem_run (\<lambda>q. \<not> is_control q) mem_view"
proof -
  have "snd (mem_view (snd (mem_exec c q s))) = snd (mem_view s) \<and>
      (fst (mem_exec c q s) \<longrightarrow> sql_eff mem_run q (fst (mem_view s)) = Some (fst (mem_view (snd (mem_exec c q s)))))"
    if "\<not> is_control q" for c q s
    using mem_exec_ok [unfolded exec_ok_def, THEN spec, THEN spec, THEN spec, of q c s] that
    by (simp add: mem_engine_def split: if_splits)
  then show ?thesis
    by (auto simp: mysql_tx_ok_def after_commit_def mem_engine_def mem_control mem_view_def
        intro: rev_image_eqI split: option.splits)
qed


end
