(* ===== verification/MigratorAudit.thy ===== *)
theory MigratorAudit
  imports MigratorRun "HOL-Library.Sublist"
begin

text \<open>
  The audit lines of rollbacks, \<^verbatim>\<open>Migrator.rollback\<close> of \<^verbatim>\<open>src/cli/migrationx/migrationx.go\<close>: the database keeps no
  trace of a rollback, so the log is its record. No call of the driver writes to the log; the loop of \<^verbatim>\<open>down\<close>
  leaves two lines for every script it starts.
\<close>

section \<open>Calls leave the log alone\<close>

lemma call_logs: "call f s = (r, s') \<Longrightarrow> logs s' = logs s"
  by (simp add: callD)

lemma tx_statements_logs: "tx_statements tx qs s = (r, s') \<Longrightarrow> logs s' = logs s"
  by (induction tx qs s rule: tx_statements.induct) (auto dest: call_logs split: prod.splits bool.splits)

lemma raw_statements_logs: "raw_statements E qs s = (r, s') \<Longrightarrow> logs s' = logs s"
  by (induction E qs s rule: raw_statements.induct) (auto dest: call_logs split: prod.splits bool.splits)

lemma abort_tx_logs: "abort_tx tx x s = (r, s') \<Longrightarrow> logs s' = logs s"
  by (metis abort_tx_def call_logs prod.collapse snd_conv)

lemma exec_tx_logs: "exec_tx d v dn qs rcd s = (r, s') \<Longrightarrow> logs s' = logs s"
  by (auto simp: exec_tx_def split: prod.splits sum.splits option.splits bool.splits if_splits
      dest!: call_logs tx_statements_logs abort_tx_logs)

lemma exec_raw_logs: "exec_raw E v qs pm rcd s = (r, s') \<Longrightarrow> logs s' = logs s"
  unfolding exec_raw_def Let_def
  by (auto split: if_splits prod.splits option.splits bool.splits sum.splits dest!: call_logs raw_statements_logs)

section \<open>One rollback\<close>

definition host_name :: "'s engine \<Rightarrow> string" where
  "host_name E = (case e_hostname E of None \<Rightarrow> [] | Some h \<Rightarrow> h)"

definition audit :: "'s engine \<Rightarrow> migration \<times> int \<times> bool \<Rightarrow> log_event list" where
  \<comment> \<open>the two lines of a rollback that took \<open>ms\<close> milliseconds and ended \<open>ok\<close> or not\<close>
  "audit E = (\<lambda>(mig, ms, ok).
     [LogRollbackStart (m_version mig) (m_name mig) (host_name E) (os_user E),
      LogRollbackDone (m_version mig) (m_name mig) (host_name E) (os_user E) ms ok])"

lemma log_timed_logs: "\<exists>ms. logs (log_timed E start ev s) = logs s @ [ev ms]"
  by (cases "call (e_now E) s") (auto simp: log_timed_def log_line_def dest: call_logs)

lemma rollback_audit:
  assumes "rollback E m mig s = (r, s')"
  shows "(m_down mig = None \<and> \<not> is_ok r \<and> logs s' = logs s) \<or>
    (m_down mig \<noteq> None \<and> (\<exists>ms. logs s' = logs s @ audit E (mig, ms, is_ok r)))"
proof (cases "m_down mig")
  case None
  with assms show ?thesis by (auto simp: rollback_def Let_def)
next
  case (Some sc)
  let ?l = "log_line (LogRollbackStart (m_version mig) (m_name mig) (host_name E) (os_user E)) s"
  obtain t s0 where now: "call (e_now E) ?l = (t, s0)" by fastforce
  define run where "run = (if no_tx sc then
      exec_raw E (-1) (statements sc)
        (case dirty_cap (m_dialect m) of None \<Rightarrow> None | Some dd \<Rightarrow> Some (set_dirty dd (m_version mig) True))
        (e_exec E Ctx (SqlDelete (m_version mig))) s0
    else exec_tx (m_dialect m) (m_version mig) True (statements sc) (SqlDelete (m_version mig)) s0)"
  obtain x s1 where x: "run = (x, s1)" by (cases run)
  have "logs s1 = logs s0" using x by (auto simp: run_def split: if_splits dest: exec_raw_logs exec_tx_logs)
  then have l: "logs s1 = logs s @ [LogRollbackStart (m_version mig) (m_name mig) (host_name E) (os_user E)]"
    using call_logs [OF now] by (simp add: log_line_def)
  have "r = (case x of Inl e \<Rightarrow> Inl (MRollback (m_version mig) e) | Inr _ \<Rightarrow> Inr ()) \<and>
      s' = log_timed E t (\<lambda>ms. LogRollbackDone (m_version mig) (m_name mig) (host_name E) (os_user E) ms (is_ok x)) s1"
    using assms now x Some unfolding run_def host_name_def
    by (auto simp: rollback_def Let_def split: sum.splits)
  moreover from this have "is_ok r = is_ok x" by (simp add: is_ok_def split: sum.splits)
  ultimately show ?thesis
    using log_timed_logs [of E t "\<lambda>ms. LogRollbackDone (m_version mig) (m_name mig) (host_name E) (os_user E) ms (is_ok x)" s1]
      l Some by (auto simp: audit_def)
qed

section \<open>A whole Down\<close>

text \<open>
  The attempts of a run, in order: all that were started before the last one had succeeded; after a failure there are no
  more, and only a missing down script stops a run without a line.
\<close>

lemma rolled_back_Cons:
  "map_of applied (m_version mig) = None \<Longrightarrow> rolled_back target applied (mig # migs) = rolled_back target applied migs"
  "map_of applied (m_version mig) \<noteq> None \<Longrightarrow> 0 \<le> target \<Longrightarrow> m_version mig \<le> target \<Longrightarrow>
    rolled_back target applied (mig # migs) = []"
  "map_of applied (m_version mig) \<noteq> None \<Longrightarrow> 0 \<le> target \<Longrightarrow> target < m_version mig \<Longrightarrow>
    rolled_back target applied (mig # migs) = mig # rolled_back target applied migs"
  "map_of applied (m_version mig) \<noteq> None \<Longrightarrow> target < 0 \<Longrightarrow> rolled_back target applied (mig # migs) = [mig]"
  by (simp_all add: rolled_back_def Let_def)

lemma rollback_applied_audit:
  "rollback_applied E m target applied migs s = (r, s') \<Longrightarrow>
    \<exists>att. logs s' = logs s @ concat (map (audit E) att) \<and> prefix (map fst att) (rolled_back target applied migs) \<and>
      list_all (\<lambda>(mig, ms, ok). ok) (butlast att) \<and>
      (is_ok r \<longrightarrow> map fst att = rolled_back target applied migs \<and> list_all (\<lambda>(mig, ms, ok). ok) att)"
proof (induction migs arbitrary: s)
  case Nil
  then show ?case by (intro exI [of _ "[]"]) (auto simp: rolled_back_def)
next
  case (Cons mig migs)
  consider (not_applied) "map_of applied (m_version mig) = None"
    | (below) "map_of applied (m_version mig) \<noteq> None" "0 \<le> target" "m_version mig \<le> target"
    | (hit) "map_of applied (m_version mig) \<noteq> None" "\<not> (0 \<le> target \<and> m_version mig \<le> target)" by blast
  then show ?case
  proof cases
    case not_applied
    with Cons show ?thesis by (simp add: rolled_back_Cons)
  next
    case below
    with Cons.prems show ?thesis by (intro exI [of _ "[]"]) (auto simp: rolled_back_Cons)
  next
    case hit
    obtain r1 s1 where rb: "rollback E m mig s = (r1, s1)" by fastforce
    obtain todo where todo: "rolled_back target applied (mig # migs) = mig # todo"
        "todo = (if target < 0 then [] else rolled_back target applied migs)"
      using hit rolled_back_Cons(3,4) [of applied mig target migs] by (cases "target < 0") auto
    show ?thesis
    proof (cases "is_ok r1 \<and> 0 \<le> target")
      case True
      then obtain ms where l: "logs s1 = logs s @ audit E (mig, ms, True)" using rollback_audit [OF rb] by auto
      from True hit Cons.prems rb have "rollback_applied E m target applied migs s1 = (r, s')"
        by (auto simp: is_ok_def split: sum.splits)
      from Cons.IH [OF this] obtain att where att:
        "logs s' = logs s1 @ concat (map (audit E) att)" "prefix (map fst att) (rolled_back target applied migs)"
        "list_all (\<lambda>(mig, ms, ok). ok) (butlast att)"
        "is_ok r \<longrightarrow> map fst att = rolled_back target applied migs \<and> list_all (\<lambda>(mig, ms, ok). ok) att" by blast
      with l True todo show ?thesis by (intro exI [of _ "(mig, ms, True) # att"]) auto
    next
      case False
      then have "r = r1" "s' = s1" using hit Cons.prems rb by (auto simp: is_ok_def split: sum.splits)
      from rollback_audit [OF rb] show ?thesis
      proof
        assume "m_down mig = None \<and> \<not> is_ok r1 \<and> logs s1 = logs s"
        with \<open>r = r1\<close> \<open>s' = s1\<close> show ?thesis by (intro exI [of _ "[]"]) auto
      next
        assume "m_down mig \<noteq> None \<and> (\<exists>ms. logs s1 = logs s @ audit E (mig, ms, is_ok r1))"
        then obtain ms where "logs s1 = logs s @ audit E (mig, ms, is_ok r1)" by blast
        with \<open>r = r1\<close> \<open>s' = s1\<close> False todo show ?thesis by (intro exI [of _ "[(mig, ms, is_ok r1)]"]) auto
      qed
    qed
  qed
qed

lemma locked_logs:
  assumes ok: "dialect_ok E (m_dialect m) run S view" and v: "snd (view (sess s)) = None"
    and l: "locked E m fn s = (r, s')"
  obtains (refused) "\<not> is_ok r" "logs s' = logs s"
  | (ran) s1 s2 unlock where "view (sess s1) = view (sess s)" "logs s1 = logs s" "fn s1 = (r, s2)"
      "logs s' = logs s2 @ unlock" "set unlock \<subseteq> {LogUnlockFailed}"
proof -
  note o = ok [unfolded dialect_ok_def]
  obtain c s1 where c: "call (e_conn E) s = (c, s1)" by fastforce
  have v1: "view (sess s1) = view (sess s)" "logs s1 = logs s"
    using o callD [OF c] unfolding reads_ok_def by (metis snd_conv)+
  obtain le s2 where lk: "call (lock (m_dialect m) (m_lock_wait m)) s1 = (le, s2)" by fastforce
  have v2: "view (sess s2) = view (sess s)" "logs s2 = logs s"
    using o v callD [OF lk] v1 by (metis snd_conv)+
  obtain r3 s3 where f: "fn s2 = (r3, s3)" by fastforce
  obtain u s4 where un: "call (unlock (m_dialect m) Uncancelled) s3 = (u, s4)" by fastforce
  show ?thesis
  proof (cases "c \<and> le = None")
    case False
    with l c lk v1 v2 show ?thesis by (intro refused) (auto simp: locked_def split: bool.splits option.splits)
  next
    case True
    with l c lk f un have "r = r3" "logs s' = logs s3 @ (if u then [] else [LogUnlockFailed])"
      using call_logs [OF un] by (auto simp: locked_def log_line_def split: bool.splits)
    with f v2 show ?thesis by (intro ran [of s2 s3 "if u then [] else [LogUnlockFailed]"]) auto
  qed
qed

lemma and_then_cases:
  assumes "and_then a f s = (r, s')"
  obtains (stop) e where "a s = (Inl e, s')" "r = Inl e" | (continue) x s1 where "a s = (Inr x, s1)" "f x s1 = (r, s')"
  using assms by (auto simp: and_then_def split: prod.splits sum.splits)

lemma down_body_audit:
  assumes ok: "dialect_ok E (m_dialect m) run S view" and d: "down_body E m target s = (r, s')"
  defines "todo \<equiv> rolled_back target (hist (fst (view (sess s)))) (rev (m_migrations m))"
  shows "\<exists>att. logs s' = logs s @ concat (map (audit E) att) \<and> prefix (map fst att) todo \<and>
    list_all (\<lambda>(mig, ms, ok). ok) (butlast att) \<and> (is_ok r \<longrightarrow> map fst att = todo \<and> list_all (\<lambda>(mig, ms, ok). ok) att)"
    (is "?audited r s'")
proof -
  have rd: "reads_ok E view" using ok by (simp add: dialect_ok_def)
  have early: "?audited (Inl e) x" if "logs x = logs s" for e x using that by (intro exI [of _ "[]"]) auto
  from d [unfolded down_body_def] show ?thesis
  proof (cases rule: and_then_cases)
    case (stop e)
    then have "logs s' = logs s" by (auto simp: applied_rows_def dest: call_logs split: prod.splits option.splits)
    with stop(2) show ?thesis using early by simp
  next
    case (continue applied s1)
    have l1: "logs s1 = logs s"
      using continue(1) by (auto simp: applied_rows_def dest: call_logs split: prod.splits option.splits)
    have mp: "map_of applied = map_of (hist (fst (view (sess s))))" using applied_rowsD [OF rd continue(1)] by simp
    from continue(2) show ?thesis
    proof (cases rule: and_then_cases)
      case (stop e)
      then have "logs s' = logs s" using l1 by (simp add: guard_def split: option.splits)
      with stop(2) show ?thesis using early by simp
    next
      case g: (continue u s2)
      then have l2: "logs s2 = logs s" using l1 by (simp add: guard_def split: option.splits)
      from g(2) show ?thesis
      proof (cases rule: and_then_cases)
        case (stop e)
        then have "logs s' = logs s" using check_dirtyD(2) [OF ok] l2 by metis
        with stop(2) show ?thesis using early by simp
      next
        case c: (continue w s3)
        then have l3: "logs s3 = logs s" using check_dirtyD(2) [OF ok] l2 by metis
        show ?thesis
        proof (cases "applied = []")
          case True
          with c l3 show ?thesis using early by auto
        next
          case False
          with c have "rollback_applied E m target applied (rev (m_migrations m)) s3 = (r, s')" by simp
          from rollback_applied_audit [OF this] show ?thesis by (simp add: l3 mp todo_def rolled_back_def)
        qed
      qed
    qed
  qed
qed

text \<open>C7: The record of a rollback run. Whatever the driver answers, the lines \<^verbatim>\<open>Down\<close> and \<^verbatim>\<open>DownTo\<close> write are a pair for
  each migration whose script was started: one before it, with version, name, host and operator, and one after
  it, with the duration and whether it succeeded. The started ones are the first of those the run was to undo,
  newest first, and all but the last succeeded; when the run returns nil they are all of them and all succeeded. After
  them comes at most a warning that the lock was not released.\<close>

theorem down_leaves_audit_trail:
  assumes ok: "dialect_ok E (m_dialect m) run S view" and v: "view (sess s) = (v, None)"
    and d: "down E m target s = (r, s')"
  shows "\<exists>att unlock. logs s' = logs s @ concat (map (audit E) att) @ unlock \<and> set unlock \<subseteq> {LogUnlockFailed} \<and>
    prefix (map fst att) (rolled_back target (hist v) (rev (m_migrations m))) \<and>
    list_all (\<lambda>(mig, ms, ok). ok) (butlast att) \<and>
    (is_ok r \<longrightarrow> map fst att = rolled_back target (hist v) (rev (m_migrations m)) \<and> list_all (\<lambda>(mig, ms, ok). ok) att)"
proof -
  from v have "snd (view (sess s)) = None" by simp
  from ok this d [unfolded down_def] show ?thesis
  proof (cases rule: locked_logs)
    case refused
    then show ?thesis by (intro exI [of _ "[]"]) auto
  next
    case (ran s1 s2 unlock)
    from down_body_audit [OF ok ran(3)] obtain att where
      "logs s2 = logs s1 @ concat (map (audit E) att)"
      "prefix (map fst att) (rolled_back target (hist v) (rev (m_migrations m)))"
      "list_all (\<lambda>(mig, ms, ok). ok) (butlast att)"
      "is_ok r \<longrightarrow> map fst att = rolled_back target (hist v) (rev (m_migrations m)) \<and> list_all (\<lambda>(mig, ms, ok). ok) att"
      using ran(1) v by auto
    with ran(2,4,5) show ?thesis by (intro exI [of _ att] exI [of _ unlock]) simp
  qed
qed

lemma down_leaves_audit_trail_witness:
  "\<exists>ms s' rest. down mem_engine demo_migrator 0 \<lparr>sess = \<lparr>mem_db = \<lparr>hist = [(7, \<lparr>r_name = ''n'', r_checksum = ''c'', r_applied_at = ''t''\<rparr>)],
      dirt = [], content = [''a'']\<rparr>, mem_saved = None, mem_fail = False\<rparr>, logs = []\<rparr> = (Inr (), s') \<and>
    logs s' = [LogRollbackStart 7 ''n'' ''h'' ''u'', LogRollbackDone 7 ''n'' ''h'' ''u'' ms True] @ rest"
proof -
  let ?v = "\<lparr>hist = [(7, \<lparr>r_name = ''n'', r_checksum = ''c'', r_applied_at = ''t''\<rparr>)], dirt = [], content = [''a'']\<rparr>"
  let ?s = "\<lparr>sess = \<lparr>mem_db = ?v, mem_saved = None, mem_fail = False\<rparr>, logs = []\<rparr>"
  obtain r s' where u: "down mem_engine demo_migrator 0 ?s = (r, s')" by fastforce
  then have r: "r = Inr ()"
    by (auto simp: down_def down_body_def rollback_def up_eval mem_eval log_line_def Let_def)
  have todo: "rolled_back 0 [(7, \<lparr>r_name = ''n'', r_checksum = ''c'', r_applied_at = ''t''\<rparr>)] (rev (m_migrations demo_migrator)) = [demo_mig]"
    by (simp add: rolled_back_def demo_migrator_def demo_mig_def)
  have "mem_view (sess ?s) = (?v, None)" by (simp add: mem_view_def)
  from down_leaves_audit_trail [OF demo_ok this u] obtain att unlock where
    "logs s' = logs ?s @ concat (map (audit mem_engine) att) @ unlock"
    "is_ok r \<longrightarrow> map fst att = [demo_mig] \<and> list_all (\<lambda>(mig, ms, ok). ok) att"
    unfolding database.simps todo by (elim exE conjE) (rule that)
  with r have a: "logs s' = concat (map (audit mem_engine) att) @ unlock" "map fst att = [demo_mig]"
      "list_all (\<lambda>(mig, ms, ok). ok) att" by simp_all
  then obtain ms where "att = [(demo_mig, ms, True)]" by (cases att) auto
  with a(1) u r show ?thesis
    by (intro exI [of _ ms] exI [of _ s'] exI [of _ unlock])
      (simp add: audit_def demo_mig_def host_name_def os_user_def mem_engine_def)
qed

text \<open>A rollback that another runner has done already is skipped, and reported as finished like any other.\<close>

lemma skipped_rollback_reported:
  assumes "m_down mig = Some sc" "\<not> no_tx sc"
    and "call (e_now E) (log_line (LogRollbackStart (m_version mig) (m_name mig) (host_name E) (os_user E)) s) = (t, s0)"
    and "exec_tx (m_dialect m) (m_version mig) True (statements sc) (SqlDelete (m_version mig)) s0 = (Inr True, s1)"
  shows "\<exists>s' ms. rollback E m mig s = (Inr (), s') \<and> logs s' = logs s @ audit E (mig, ms, True)"
proof -
  obtain r s' where r: "rollback E m mig s = (r, s')" by fastforce
  with assms have "r = Inr ()" by (auto simp: rollback_def Let_def host_name_def)
  with rollback_audit [OF r] assms(1) r show ?thesis by auto
qed

end
