(* ===== verification/Base64.thy ===== *)
theory Base64
  imports GoStrings
begin

text \<open>
  Go's \<^verbatim>\<open>encoding/base64\<close> with the standard alphabet, as two parts of the repository use it:
  \<^verbatim>\<open>encoding/json\<close> writes a byte slice with padding (\<^verbatim>\<open>StdEncoding\<close>), the password hasher
  without padding and strictly (\<^verbatim>\<open>RawStdEncoding.Strict()\<close>, which refuses non-zero bits after
  the last byte). The decoder ignores carriage returns and line feeds wherever they stand.
\<close>

definition b64_alphabet :: string where
  "b64_alphabet = ''ABCDEFGHIJKLMNOPQRSTUVWXYZabcdefghijklmnopqrstuvwxyz0123456789+/''"

definition b64_char :: "nat \<Rightarrow> char" where
  "b64_char n =
     (if n < 26 then char_of (65 + n) else if n < 52 then char_of (71 + n)
      else if n < 62 then char_of (n - 4) else if n = 62 then CHR ''+'' else CHR ''/'')"

definition b64_val :: "char \<Rightarrow> nat option" where
  "b64_val c =
     (if is_upper c then Some (byte_of c - 65) else if is_lower c then Some (byte_of c - 71)
      else if is_digit c then Some (byte_of c + 4) else if c = CHR ''+'' then Some 62
      else if c = CHR ''/'' then Some 63 else None)"

fun b64_encode :: "bool \<Rightarrow> string \<Rightarrow> string" where
  "b64_encode pad [] = []"
| "b64_encode pad [a] =
     [b64_char (byte_of a div 4), b64_char (byte_of a mod 4 * 16)] @ (if pad then ''=='' else [])"
| "b64_encode pad [a, b] =
     [b64_char (byte_of a div 4), b64_char (byte_of a mod 4 * 16 + byte_of b div 16),
      b64_char (byte_of b mod 16 * 4)] @ (if pad then ''='' else [])"
| "b64_encode pad (a # b # c # s) =
     [b64_char (byte_of a div 4), b64_char (byte_of a mod 4 * 16 + byte_of b div 16),
      b64_char (byte_of b mod 16 * 4 + byte_of c div 64), b64_char (byte_of c mod 64)]
     @ b64_encode pad s"

definition b64_one :: "bool \<Rightarrow> nat \<Rightarrow> nat \<Rightarrow> string option" where
  "b64_one strict v w =
     (if strict \<and> w mod 16 \<noteq> 0 then None else Some [char_of (v * 4 + w div 16)])"

definition b64_two :: "bool \<Rightarrow> nat \<Rightarrow> nat \<Rightarrow> nat \<Rightarrow> string option" where
  "b64_two strict v w x =
     (if strict \<and> x mod 4 \<noteq> 0 then None
      else Some [char_of (v * 4 + w div 16), char_of (w mod 16 * 16 + x div 4)])"

fun b64_groups :: "bool \<Rightarrow> bool \<Rightarrow> string \<Rightarrow> string option" where
  "b64_groups pad strict [] = Some []"
| "b64_groups pad strict [p, q] =
     (case (b64_val p, b64_val q) of
        (Some v, Some w) \<Rightarrow> if pad then None else b64_one strict v w
      | _ \<Rightarrow> None)"
| "b64_groups pad strict [p, q, r] =
     (case (b64_val p, b64_val q, b64_val r) of
        (Some v, Some w, Some x) \<Rightarrow> if pad then None else b64_two strict v w x
      | _ \<Rightarrow> None)"
| "b64_groups pad strict (p # q # r # t # s) =
     (case (b64_val p, b64_val q) of
        (Some v, Some w) \<Rightarrow>
          (if pad \<and> r = CHR ''='' then (if t = CHR ''='' \<and> s = [] then b64_one strict v w else None)
           else case b64_val r of
             None \<Rightarrow> None
           | Some x \<Rightarrow>
               (if pad \<and> t = CHR ''='' then (if s = [] then b64_two strict v w x else None)
                else case (b64_val t, b64_groups pad strict s) of
                  (Some y, Some bs) \<Rightarrow>
                    Some ([char_of (v * 4 + w div 16), char_of (w mod 16 * 16 + x div 4),
                           char_of (x mod 4 * 64 + y)] @ bs)
                | _ \<Rightarrow> None))
      | _ \<Rightarrow> None)"
| "b64_groups pad strict _ = None"

definition b64_decode :: "bool \<Rightarrow> bool \<Rightarrow> string \<Rightarrow> string option" where
  "b64_decode pad strict s = b64_groups pad strict (filter (\<lambda>c. c \<noteq> CR \<and> c \<noteq> LF) s)"

section \<open>Round trip\<close>

lemma b64_val_char [simp]: "n < 64 \<Longrightarrow> b64_val (b64_char n) = Some n"
  by (auto simp: b64_val_def b64_char_def is_upper_def is_lower_def is_digit_def)

lemma b64_char_plain:
  "n < 64 \<Longrightarrow> b64_char n \<noteq> CHR ''='' \<and> b64_char n \<noteq> CR \<and> b64_char n \<noteq> LF"
  using b64_val_char [of n] by (auto simp: b64_val_def is_upper_def is_lower_def is_digit_def)

lemma b64_char_ascii: "n < 64 \<Longrightarrow> byte_of (b64_char n) < 0x80 \<and> b64_char n \<noteq> CHR ''$''"
  using b64_val_char [of n] by (auto simp: b64_val_def b64_char_def is_upper_def is_lower_def is_digit_def)

lemma b64_char_alphabet: "n < 64 \<Longrightarrow> b64_char n = b64_alphabet ! n"
proof -
  have "list_all (\<lambda>n. b64_char n = b64_alphabet ! n) [0 ..< 64]" by code_simp
  then show "n < 64 \<Longrightarrow> b64_char n = b64_alphabet ! n" by (simp add: list_all_iff)
qed

lemma b64_parts:
  "byte_of a div 4 < 64" "byte_of a mod 4 * 16 < 64" "byte_of a mod 4 * 16 + byte_of b div 16 < 64"
  "byte_of b mod 16 * 4 < 64" "byte_of b mod 16 * 4 + byte_of c div 64 < 64" "byte_of c mod 64 < 64"
proof -
  note l = byte_of_less [of a] byte_of_less [of b] byte_of_less [of c]
  have m: "byte_of a mod 4 < 4" "byte_of b mod 16 < 16" "byte_of b div 16 < 16" "byte_of c div 64 < 4"
    using l by (simp_all add: less_mult_imp_div_less)
  show "byte_of a div 4 < 64" "byte_of c mod 64 < 64" using l by (simp_all add: less_mult_imp_div_less)
  show "byte_of a mod 4 * 16 < 64" "byte_of a mod 4 * 16 + byte_of b div 16 < 64"
    "byte_of b mod 16 * 4 < 64" "byte_of b mod 16 * 4 + byte_of c div 64 < 64"
    using m by linarith+
qed

lemma b64_small:
  "byte_of x div 16 div 16 = 0" "byte_of x div 16 mod 16 = byte_of x div 16"
  "byte_of x div 64 div 4 = 0" "byte_of x div 64 mod 4 = byte_of x div 64"
proof -
  have "byte_of x div 16 < 16" "byte_of x div 64 < 4"
    using byte_of_less [of x] by (simp_all add: less_mult_imp_div_less)
  then show "byte_of x div 16 div 16 = 0" "byte_of x div 16 mod 16 = byte_of x div 16"
    "byte_of x div 64 div 4 = 0" "byte_of x div 64 mod 4 = byte_of x div 64"
    by auto
qed

lemma b64_groups_encode: "b64_groups pad strict (b64_encode pad s) = Some s"
proof (induction pad s rule: b64_encode.induct)
  case (4 pad a b c s)
  then show ?case
    by (simp add: b64_parts b64_char_plain b64_small div_mult_mod_eq)
qed (auto simp: b64_parts b64_char_plain b64_one_def b64_two_def b64_small div_mult_mod_eq)

lemma b64_encode_chars:
  "c \<in> set (b64_encode pad s) \<Longrightarrow> (\<exists>n<64. c = b64_char n) \<or> pad \<and> c = CHR ''=''"
  by (induction pad s rule: b64_encode.induct) (auto split: if_splits intro: b64_parts)

lemma b64_encode_no_newline: "filter (\<lambda>c. c \<noteq> CR \<and> c \<noteq> LF) (b64_encode pad s) = b64_encode pad s"
  by (rule filter_True) (auto dest!: b64_encode_chars simp: b64_char_plain)

lemma b64_decode_encode [simp]: "b64_decode pad strict (b64_encode pad s) = Some s"
  by (simp add: b64_decode_def b64_encode_no_newline b64_groups_encode)

lemma b64_encode_length: "length (b64_encode False s) = (4 * length s + 2) div 3"
  by (induction "False" s rule: b64_encode.induct) auto

lemma b64_encode_ascii: "c \<in> set (b64_encode pad s) \<Longrightarrow> byte_of c < 0x80 \<and> c \<noteq> CHR ''$''"
  by (auto simp: b64_char_ascii dest!: b64_encode_chars)

end
