(* ===== verification/HttpBase.thy ===== *)
theory HttpBase
  imports GoRunes
begin

text \<open>
  The part of \<^verbatim>\<open>net/http\<close> the middleware touches. A header (\<^verbatim>\<open>http.Header\<close>) is an
  association list from canonical field names to their values; its operations
  canonicalise the name they are given (\<open>canonical_key\<close>, \<^verbatim>\<open>http.CanonicalHeaderKey\<close>). A
  \<open>request\<close> keeps the fields the middleware reads, its context values by name and its body
  as bytes with a flag for a reader that fails at their end. A \<open>writer\<close> is the server's
  \<^verbatim>\<open>http.ResponseWriter\<close>: the first final status wins and fixes the header sent, a body write
  before it sends 200, and 1xx statuses but 101 are informational.

  A handler is the list of calls it makes on its writer, and whether it then panics
  (\<open>handler_run\<close>); a middleware that wraps the writer folds its wrapper over them.
\<close>

section \<open>Case folding and canonical names\<close>

definition ascii_lower :: "char \<Rightarrow> char" where
  "ascii_lower c = (if is_upper c then char_of (byte_of c + 32) else c)"

definition ascii_upper :: "char \<Rightarrow> char" where
  "ascii_upper c = (if is_lower c then char_of (byte_of c - 32) else c)"

definition token_byte :: "char \<Rightarrow> bool" where
  "token_byte c \<longleftrightarrow> is_digit c \<or> is_lower c \<or> is_upper c \<or> c \<in> set ''!#$%&*+-.^_`|~'' \<or> byte_of c = 39"

fun canonical_from :: "bool \<Rightarrow> string \<Rightarrow> string" where
  "canonical_from up [] = []"
| "canonical_from up (c # cs) =
     (if up then ascii_upper c else ascii_lower c) # canonical_from (c = CHR ''-'') cs"

definition canonical_key :: "string \<Rightarrow> string" where
  "canonical_key s = (if list_all token_byte s then canonical_from True s else s)"

definition equal_fold_ascii :: "string \<Rightarrow> string \<Rightarrow> bool" where
  "equal_fold_ascii s t \<longleftrightarrow> map ascii_lower s = map ascii_lower t"

section \<open>Headers\<close>

type_synonym header = "(string \<times> string list) list"

definition header_values :: "header \<Rightarrow> string \<Rightarrow> string list" where
  "header_values h k = (case map_of h (canonical_key k) of None \<Rightarrow> [] | Some vs \<Rightarrow> vs)"

definition header_get :: "header \<Rightarrow> string \<Rightarrow> string" where
  "header_get h k = (case header_values h k of [] \<Rightarrow> [] | v # _ \<Rightarrow> v)"

definition header_set :: "string \<Rightarrow> string \<Rightarrow> header \<Rightarrow> header" where
  "header_set k v h = AList.update (canonical_key k) [v] h"

definition header_add :: "string \<Rightarrow> string \<Rightarrow> header \<Rightarrow> header" where
  "header_add k v h = AList.update (canonical_key k) (header_values h k @ [v]) h"

definition header_del :: "string \<Rightarrow> header \<Rightarrow> header" where
  "header_del k h = AList.delete (canonical_key k) h"

lemma header_values_set:
  "header_values (header_set k v h) k' =
    (if canonical_key k' = canonical_key k then [v] else header_values h k')"
  by (simp add: header_values_def header_set_def update_conv')

lemma header_values_add:
  "header_values (header_add k v h) k' =
    (if canonical_key k' = canonical_key k then header_values h k @ [v] else header_values h k')"
  by (simp add: header_values_def header_add_def update_conv')

lemma header_values_del:
  "header_values (header_del k h) k' =
    (if canonical_key k' = canonical_key k then [] else header_values h k')"
  by (simp add: header_values_def header_del_def delete_conv')

lemma header_values_same: "canonical_key k' = canonical_key k \<Longrightarrow> header_values h k' = header_values h k"
  by (simp add: header_values_def)

lemma header_get_set:
  "header_get (header_set k v h) k' = (if canonical_key k' = canonical_key k then v else header_get h k')"
  by (simp add: header_get_def header_values_set)

lemma header_get_del:
  "header_get (header_del k h) k' = (if canonical_key k' = canonical_key k then [] else header_get h k')"
  by (simp add: header_get_def header_values_del)

lemma header_get_add:
  "header_get (header_add k v h) k' =
    (if canonical_key k' = canonical_key k \<and> header_values h k = [] then v else header_get h k')"
  by (cases "canonical_key k' = canonical_key k")
    (auto simp: header_get_def header_values_add header_values_same [of k' k] split: list.splits)

section \<open>Requests\<close>

record request =
  rq_method :: string
  rq_uri :: string
  rq_path :: string
  rq_header :: header
  rq_remote :: string
  rq_length :: int
  rq_body :: string
  rq_body_fails :: bool
  rq_body_cap :: "int option"
  rq_ctx :: "(string \<times> string) list"

definition ctx_with :: "string \<Rightarrow> string \<Rightarrow> request \<Rightarrow> request" where
  "ctx_with k v r = r\<lparr>rq_ctx := AList.update k v (rq_ctx r)\<rparr>"

definition ctx_get :: "request \<Rightarrow> string \<Rightarrow> string" where
  "ctx_get r k = (case map_of (rq_ctx r) k of None \<Rightarrow> [] | Some v \<Rightarrow> v)"

lemma ctx_get_with: "ctx_get (ctx_with k v r) k' = (if k' = k then v else ctx_get r k')"
  by (simp add: ctx_get_def ctx_with_def update_conv')

lemma ctx_with_other [simp]:
  "rq_header (ctx_with k v r) = rq_header r" "rq_method (ctx_with k v r) = rq_method r"
  "rq_remote (ctx_with k v r) = rq_remote r" "rq_body (ctx_with k v r) = rq_body r"
  by (simp_all add: ctx_with_def)

datatype read_error = Body_Too_Large | Body_Read_Failed

definition max_bytes_reader :: "int \<Rightarrow> request \<Rightarrow> request" where
  \<comment> \<open>nested \<^verbatim>\<open>http.MaxBytesReader\<close>s: the smallest cap decides\<close>
  "max_bytes_reader n r =
     r\<lparr>rq_body_cap := Some (case rq_body_cap r of None \<Rightarrow> max 0 n | Some m \<Rightarrow> min (max 0 n) m)\<rparr>"

definition read_all :: "request \<Rightarrow> read_error + string" where
  "read_all r =
     (case rq_body_cap r of
        Some m \<Rightarrow> if m < int (length (rq_body r)) then Inl Body_Too_Large
                  else if rq_body_fails r then Inl Body_Read_Failed else Inr (rq_body r)
      | None \<Rightarrow> if rq_body_fails r then Inl Body_Read_Failed else Inr (rq_body r))"

lemma read_all_capped:
  "read_all (max_bytes_reader n r) = Inr b \<Longrightarrow> b = rq_body r \<and> int (length b) \<le> max 0 n"
  by (auto simp: read_all_def max_bytes_reader_def split: option.splits if_splits)

section \<open>Response writers and handlers\<close>

record writer =
  wr_header :: header
  wr_status :: int
  wr_sent :: header
  wr_body :: string
  wr_info :: "int list"

definition fresh_writer :: writer where
  "fresh_writer = \<lparr>wr_header = [], wr_status = 0, wr_sent = [], wr_body = [], wr_info = []\<rparr>"

definition write_header :: "int \<Rightarrow> writer \<Rightarrow> writer" where
  "write_header st w =
     (if wr_status w \<noteq> 0 then w
      else if 100 \<le> st \<and> st \<le> 199 \<and> st \<noteq> 101 then w\<lparr>wr_info := wr_info w @ [st]\<rparr>
      else w\<lparr>wr_status := st, wr_sent := wr_header w\<rparr>)"

definition write_body :: "string \<Rightarrow> writer \<Rightarrow> writer" where
  "write_body b w = (let w1 = write_header 200 w in w1\<lparr>wr_body := wr_body w1 @ b\<rparr>)"

definition on_header :: "(header \<Rightarrow> header) \<Rightarrow> writer \<Rightarrow> writer" where
  "on_header f w = w\<lparr>wr_header := f (wr_header w)\<rparr>"

datatype action = HSet string string | HAdd string string | HDel string
  | WriteHeader int | Write string

datatype outcome = Returned | Panicked string | Aborted
  \<comment> \<open>\<open>Aborted\<close> is the panic with \<^verbatim>\<open>http.ErrAbortHandler\<close>, recognised by identity\<close>

type_synonym handler_run = "action list \<times> outcome"

fun header_action :: "action \<Rightarrow> header \<Rightarrow> header" where
  "header_action (HSet k v) h = header_set k v h"
| "header_action (HAdd k v) h = header_add k v h"
| "header_action (HDel k) h = header_del k h"
| "header_action _ h = h"

fun act :: "writer \<Rightarrow> action \<Rightarrow> writer" where
  "act w (WriteHeader st) = write_header st w"
| "act w (Write b) = write_body b w"
| "act w a = on_header (header_action a) w"

definition run_actions :: "action list \<Rightarrow> writer \<Rightarrow> writer" where
  "run_actions as w = foldl act w as"

datatype gate = Next request writer | Done writer
  \<comment> \<open>a middleware that does not wrap the writer calls the next handler, or has answered\<close>

type_synonym error_writer = "request \<Rightarrow> int \<Rightarrow> string \<Rightarrow> writer \<Rightarrow> writer"

lemma write_header_sent [simp]: "wr_status w \<noteq> 0 \<Longrightarrow> write_header st w = w"
  by (simp add: write_header_def)

lemma write_header_final: "wr_status w = 0 \<Longrightarrow> 200 \<le> st \<Longrightarrow>
    write_header st w = w\<lparr>wr_status := st, wr_sent := wr_header w\<rparr>"
  by (simp add: write_header_def)

lemma on_header_simps [simp]:
  "wr_header (on_header f w) = f (wr_header w)" "wr_status (on_header f w) = wr_status w"
  "wr_sent (on_header f w) = wr_sent w" "wr_body (on_header f w) = wr_body w"
  "wr_info (on_header f w) = wr_info w"
  by (simp_all add: on_header_def)

text \<open>Once a final status is out, no action changes it or the header that went with it.\<close>

lemma act_status_final:
  "wr_status w \<noteq> 0 \<Longrightarrow> wr_status (act w a) = wr_status w \<and> wr_sent (act w a) = wr_sent w"
  by (cases a) (auto simp: write_body_def Let_def)

lemma run_actions_final:
  "wr_status w \<noteq> 0 \<Longrightarrow> wr_status (run_actions as w) = wr_status w \<and> wr_sent (run_actions as w) = wr_sent w"
  unfolding run_actions_def
  by (induction as arbitrary: w) (use act_status_final in auto)

lemma ascii_lower_upper: "ascii_lower (ascii_upper c) = ascii_lower c"
  by (auto simp: ascii_lower_def ascii_upper_def is_upper_def is_lower_def)

lemma ascii_upper_lower: "ascii_upper (ascii_lower c) = ascii_upper c"
  by (auto simp: ascii_lower_def ascii_upper_def is_upper_def is_lower_def)

lemma ascii_fold_idem [simp]: "ascii_lower (ascii_lower c) = ascii_lower c"
    "ascii_upper (ascii_upper c) = ascii_upper c"
  by (auto simp: ascii_lower_def ascii_upper_def is_upper_def is_lower_def)

lemma ascii_dash:
  "(ascii_lower c = CHR ''-'') = (c = CHR ''-'')" "(ascii_upper c = CHR ''-'') = (c = CHR ''-'')"
proof -
  have n: "char_of n \<noteq> CHR ''-''" if "n < 256" "n \<noteq> 45" for n :: nat
  proof
    assume "char_of n = CHR ''-''"
    then have "byte_of (char_of n :: char) = byte_of (CHR ''-'')" by simp
    then show False using that by simp
  qed
  have lo: "m - 32 < 256 \<and> m - 32 \<noteq> 45" if "97 \<le> m" "m \<le> 122" for m :: nat
    using that by arith
  show "(ascii_lower c = CHR ''-'') = (c = CHR ''-'')"
    using n [of "byte_of c + 32"] by (auto simp: ascii_lower_def is_upper_def)
  show "(ascii_upper c = CHR ''-'') = (c = CHR ''-'')"
    using n [of "byte_of c - 32"] lo [of "byte_of c"] by (auto simp: ascii_upper_def is_lower_def)
qed

lemma canonical_from_idem: "canonical_from b (canonical_from b s) = canonical_from b s"
  by (induction b s rule: canonical_from.induct) (auto simp: ascii_dash)

lemma token_byte_fold [simp]:
  "token_byte (ascii_lower c) = token_byte c" "token_byte (ascii_upper c) = token_byte c"
  by (auto simp: token_byte_def ascii_lower_def ascii_upper_def is_digit_def is_upper_def is_lower_def)

lemma token_canonical_from [simp]: "list_all token_byte (canonical_from b s) = list_all token_byte s"
  by (induction b s rule: canonical_from.induct) auto

lemma canonical_key_idem [simp]: "canonical_key (canonical_key s) = canonical_key s"
  by (simp add: canonical_key_def canonical_from_idem)

end
