(* ===== verification/MemStore.thy ===== *)
theory MemStore
  imports GoBase
begin

text \<open>
  The key-value persistence of \<^verbatim>\<open>src/httpx/middleware\<close>: the interface \<^verbatim>\<open>Store\<close> of
  \<^verbatim>\<open>idempotency.go\<close> (four operations, the record \<open>kv_ops\<close>) and its in-package implementation
  \<^verbatim>\<open>MemoryStore\<close> of \<^verbatim>\<open>memorystore.go\<close>. Values are opaque (a type variable); the map of
  entries is an association list without duplicate keys. Each operation runs under the
  mutex, so it is one function on the state; the clock reading it takes is an argument, and
  readings of successive calls need not grow (\<^verbatim>\<open>SetNX\<close> reads its clock before it takes the
  lock). The context argument is not used by the code and is left out.

  The locale \<open>kv_store\<close> is the contract the interface's comments give, over the \<open>view\<close>: the
  value a key has at an instant. The interpretation \<open>mem\<close> discharges it for \<^verbatim>\<open>MemoryStore\<close>.
\<close>

section \<open>The interface\<close>

datatype store_error = Store_Full | Store_Unavailable

record ('s, 'v) kv_ops =
  op_setnx :: "string \<Rightarrow> 'v \<Rightarrow> duration \<Rightarrow> instant \<Rightarrow> 's \<Rightarrow> (store_error + bool) \<times> 's"
  op_get :: "string \<Rightarrow> instant \<Rightarrow> 's \<Rightarrow> store_error + 'v option"
  op_set :: "string \<Rightarrow> 'v \<Rightarrow> instant \<Rightarrow> 's \<Rightarrow> store_error option \<times> 's"
  op_delete :: "string \<Rightarrow> instant \<Rightarrow> 's \<Rightarrow> store_error option \<times> 's"

section \<open>MemoryStore\<close>

record 'v mem_entry =
  me_value :: 'v
  me_expires :: instant

record 'v mem_store =
  ms_max :: int
  ms_entries :: "(string \<times> 'v mem_entry) list"
  ms_last_sweep :: instant

definition default_max_records :: int where
  "default_max_records = 65536"

definition sweep_throttle :: duration where
  "sweep_throttle = second"

definition new_memory_store :: "int \<Rightarrow> 'v mem_store" where
  "new_memory_store n =
     \<lparr>ms_max = pos_or_default n default_max_records, ms_entries = [], ms_last_sweep = zero_time\<rparr>"

definition live :: "instant \<Rightarrow> 'v mem_entry \<Rightarrow> bool" where
  "live now e \<longleftrightarrow> now < me_expires e"

definition sweep :: "instant \<Rightarrow> 'v mem_store \<Rightarrow> 'v mem_store" where
  "sweep now s =
     (if sweep_throttle \<le> time_sub now (ms_last_sweep s)
      then s\<lparr>ms_last_sweep := now, ms_entries := filter (\<lambda>(k, e). live now e) (ms_entries s)\<rparr>
      else s)"

definition full :: "'v mem_store \<Rightarrow> bool" where
  "full s \<longleftrightarrow> ms_max s \<le> int (length (ms_entries s))"

definition insert_nx :: "string \<Rightarrow> 'v \<Rightarrow> duration \<Rightarrow> instant \<Rightarrow> 'v mem_store \<Rightarrow>
    (store_error + bool) \<times> 'v mem_store" where
  "insert_nx k v ttl now s =
     (let s1 = (if full s then sweep now s else s)
      in if full s1 then (Inl Store_Full, s1)
         else (Inr True, s1\<lparr>ms_entries := AList.update k \<lparr>me_value = v, me_expires = now + ttl\<rparr> (ms_entries s1)\<rparr>))"

definition set_nx :: "string \<Rightarrow> 'v \<Rightarrow> duration \<Rightarrow> instant \<Rightarrow> 'v mem_store \<Rightarrow>
    (store_error + bool) \<times> 'v mem_store" where
  "set_nx k v ttl now s =
     (case map_of (ms_entries s) k of
        Some e \<Rightarrow>
          if live now e then (Inr False, s)
          else insert_nx k v ttl now (s\<lparr>ms_entries := AList.delete k (ms_entries s)\<rparr>)
      | None \<Rightarrow> insert_nx k v ttl now s)"

definition mem_get :: "string \<Rightarrow> instant \<Rightarrow> 'v mem_store \<Rightarrow> store_error + 'v option" where
  "mem_get k now s =
     (case map_of (ms_entries s) k of
        None \<Rightarrow> Inr None
      | Some e \<Rightarrow> if live now e then Inr (Some (me_value e)) else Inr None)"

definition mem_set :: "string \<Rightarrow> 'v \<Rightarrow> instant \<Rightarrow> 'v mem_store \<Rightarrow> store_error option \<times> 'v mem_store" where
  "mem_set k v now s =
     (case map_of (ms_entries s) k of
        None \<Rightarrow> (None, s)
      | Some e \<Rightarrow>
          if live now e
          then (None, s\<lparr>ms_entries := AList.update k (e\<lparr>me_value := v\<rparr>) (ms_entries s)\<rparr>)
          else (None, s))"

definition mem_delete :: "string \<Rightarrow> instant \<Rightarrow> 'v mem_store \<Rightarrow> store_error option \<times> 'v mem_store" where
  "mem_delete k now s = (None, s\<lparr>ms_entries := AList.delete k (ms_entries s)\<rparr>)"

definition mem_ops :: "('v mem_store, 'v) kv_ops" where
  "mem_ops = \<lparr>op_setnx = set_nx, op_get = mem_get, op_set = mem_set, op_delete = mem_delete\<rparr>"

lemmas mem_defs = set_nx_def insert_nx_def sweep_def full_def live_def mem_get_def mem_set_def
  mem_delete_def mem_ops_def

section \<open>Well-formed stores\<close>

definition mem_ok :: "'v mem_store \<Rightarrow> bool" where
  "mem_ok s \<longleftrightarrow> distinct (map fst (ms_entries s)) \<and> 0 < ms_max s \<and>
     int (length (ms_entries s)) \<le> ms_max s"

definition mem_view :: "'v mem_store \<Rightarrow> instant \<Rightarrow> string \<Rightarrow> 'v option" where
  "mem_view s t k =
     (case map_of (ms_entries s) k of
        None \<Rightarrow> None
      | Some e \<Rightarrow> if live t e then Some (me_value e) else None)"

section \<open>The contract\<close>

text \<open>
  \<open>view s t k\<close> is the value key \<open>k\<close> has in store \<open>s\<close> at instant \<open>t\<close>. Time only takes values
  away (\<open>expiry\<close>); \<open>SetNX\<close> stores exactly when the key is absent, for the TTL; \<open>Set\<close> replaces
  a live value and keeps its lifetime; \<open>Delete\<close> removes; no operation changes another key.
\<close>

locale kv_store =
  fixes ops :: "('s, 'v) kv_ops"
    and inv :: "'s \<Rightarrow> bool"
    and view :: "'s \<Rightarrow> instant \<Rightarrow> string \<Rightarrow> 'v option"
  assumes expiry: "view s t k = Some v \<Longrightarrow> t' \<le> t \<Longrightarrow> view s t' k = Some v"
    and get_ok: "inv s \<Longrightarrow> op_get ops k now s = Inr g \<Longrightarrow> g = view s now k"
    and setnx_inv: "inv s \<Longrightarrow> op_setnx ops k v ttl now s = (r, s') \<Longrightarrow> inv s'"
    and set_inv: "inv s \<Longrightarrow> op_set ops k v now s = (e, s') \<Longrightarrow> inv s'"
    and delete_inv: "inv s \<Longrightarrow> op_delete ops k now s = (e, s') \<Longrightarrow> inv s'"
    and setnx_stored: "inv s \<Longrightarrow> op_setnx ops k v ttl now s = (Inr True, s') \<Longrightarrow>
      view s now k = None \<and> view s' t k = (if t < now + ttl then Some v else None)"
    and setnx_present: "inv s \<Longrightarrow> op_setnx ops k v ttl now s = (Inr False, s') \<Longrightarrow>
      view s now k \<noteq> None"
    and setnx_other: "inv s \<Longrightarrow> op_setnx ops k v ttl now s = (r, s') \<Longrightarrow>
      r \<noteq> Inr True \<or> k' \<noteq> k \<Longrightarrow> now \<le> t \<Longrightarrow> view s' t k' = view s t k'"
    and set_other: "inv s \<Longrightarrow> op_set ops k v now s = (e, s') \<Longrightarrow> k' \<noteq> k \<Longrightarrow> view s' t k' = view s t k'"
    and set_live: "inv s \<Longrightarrow> op_set ops k v now s = (None, s') \<Longrightarrow> view s now k \<noteq> None \<Longrightarrow>
      view s' t k = (if view s t k = None then None else Some v)"
    and set_none: "inv s \<Longrightarrow> op_set ops k v now s = (e, s') \<Longrightarrow> view s now k = None \<or> e \<noteq> None \<Longrightarrow>
      view s' t k = view s t k"
    and delete_gone: "inv s \<Longrightarrow> op_delete ops k now s = (None, s') \<Longrightarrow> view s' t k = None"
    and delete_failed: "inv s \<Longrightarrow> op_delete ops k now s = (Some x, s') \<Longrightarrow> view s' t k = view s t k"
    and delete_other: "inv s \<Longrightarrow> op_delete ops k now s = (e, s') \<Longrightarrow> k' \<noteq> k \<Longrightarrow>
      view s' t k' = view s t k'"
begin

lemma live_before: "view s t k \<noteq> None \<Longrightarrow> t' \<le> t \<Longrightarrow> view s t' k = view s t k"
  by (cases "view s t k") (auto dest: expiry)

lemma gone_after: "view s t k = None \<Longrightarrow> t \<le> t' \<Longrightarrow> view s t' k = None"
  by (cases "view s t' k") (auto dest: expiry)

text \<open>Of two claims for one key, the second stores only if the first's lifetime is over.\<close>

lemma second_claim:
  assumes "inv s" "op_setnx ops k v ttl now s = (Inr True, s')"
    and "op_setnx ops k v2 ttl2 now2 s' = (r, s'')" and "now2 < now + ttl"
  shows "r \<noteq> Inr True"
  using assms setnx_stored [OF assms(1,2)] setnx_stored [OF setnx_inv [OF assms(1,2)]] by fastforce

lemma get_after_claim:
  assumes "inv s" "op_setnx ops k v ttl now s = (Inr True, s')" "op_get ops k t s' = Inr r"
  shows "r = (if t < now + ttl then Some v else None)"
  using assms setnx_stored [OF assms(1,2)] get_ok [OF setnx_inv [OF assms(1,2)] assms(3)] by metis

text \<open>A value set on a live claim is read back until the claim's own expiry, not longer.\<close>

lemma get_after_set:
  assumes "inv s" "op_setnx ops k v ttl now s = (Inr True, s1)"
    and "op_set ops k w t s1 = (None, s2)" "t < now + ttl" "op_get ops k t' s2 = Inr r"
  shows "r = (if t' < now + ttl then Some w else None)"
proof -
  have 1: "inv s1" "\<And>t. view s1 t k = (if t < now + ttl then Some v else None)"
    using setnx_inv [OF assms(1,2)] setnx_stored [OF assms(1,2)] by auto
  have "view s2 t' k = (if view s1 t' k = None then None else Some w)"
    using set_live [OF 1(1) assms(3)] assms(4) 1(2) by simp
  then show ?thesis
    using get_ok [OF set_inv [OF 1(1) assms(3)] assms(5)] 1(2) by simp
qed

end

section \<open>MemoryStore keeps the contract\<close>

lemma sweep_ok: "mem_ok s \<Longrightarrow> mem_ok (sweep now s)"
  by (auto simp: mem_ok_def sweep_def distinct_map_fst_filter
    intro: order_trans [OF of_nat_mono [OF length_filter_le]])

lemma sweep_view: "mem_ok s \<Longrightarrow> now \<le> t \<Longrightarrow> mem_view (sweep now s) t k = mem_view s t k"
  by (auto simp: mem_ok_def sweep_def mem_view_def map_of_filter_snd live_def split: option.splits)

lemma delete_ok: "mem_ok s \<Longrightarrow> mem_ok (s\<lparr>ms_entries := AList.delete k (ms_entries s)\<rparr>)"
  using length_delete_le [of k "ms_entries s"]
  by (auto simp: mem_ok_def distinct_delete)

lemma delete_view:
  "mem_view (s\<lparr>ms_entries := AList.delete k (ms_entries s)\<rparr>) t k' = (if k' = k then None else mem_view s t k')"
  by (auto simp: mem_view_def delete_conv split: option.splits)

lemma update_ok:
  "mem_ok s \<Longrightarrow> \<not> full s \<or> k \<in> fst ` set (ms_entries s) \<Longrightarrow>
    mem_ok (s\<lparr>ms_entries := AList.update k e (ms_entries s)\<rparr>)"
  by (cases "k \<in> fst ` set (ms_entries s)")
    (auto simp: mem_ok_def full_def distinct_update length_update_new length_update_old)

lemma update_view:
  "mem_view (s\<lparr>ms_entries := AList.update k e (ms_entries s)\<rparr>) t k' =
    (if k' = k then if live t e then Some (me_value e) else None else mem_view s t k')"
  by (auto simp: mem_view_def update_conv' split: option.splits)

lemma insert_nx_ok: "mem_ok s \<Longrightarrow> insert_nx k v ttl now s = (r, s') \<Longrightarrow> mem_ok s'"
  by (auto simp: insert_nx_def Let_def sweep_ok intro: update_ok split: if_splits)

lemma insert_nx_true:
  "mem_ok s \<Longrightarrow> insert_nx k v ttl now s = (Inr True, s') \<Longrightarrow>
    mem_view s' t k = (if t < now + ttl then Some v else None)"
  by (auto simp: insert_nx_def Let_def update_view live_def split: if_splits)

lemma insert_nx_not_false: "insert_nx k v ttl now s \<noteq> (Inr False, s')"
  by (auto simp: insert_nx_def Let_def)

lemma insert_nx_other:
  "mem_ok s \<Longrightarrow> insert_nx k v ttl now s = (r, s') \<Longrightarrow> r \<noteq> Inr True \<or> k' \<noteq> k \<Longrightarrow> now \<le> t \<Longrightarrow>
    mem_view s' t k' = mem_view s t k'"
  by (auto simp: insert_nx_def Let_def update_view sweep_view split: if_splits)

lemma set_nx_cases:
  obtains (present) e where "map_of (ms_entries s) k = Some e" "live now e"
      "set_nx k v ttl now s = (Inr False, s)"
  | (stale) e where "map_of (ms_entries s) k = Some e" "\<not> live now e"
      "set_nx k v ttl now s = insert_nx k v ttl now (s\<lparr>ms_entries := AList.delete k (ms_entries s)\<rparr>)"
  | (absent) "map_of (ms_entries s) k = None" "set_nx k v ttl now s = insert_nx k v ttl now s"
  by (auto simp: set_nx_def split: option.splits if_splits)

lemma stale_view:
  "map_of (ms_entries s) k = Some e \<Longrightarrow> \<not> live now e \<Longrightarrow> now \<le> t \<Longrightarrow>
    mem_view (s\<lparr>ms_entries := AList.delete k (ms_entries s)\<rparr>) t k' = mem_view s t k'"
  by (auto simp: delete_view) (auto simp: mem_view_def live_def)

lemma set_nx_ok: "mem_ok s \<Longrightarrow> set_nx k v ttl now s = (r, s') \<Longrightarrow> mem_ok s'"
  by (cases rule: set_nx_cases [of s k now v ttl]) (auto intro: insert_nx_ok delete_ok)

lemma set_nx_true:
  "mem_ok s \<Longrightarrow> set_nx k v ttl now s = (Inr True, s') \<Longrightarrow>
    mem_view s now k = None \<and> mem_view s' t k = (if t < now + ttl then Some v else None)"
  by (cases rule: set_nx_cases [of s k now v ttl])
    (auto simp: mem_view_def [of s] dest: insert_nx_true [rotated, of _ _ _ _ _ _ t] delete_ok)

lemma set_nx_false:
  "mem_ok s \<Longrightarrow> set_nx k v ttl now s = (Inr False, s') \<Longrightarrow> mem_view s now k \<noteq> None \<and> s' = s"
  by (cases rule: set_nx_cases [of s k now v ttl])
    (auto simp: insert_nx_not_false mem_view_def)

lemma set_nx_other:
  assumes "mem_ok s" "set_nx k v ttl now s = (r, s')" "r \<noteq> Inr True \<or> k' \<noteq> k" "now \<le> t"
  shows "mem_view s' t k' = mem_view s t k'"
proof (cases rule: set_nx_cases [of s k now v ttl])
  case (stale e)
  with assms have "mem_view s' t k' = mem_view (s\<lparr>ms_entries := AList.delete k (ms_entries s)\<rparr>) t k'"
    by (intro insert_nx_other [OF delete_ok]) auto
  with stale assms(4) show ?thesis by (simp add: stale_view)
next
  case absent
  with assms show ?thesis by (metis insert_nx_other)
qed (use assms in simp_all)

lemma mem_set_cases:
  obtains (live) e where "map_of (ms_entries s) k = Some e" "live now e"
      "mem_set k v now s = (None, s\<lparr>ms_entries := AList.update k (e\<lparr>me_value := v\<rparr>) (ms_entries s)\<rparr>)"
  | (gone) "mem_view s now k = None" "mem_set k v now s = (None, s)"
proof (cases "\<exists>e. map_of (ms_entries s) k = Some e \<and> live now e")
  case True
  then show thesis by (auto simp: mem_set_def intro: that)
next
  case False
  then show thesis by (cases "map_of (ms_entries s) k") (auto simp: mem_set_def mem_view_def intro: that)
qed

lemma mem_set_ok: "mem_ok s \<Longrightarrow> mem_set k v now s = (e, s') \<Longrightarrow> mem_ok s'"
  by (cases rule: mem_set_cases [of s k now v])
    (auto intro!: update_ok dest: map_of_SomeD intro: rev_image_eqI)

lemma mem_set_view:
  "mem_set k v now s = (e, s') \<Longrightarrow>
    mem_view s' t k' =
      (if k' = k \<and> mem_view s now k \<noteq> None then if mem_view s t k = None then None else Some v
       else mem_view s t k')"
  by (cases rule: mem_set_cases [of s k now v])
    (auto simp: update_view mem_view_def [of s] live_def)

lemma mem_set_no_error: "mem_set k v now s = (e, s') \<Longrightarrow> e = None"
  by (cases rule: mem_set_cases [of s k now v]) auto

interpretation mem: kv_store mem_ops mem_ok mem_view
proof unfold_locales
  fix s :: "'a mem_store" and t t' :: instant and k v
  assume "mem_view s t k = Some v" "t' \<le> t"
  then show "mem_view s t' k = Some v"
    by (auto simp: mem_view_def live_def split: option.splits if_splits)
next
  fix s :: "'a mem_store" and k now r
  assume "mem_ok s" "op_get mem_ops k now s = Inr r"
  then show "r = mem_view s now k"
    by (auto simp: mem_ops_def mem_get_def mem_view_def split: option.splits if_splits)
qed (auto simp: mem_ops_def mem_delete_def delete_view delete_ok mem_set_view
  dest: mem_set_no_error set_nx_ok set_nx_true set_nx_false set_nx_other mem_set_ok split: if_splits)

lemma set_nx_taken: "mem_view s now k = Some v' \<Longrightarrow> set_nx k v ttl now s = (Inr False, s)"
  by (auto simp: set_nx_def mem_view_def split: option.splits if_splits)

lemma set_nx_free: "mem_view s now k = None \<Longrightarrow> \<not> full s \<Longrightarrow> fst (set_nx k v ttl now s) = Inr True"
  using length_delete_le [of k "ms_entries s"]
  by (auto simp: set_nx_def insert_nx_def mem_view_def full_def split: option.splits if_splits)

section \<open>Refinement of an ideal expiring map\<close>

text \<open>
  The abstract specification: a map from keys to a value and its expiry, of unbounded
  capacity, that never drops anything. \<open>ttl_run\<close> answers a trace of timed calls, leaving out
  those marked as refused; \<open>mem_run\<close> runs the same trace on a \<^verbatim>\<open>MemoryStore\<close>.
\<close>

datatype 'v store_call = Call_SetNX string 'v duration | Call_Get string | Call_Set string 'v
  | Call_Delete string

datatype 'v store_answer = Ans_Claim bool | Ans_Value "'v option" | Ans_Done | Ans_Error store_error

type_synonym 'v ttl_map = "string \<Rightarrow> ('v \<times> instant) option"

definition ttl_view :: "'v ttl_map \<Rightarrow> instant \<Rightarrow> string \<Rightarrow> 'v option" where
  "ttl_view m t k = (case m k of None \<Rightarrow> None | Some (v, x) \<Rightarrow> if t < x then Some v else None)"

fun ttl_call :: "'v store_call \<Rightarrow> instant \<Rightarrow> 'v ttl_map \<Rightarrow> 'v store_answer \<times> 'v ttl_map" where
  "ttl_call (Call_SetNX k v ttl) now m =
     (if ttl_view m now k = None then (Ans_Claim True, m(k \<mapsto> (v, now + ttl))) else (Ans_Claim False, m))"
| "ttl_call (Call_Get k) now m = (Ans_Value (ttl_view m now k), m)"
| "ttl_call (Call_Set k v) now m =
     (Ans_Done, if ttl_view m now k = None then m else m(k \<mapsto> (v, snd (the (m k)))))"
| "ttl_call (Call_Delete k) now m = (Ans_Done, m(k := None))"

fun mem_call :: "'v store_call \<Rightarrow> instant \<Rightarrow> 'v mem_store \<Rightarrow> 'v store_answer \<times> 'v mem_store" where
  "mem_call (Call_SetNX k v ttl) now s =
     (case set_nx k v ttl now s of
        (Inl e, s') \<Rightarrow> (Ans_Error e, s') | (Inr b, s') \<Rightarrow> (Ans_Claim b, s'))"
| "mem_call (Call_Get k) now s =
     ((case mem_get k now s of Inl e \<Rightarrow> Ans_Error e | Inr r \<Rightarrow> Ans_Value r), s)"
| "mem_call (Call_Set k v) now s =
     (case mem_set k v now s of (None, s') \<Rightarrow> (Ans_Done, s') | (Some e, s') \<Rightarrow> (Ans_Error e, s'))"
| "mem_call (Call_Delete k) now s =
     (case mem_delete k now s of (None, s') \<Rightarrow> (Ans_Done, s') | (Some e, s') \<Rightarrow> (Ans_Error e, s'))"

fun mem_run :: "(instant \<times> 'v store_call) list \<Rightarrow> 'v mem_store \<Rightarrow> 'v store_answer list \<times> 'v mem_store" where
  "mem_run [] s = ([], s)"
| "mem_run ((now, c) # cs) s =
     (let (a, s1) = mem_call c now s; (as, s2) = mem_run cs s1 in (a # as, s2))"

fun ttl_run :: "(instant \<times> 'v store_call) list \<Rightarrow> 'v store_answer list \<Rightarrow> 'v ttl_map \<Rightarrow>
    'v store_answer list" where
  "ttl_run ((now, c) # cs) (a # as) m =
     (if a = Ans_Error Store_Full then a # ttl_run cs as m
      else (let (b, m1) = ttl_call c now m in b # ttl_run cs as m1))"
| "ttl_run _ _ m = []"

definition views_agree :: "instant \<Rightarrow> 'v mem_store \<Rightarrow> 'v ttl_map \<Rightarrow> bool" where
  "views_agree now s m \<longleftrightarrow> (\<forall>t\<ge>now. \<forall>k. mem_view s t k = ttl_view m t k)"

lemma views_agree_later: "views_agree now s m \<Longrightarrow> now \<le> now' \<Longrightarrow> views_agree now' s m"
  by (auto simp: views_agree_def)

lemma ttl_view_upd: "ttl_view (m(k \<mapsto> (v, x))) t k' = (if k' = k then if t < x then Some v else None else ttl_view m t k')"
  by (simp add: ttl_view_def)

lemma ttl_view_del: "ttl_view (m(k := None)) t k' = (if k' = k then None else ttl_view m t k')"
  by (simp add: ttl_view_def)

lemma set_nx_error: "set_nx k v ttl now s = (Inl e, s') \<Longrightarrow> e = Store_Full"
  by (auto simp: set_nx_def insert_nx_def Let_def split: option.splits if_splits)

lemma mem_get_view: "mem_get k now s = Inr (mem_view s now k)"
  by (auto simp: mem_get_def mem_view_def split: option.splits)

lemma mem_call_refines:
  assumes "mem_ok s" "views_agree now s m" "mem_call c now s = (a, s')"
  shows "mem_ok s' \<and> (if a = Ans_Error Store_Full then views_agree now s' m
    else \<exists>m'. ttl_call c now m = (a, m') \<and> views_agree now s' m')"
proof (cases c)
  case (Call_SetNX k v ttl)
  obtain r s1 where r: "set_nx k v ttl now s = (r, s1)" by fastforce
  have keep: "views_agree now s1 m" if "r \<noteq> Inr True"
    using assms(2) set_nx_other [OF assms(1) r] that by (auto simp: views_agree_def)
  have agree: "views_agree now s1 (m(k \<mapsto> (v, now + ttl)))" if "r = Inr True"
    using assms(2) set_nx_other [OF assms(1) r] set_nx_true [OF assms(1)] r that
    by (auto simp: views_agree_def ttl_view_upd)
  consider (err) e where "r = Inl e" | (yes) "r = Inr True" | (no) "r = Inr False"
    by (metis sum.exhaust)
  then show ?thesis
  proof cases
    case err
    then show ?thesis
      using Call_SetNX r assms(3) keep set_nx_ok [OF assms(1) r] set_nx_error [of k v ttl now s e s1] by auto
  next
    case yes
    then show ?thesis
      using Call_SetNX r assms agree set_nx_ok [OF assms(1) r] set_nx_true [OF assms(1), of k v ttl now s1]
      by (auto simp: views_agree_def)
  next
    case no
    then show ?thesis
      using Call_SetNX r assms keep set_nx_ok [OF assms(1) r] set_nx_false [OF assms(1), of k v ttl now s1]
      by (auto simp: views_agree_def)
  qed
next
  case (Call_Get k)
  then show ?thesis
    using assms by (auto simp: views_agree_def mem_get_view)
next
  case (Call_Set k v)
  obtain e s1 where e: "mem_set k v now s = (e, s1)" by fastforce
  have "views_agree now s1 (if ttl_view m now k = None then m else m(k \<mapsto> (v, snd (the (m k)))))"
    using assms(2) mem_set_view [OF e]
    by (auto simp: views_agree_def ttl_view_upd) (auto simp: ttl_view_def split: option.splits if_splits)
  then show ?thesis
    using Call_Set e assms(3) mem_set_no_error [OF e] mem_set_ok [OF assms(1) e] by auto
next
  case (Call_Delete k)
  then show ?thesis
    using assms by (auto simp: mem_delete_def delete_ok views_agree_def delete_view ttl_view_del)
qed

lemma mem_run_refines:
  assumes "mem_ok s" "views_agree t0 s m" "sorted (map fst cs)" "\<forall>(t, c) \<in> set cs. t0 \<le> t"
    and "mem_run cs s = (as, s')"
  shows "mem_ok s' \<and> as = ttl_run cs as m"
  using assms
proof (induction cs arbitrary: s m t0 as s')
  case (Cons tc cs)
  obtain now c where tc: "tc = (now, c)" by fastforce
  obtain a s1 where a: "mem_call c now s = (a, s1)" by fastforce
  obtain as1 s2 where r: "mem_run cs s1 = (as1, s2)" by fastforce
  have as: "as = a # as1" "s' = s2" using Cons.prems(5) tc a r by auto
  have agree: "views_agree now s m"
    using Cons.prems(2,4) tc by (auto intro: views_agree_later)
  have later: "\<forall>(t, c) \<in> set cs. now \<le> t" "sorted (map fst cs)"
    using Cons.prems(3) tc by auto
  note call = mem_call_refines [OF Cons.prems(1) agree a]
  show ?case
  proof (cases "a = Ans_Error Store_Full")
    case True
    then show ?thesis
      using Cons.IH [OF _ _ later(2,1) r, of m] call as tc by auto
  next
    case False
    then obtain m' where "ttl_call c now m = (a, m')" "views_agree now s1 m'" using call by auto
    then show ?thesis
      using Cons.IH [OF _ _ later(2,1) r, of m'] call as tc False by auto
  qed
qed simp

lemma sweep_full:
  assumes "mem_ok s" "full (sweep now s)" "sweep_throttle \<le> time_sub now (ms_last_sweep s)"
  shows "int (length (filter (\<lambda>(k, e). live now e) (ms_entries (sweep now s)))) = ms_max s"
  using assms sweep_ok [OF assms(1), of now] by (auto simp: sweep_def full_def mem_ok_def)

lemma set_nx_refused:
  assumes "mem_ok s" "set_nx k v ttl now s = (Inl e, s')"
    and "sweep_throttle \<le> time_sub now (ms_last_sweep s)"
  shows "int (length (filter (\<lambda>(k, e). live now e) (ms_entries s'))) = ms_max s"
proof -
  have ins: "int (length (filter (\<lambda>(k, e). live now e) (ms_entries s'))) = ms_max s1"
    if "mem_ok s1" "insert_nx k v ttl now s1 = (Inl e, s')" "ms_last_sweep s1 = ms_last_sweep s" for s1
    using that assms(3) sweep_full [of s1 now] by (auto simp: insert_nx_def Let_def split: if_splits)
  show ?thesis
    by (cases rule: set_nx_cases [of s k now v ttl])
      (use assms ins [of s] ins [OF delete_ok [OF assms(1)], of k] in auto)
qed

lemma new_memory_store_ok: "mem_ok (new_memory_store n)"
  by (simp add: mem_ok_def new_memory_store_def default_max_records_def pos_or_default_def)

lemma new_memory_store_view: "views_agree t (new_memory_store n) (\<lambda>k. None)"
  by (simp add: views_agree_def mem_view_def ttl_view_def new_memory_store_def)

text \<open>C20: MemoryStore refines an expiring map. For every sequence of calls at
  non-decreasing clock readings on a fresh store, every answer is the one an ideal,
  unbounded map with per-key expiry gives, where the only exceptions are SetNX calls refused
  for capacity, which change nothing; the store never holds more than its cap; and a refusal
  when a sweep is due means the cap is reached by live records alone (none is ever evicted).\<close>

theorem memory_store_refines:
  assumes "sorted (map fst cs)"
    and "mem_run cs (new_memory_store n) = (as, s)"
  shows "as = ttl_run cs as (\<lambda>k. None) \<and> int (length (ms_entries s)) \<le> ms_max s \<and>
    (set_nx k v ttl now s = (Inl e, s') \<and> sweep_throttle \<le> time_sub now (ms_last_sweep s) \<longrightarrow>
      e = Store_Full \<and> int (length (filter (\<lambda>(k, e). live now e) (ms_entries s'))) = ms_max s)"
proof -
  have first: "\<forall>(t, c) \<in> set cs. fst (hd cs) \<le> t"
    using assms(1) by (cases cs) auto
  note run = mem_run_refines [OF new_memory_store_ok new_memory_store_view assms(1) first assms(2)]
  from run have ok: "mem_ok s" by simp
  have "set_nx k v ttl now s = (Inl e, s') \<and> sweep_throttle \<le> time_sub now (ms_last_sweep s)
      \<longrightarrow> e = Store_Full \<and> int (length (filter (\<lambda>(k, e). live now e) (ms_entries s'))) = ms_max s"
    using set_nx_error set_nx_refused [OF ok] by metis
  with run ok show ?thesis by (auto simp: mem_ok_def)
qed

lemma memory_store_refines_witness:
  "fst (mem_run [(10, Call_SetNX ''a'' (1 :: nat) 5), (11, Call_SetNX ''b'' 2 5), (14, Call_Get ''a'')]
      (new_memory_store 1)) = [Ans_Claim True, Ans_Error Store_Full, Ans_Value (Some 1)] \<and>
   ttl_run [(10, Call_SetNX ''a'' (1 :: nat) 5), (11, Call_SetNX ''b'' 2 5), (14, Call_Get ''a'')]
      [Ans_Claim True, Ans_Error Store_Full, Ans_Value (Some 1)] (\<lambda>k. None) =
    [Ans_Claim True, Ans_Error Store_Full, Ans_Value (Some 1)]"
  (is "fst (mem_run ?cs _) = ?as \<and> ttl_run ?cs ?as _ = ?as")
proof -
  have run: "fst (mem_run ?cs (new_memory_store 1)) = ?as" by code_simp
  then obtain s where s: "mem_run ?cs (new_memory_store 1) = (?as, s)" by (metis prod.collapse)
  have "?as = ttl_run ?cs ?as (\<lambda>k. None)"
    by (rule memory_store_refines [THEN conjunct1, OF _ s]) simp
  with run show ?thesis by simp
qed

end
