(* ===== verification/Idempotency.thy ===== *)
theory Idempotency
  imports HttpBase MemStore Base64
begin

text \<open>
  The middleware of \<^verbatim>\<open>src/httpx/middleware/idempotency.go\<close>. The store is reached through the
  operations \<open>kv_ops\<close> of \<open>MemStore\<close>, so the proofs rest on the contract \<open>kv_store\<close> and hold
  for every store that keeps it; the interpretation on \<^verbatim>\<open>MemoryStore\<close> is in \<open>MemStore\<close>.
  Stored values are the JSON documents \<^verbatim>\<open>json.Marshal\<close> produces for a \<^verbatim>\<open>record\<close>, as trees
  (\<open>json\<close>), or text that is no JSON (\<open>Garbage\<close>). SHA-256 is an argument (\<open>hash\<close>), the error
  writer a field of the configuration.

  \<open>idem_serve\<close> is one request alone. \<open>idem_step\<close> interleaves any number of them: each does its
  claim, its handler, its final store call and its duplicate lookup as separate steps, with a
  clock that advances in between and the clock reading of a claim possibly stale.
\<close>

section \<open>Records and their JSON form\<close>

datatype json = JNull | JBool bool | JNum int | JStr string | JArr "json list"
  | JObj "(string \<times> json) list"

datatype stored = Document json | Garbage

datatype duplicate_policy = Replay | Reject

record idem_record =
  ir_fingerprint :: string
  ir_in_flight :: bool
  ir_status :: int
  ir_header :: header
  ir_body :: string

definition zero_record :: idem_record where
  "zero_record = \<lparr>ir_fingerprint = [], ir_in_flight = False, ir_status = 0, ir_header = [], ir_body = []\<rparr>"

definition json_text :: "string \<Rightarrow> string" where
  \<comment> \<open>\<^verbatim>\<open>encoding/json\<close> replaces invalid UTF-8 by U+FFFD\<close>
  "json_text s = utf8 (runes s)"

definition json_bytes :: "string \<Rightarrow> json" where
  "json_bytes b = JStr (b64_encode True b)"

definition marshal_header :: "header \<Rightarrow> json" where
  "marshal_header h = JObj (map (\<lambda>(k, vs). (json_text k, JArr (map (\<lambda>v. JStr (json_text v)) vs))) h)"

definition marshal_record :: "idem_record \<Rightarrow> stored" where
  "marshal_record r = Document (JObj
     ([(''fp'', json_bytes (ir_fingerprint r))]
      @ (if ir_in_flight r then [(''in_flight'', JBool True)] else [])
      @ (if ir_status r \<noteq> 0 then [(''status'', JNum (ir_status r))] else [])
      @ (if ir_header r \<noteq> [] then [(''header'', marshal_header (ir_header r))] else [])
      @ (if ir_body r \<noteq> [] then [(''body'', json_bytes (ir_body r))] else [])))"

fun unmarshal_bytes :: "json \<Rightarrow> string option" where
  "unmarshal_bytes JNull = Some []"
| "unmarshal_bytes (JStr s) = b64_decode True False s"
| "unmarshal_bytes _ = None"

fun unmarshal_strings :: "json list \<Rightarrow> string list option" where
  "unmarshal_strings [] = Some []"
| "unmarshal_strings (JStr s # xs) = map_option ((#) s) (unmarshal_strings xs)"
| "unmarshal_strings (JNull # xs) = map_option ((#) []) (unmarshal_strings xs)"
| "unmarshal_strings (_ # xs) = None"

fun unmarshal_header :: "(string \<times> json) list \<Rightarrow> header \<Rightarrow> header option" where
  "unmarshal_header [] h = Some h"
| "unmarshal_header ((k, JArr xs) # fs) h =
     (case unmarshal_strings xs of None \<Rightarrow> None | Some vs \<Rightarrow> unmarshal_header fs (AList.update k vs h))"
| "unmarshal_header ((k, JNull) # fs) h = unmarshal_header fs (AList.update k [] h)"
| "unmarshal_header ((k, _) # fs) h = None"

fun unmarshal_field :: "string \<Rightarrow> json \<Rightarrow> idem_record \<Rightarrow> idem_record option" where
  "unmarshal_field k v r =
     (if equal_fold_ascii k ''fp'' then map_option (\<lambda>b. r\<lparr>ir_fingerprint := b\<rparr>) (unmarshal_bytes v)
      else if equal_fold_ascii k ''in_flight'' then
        (case v of JBool b \<Rightarrow> Some (r\<lparr>ir_in_flight := b\<rparr>) | JNull \<Rightarrow> Some r | _ \<Rightarrow> None)
      else if equal_fold_ascii k ''status'' then
        (case v of JNum n \<Rightarrow> if - (2 ^ 63) \<le> n \<and> n < 2 ^ 63 then Some (r\<lparr>ir_status := n\<rparr>) else None
         | JNull \<Rightarrow> Some r | _ \<Rightarrow> None)
      else if equal_fold_ascii k ''header'' then
        (case v of JObj fs \<Rightarrow> map_option (\<lambda>h. r\<lparr>ir_header := h\<rparr>) (unmarshal_header fs (ir_header r))
         | JNull \<Rightarrow> Some (r\<lparr>ir_header := []\<rparr>) | _ \<Rightarrow> None)
      else if equal_fold_ascii k ''body'' then map_option (\<lambda>b. r\<lparr>ir_body := b\<rparr>) (unmarshal_bytes v)
      else Some r)"

declare unmarshal_field.simps [simp del]

fun unmarshal_fields :: "(string \<times> json) list \<Rightarrow> idem_record \<Rightarrow> idem_record option" where
  "unmarshal_fields [] r = Some r"
| "unmarshal_fields ((k, v) # fs) r =
     (case unmarshal_field k v r of None \<Rightarrow> None | Some r' \<Rightarrow> unmarshal_fields fs r')"

definition unmarshal_record :: "stored \<Rightarrow> idem_record option" where
  "unmarshal_record v =
     (case v of Document (JObj fs) \<Rightarrow> unmarshal_fields fs zero_record
      | Document JNull \<Rightarrow> Some zero_record
      | _ \<Rightarrow> None)"

section \<open>Configuration\<close>

record idem_config =
  ic_prefix :: string
  ic_header :: string
  ic_methods :: "string list option"
  ic_ttl :: duration
  ic_required :: bool
  ic_max_body :: int
  ic_max_request_body :: int
  ic_policy :: duplicate_policy
  ic_in_flight_status :: int
  ic_mismatch_status :: int
  ic_reject_status :: int
  ic_error_writer :: error_writer

definition default_idempotency_header :: string where
  "default_idempotency_header = ''Idempotency-Key''"

definition default_idempotency_ttl :: duration where
  "default_idempotency_ttl = 24 * 3600 * second"

definition default_idempotency_max_body :: int where
  "default_idempotency_max_body = 2 ^ 20"

definition default_status :: "int \<Rightarrow> int \<Rightarrow> int" where
  "default_status status fallback = (if status = 0 then fallback else status)"

definition idempotency :: "idem_config \<Rightarrow> idem_config" where
  "idempotency cfg = cfg\<lparr>
     ic_header := (if ic_header cfg = [] then default_idempotency_header else ic_header cfg),
     ic_methods := Some (case ic_methods cfg of None \<Rightarrow> [''POST''] | Some ms \<Rightarrow> map (map ascii_upper) ms),
     ic_ttl := pos_or_default (ic_ttl cfg) default_idempotency_ttl,
     ic_max_body := pos_or_default (ic_max_body cfg) default_idempotency_max_body,
     ic_max_request_body := pos_or_default (ic_max_request_body cfg) default_idempotency_max_body,
     ic_in_flight_status := default_status (ic_in_flight_status cfg) 409,
     ic_mismatch_status := default_status (ic_mismatch_status cfg) 422,
     ic_reject_status := default_status (ic_reject_status cfg) 409\<rparr>"

section \<open>The parts of the handler\<close>

definition NUL :: char where
  "NUL = char_of (0 :: nat)"

definition fingerprint_input :: "string \<Rightarrow> string \<Rightarrow> string \<Rightarrow> string" where
  "fingerprint_input m uri body = m @ [NUL] @ uri @ [NUL] @ body"

definition fingerprint :: "(string \<Rightarrow> string) \<Rightarrow> string \<Rightarrow> string \<Rightarrow> string \<Rightarrow> string" where
  "fingerprint hash m uri body = hash (fingerprint_input m uri body)"

definition per_response_headers :: "string list" where
  "per_response_headers = [''Connection'', ''Keep-Alive'', ''Proxy-Authenticate'',
     ''Proxy-Authorization'', ''Te'', ''Trailer'', ''Transfer-Encoding'', ''Upgrade'', ''Date'',
     ''Content-Length'']"

definition storable_header :: "header \<Rightarrow> header" where
  "storable_header h = filter (\<lambda>(k, vs). canonical_key k \<notin> set per_response_headers) h"

definition put_header :: "header \<Rightarrow> header \<Rightarrow> header" where
  "put_header stored h = foldl (\<lambda>h (k, vs). AList.update k vs h) h stored"

definition replay_response :: "idem_record \<Rightarrow> writer \<Rightarrow> writer" where
  "replay_response rec w =
     (let w1 = on_header (header_set ''Idempotency-Replayed'' ''true'' \<circ> put_header (ir_header rec)) w
      in write_body (ir_body rec) (write_header (ir_status rec) w1))"

record capture_writer =
  cw_writer :: writer
  cw_status :: int
  cw_body :: string
  cw_max :: int
  cw_truncated :: bool

definition cw_new :: "int \<Rightarrow> writer \<Rightarrow> capture_writer" where
  "cw_new m w = \<lparr>cw_writer = w, cw_status = 0, cw_body = [], cw_max = m, cw_truncated = False\<rparr>"

definition cw_write_header :: "int \<Rightarrow> capture_writer \<Rightarrow> capture_writer" where
  "cw_write_header st c =
     (let c1 = (if cw_status c = 0 \<and> 200 \<le> st then c\<lparr>cw_status := st\<rparr> else c)
      in c1\<lparr>cw_writer := write_header st (cw_writer c1)\<rparr>)"

definition cw_write :: "string \<Rightarrow> capture_writer \<Rightarrow> capture_writer" where
  "cw_write b c =
     (let c1 = (if cw_status c = 0 then c\<lparr>cw_status := 200\<rparr> else c);
          c2 = (if cw_truncated c1 then c1
                else if int (length b) \<le> cw_max c1 - int (length (cw_body c1))
                then c1\<lparr>cw_body := cw_body c1 @ b\<rparr> else c1\<lparr>cw_truncated := True\<rparr>)
      in c2\<lparr>cw_writer := write_body b (cw_writer c2)\<rparr>)"

fun cw_act :: "capture_writer \<Rightarrow> action \<Rightarrow> capture_writer" where
  "cw_act c (WriteHeader st) = cw_write_header st c"
| "cw_act c (Write b) = cw_write b c"
| "cw_act c a = c\<lparr>cw_writer := on_header (header_action a) (cw_writer c)\<rparr>"

definition cw_run :: "action list \<Rightarrow> capture_writer \<Rightarrow> capture_writer" where
  "cw_run as c = foldl cw_act c as"

datatype idem_entry = Pass request | Refuse int string | Enter string string request

definition idem_enter :: "(string \<Rightarrow> string) \<Rightarrow> idem_config \<Rightarrow> request \<Rightarrow> idem_entry" where
  "idem_enter hash it r =
     (if rq_method r \<notin> set (the (ic_methods it)) then Pass r
      else let key = header_get (rq_header r) (ic_header it) in
        if key = [] then
          (if ic_required it then Refuse 400 (''missing '' @ ic_header it @ '' header'') else Pass r)
        else case read_all (max_bytes_reader (ic_max_request_body it) r) of
          Inl Body_Too_Large \<Rightarrow> Refuse 413 ''request body exceeds the idempotency fingerprint cap''
        | Inl Body_Read_Failed \<Rightarrow> Refuse 400 ''reading request body failed''
        | Inr body \<Rightarrow>
            Enter (ic_prefix it @ key) (fingerprint hash (rq_method r) (rq_uri r) body)
              (r\<lparr>rq_body := body, rq_body_fails := False, rq_body_cap := None\<rparr>))"

definition claim_record :: "string \<Rightarrow> idem_record" where
  "claim_record fp = zero_record\<lparr>ir_fingerprint := fp, ir_in_flight := True\<rparr>"

definition response_record :: "string \<Rightarrow> capture_writer \<Rightarrow> idem_record" where
  "response_record fp c = \<lparr>ir_fingerprint = fp, ir_in_flight = False,
     ir_status = (if cw_status c = 0 then 200 else cw_status c),
     ir_header = storable_header (wr_header (cw_writer c)), ir_body = cw_body c\<rparr>"

definition idem_claim :: "('s, stored) kv_ops \<Rightarrow> idem_config \<Rightarrow> string \<Rightarrow> string \<Rightarrow> instant \<Rightarrow> 's \<Rightarrow>
    (store_error + bool) \<times> 's" where
  "idem_claim ops it key fp now s = op_setnx ops key (marshal_record (claim_record fp)) (ic_ttl it) now s"

definition released :: "outcome \<Rightarrow> capture_writer \<Rightarrow> bool" where
  "released oc c \<longleftrightarrow> oc \<noteq> Returned \<or> 500 \<le> (if cw_status c = 0 then 200 else cw_status c) \<or> cw_truncated c"

definition idem_finish :: "('s, stored) kv_ops \<Rightarrow> string \<Rightarrow> string \<Rightarrow> instant \<Rightarrow> outcome \<Rightarrow>
    capture_writer \<Rightarrow> 's \<Rightarrow> 's" where
  "idem_finish ops key fp now oc c s =
     (if released oc c then snd (op_delete ops key now s)
      else snd (op_set ops key (marshal_record (response_record fp c)) now s))"

datatype dup_answer = Dup_Error int string | Dup_Replay idem_record

definition resolve_duplicate :: "idem_config \<Rightarrow> string \<Rightarrow> (store_error + stored option) \<Rightarrow> dup_answer" where
  "resolve_duplicate it fp got =
     (case got of
        Inl e \<Rightarrow> Dup_Error 503 ''idempotency store unavailable''
      | Inr None \<Rightarrow> Dup_Error (ic_in_flight_status it) ''original request still in progress''
      | Inr (Some v) \<Rightarrow>
          (case unmarshal_record v of
             None \<Rightarrow> Dup_Error 503 ''idempotency record corrupted''
           | Some rec \<Rightarrow>
               if ir_fingerprint rec \<noteq> fp then
                 Dup_Error (ic_mismatch_status it) ''idempotency key reused with a different request''
               else if ir_in_flight rec then
                 Dup_Error (ic_in_flight_status it) ''original request still in progress''
               else if ic_policy it = Reject then
                 Dup_Error (ic_reject_status it) ''request already completed''
               else Dup_Replay rec))"

definition answer_duplicate :: "('s, stored) kv_ops \<Rightarrow> idem_config \<Rightarrow> request \<Rightarrow> string \<Rightarrow> string \<Rightarrow>
    instant \<Rightarrow> 's \<Rightarrow> writer \<Rightarrow> writer" where
  "answer_duplicate ops it r key fp now s w =
     (case resolve_duplicate it fp (op_get ops key now s) of
        Dup_Error st d \<Rightarrow> ic_error_writer it r st d w
      | Dup_Replay rec \<Rightarrow> replay_response rec w)"

definition idem_serve :: "(string \<Rightarrow> string) \<Rightarrow> ('s, stored) kv_ops \<Rightarrow> idem_config \<Rightarrow>
    (request \<Rightarrow> handler_run) \<Rightarrow> request \<Rightarrow> instant \<Rightarrow> instant \<Rightarrow> 's \<Rightarrow> writer \<Rightarrow> writer \<times> outcome \<times> 's" where
  \<comment> \<open>\<open>t1\<close> is the clock at the claim, \<open>t2\<close> at the store call that follows it\<close>
  "idem_serve hash ops it next r t1 t2 s w =
     (case idem_enter hash it r of
        Pass r' \<Rightarrow> (let (as, oc) = next r' in (run_actions as w, oc, s))
      | Refuse st d \<Rightarrow> (ic_error_writer it r st d w, Returned, s)
      | Enter key fp r' \<Rightarrow>
          (case idem_claim ops it key fp t1 s of
             (Inl e, s1) \<Rightarrow> (ic_error_writer it r' 503 ''idempotency store unavailable'' w, Returned, s1)
           | (Inr False, s1) \<Rightarrow> (answer_duplicate ops it r' key fp t2 s1 w, Returned, s1)
           | (Inr True, s1) \<Rightarrow>
               (let (as, oc) = next r'; c = cw_run as (cw_new (ic_max_body it) w)
                in (cw_writer c, oc, idem_finish ops key fp t2 oc c s1))))"

section \<open>The stored record reads back\<close>

definition clean_header :: "header \<Rightarrow> header" where
  "clean_header h = map (\<lambda>(k, vs). (json_text k, map json_text vs)) h"

lemma unmarshal_bytes_json [simp]: "unmarshal_bytes (json_bytes b) = Some b"
  by (simp add: json_bytes_def)

lemma unmarshal_strings_json [simp]: "unmarshal_strings (map (\<lambda>v. JStr (f v)) vs) = Some (map f vs)"
  by (induction vs) auto

lemma unmarshal_header_json:
  "distinct (map (json_text \<circ> fst) h) \<Longrightarrow> (\<forall>k \<in> set (map (json_text \<circ> fst) h). k \<notin> fst ` set acc) \<Longrightarrow>
    unmarshal_header (map (\<lambda>(k, vs). (json_text k, JArr (map (\<lambda>v. JStr (json_text v)) vs))) h) acc =
      Some (acc @ clean_header h)"
proof (induction h arbitrary: acc)
  case (Cons kv h)
  obtain k vs where kv: "kv = (k, vs)" by fastforce
  have new: "AList.update (json_text k) vs' acc = acc @ [(json_text k, vs')]" for vs'
    using Cons.prems(2) kv by (simp add: AList_update_new)
  have fresh: "\<forall>ka \<in> set h. json_text (fst ka) \<noteq> json_text k"
    using Cons.prems(1) kv by force
  show ?case
    using fresh Cons.prems Cons.IH [of "acc @ [(json_text k, map json_text vs)]"]
    by (auto simp: kv new clean_header_def)
qed (simp add: clean_header_def)

lemma fold_names:
  "equal_fold_ascii ''fp'' ''fp''" "equal_fold_ascii ''in_flight'' ''in_flight''"
  "equal_fold_ascii ''status'' ''status''" "equal_fold_ascii ''header'' ''header''"
  "equal_fold_ascii ''body'' ''body''" "\<not> equal_fold_ascii ''in_flight'' ''fp''"
  "\<not> equal_fold_ascii ''status'' ''fp''" "\<not> equal_fold_ascii ''status'' ''in_flight''"
  "\<not> equal_fold_ascii ''header'' ''fp''" "\<not> equal_fold_ascii ''header'' ''in_flight''"
  "\<not> equal_fold_ascii ''header'' ''status''" "\<not> equal_fold_ascii ''body'' ''fp''"
  "\<not> equal_fold_ascii ''body'' ''in_flight''" "\<not> equal_fold_ascii ''body'' ''status''"
  "\<not> equal_fold_ascii ''body'' ''header''"
  by (simp_all add: equal_fold_ascii_def ascii_lower_def is_upper_def)

lemma unmarshal_marshal:
  assumes "distinct (map (json_text \<circ> fst) (ir_header r))"
    and "- (2 ^ 63) \<le> ir_status r" "ir_status r < 2 ^ 63"
  shows "unmarshal_record (marshal_record r) = Some (r\<lparr>ir_header := clean_header (ir_header r)\<rparr>)"
proof -
  obtain fs where fs: "marshal_header (ir_header r) = JObj fs"
      "unmarshal_header fs [] = Some (clean_header (ir_header r))"
    using unmarshal_header_json [OF assms(1), of "[]"] by (simp add: marshal_header_def)
  have "clean_header [] = []" by (simp add: clean_header_def)
  then show ?thesis
    using assms(2,3) fs
    by (cases r) (auto simp: unmarshal_record_def marshal_record_def unmarshal_field.simps fold_names
      zero_record_def)
qed

lemma unmarshal_claim: "unmarshal_record (marshal_record (claim_record fp)) = Some (claim_record fp)"
  by (subst unmarshal_marshal) (auto simp: claim_record_def zero_record_def clean_header_def)

lemma claim_record_simps [simp]:
  "ir_fingerprint (claim_record fp) = fp" "ir_in_flight (claim_record fp)"
  by (simp_all add: claim_record_def zero_record_def)

lemma response_record_simps [simp]:
  "ir_fingerprint (response_record fp c) = fp" "\<not> ir_in_flight (response_record fp c)"
  by (simp_all add: response_record_def)

lemma marshal_in_flight:
  "marshal_record a = marshal_record b \<Longrightarrow> ir_fingerprint a = ir_fingerprint b \<and> (ir_in_flight a \<longleftrightarrow> ir_in_flight b)"
proof -
  assume eq: "marshal_record a = marshal_record b"
  then have "json_bytes (ir_fingerprint a) = json_bytes (ir_fingerprint b)"
    by (simp add: marshal_record_def)
  then have "ir_fingerprint a = ir_fingerprint b"
    by (metis option.inject unmarshal_bytes_json)
  with eq show ?thesis
    by (auto simp: marshal_record_def split: if_splits)
qed

section \<open>What the capture writer keeps\<close>

text \<open>Without a switch to another protocol (101), the captured status is the one sent, and the
  captured body is the whole body as long as it fits.\<close>

definition cw_inv :: "capture_writer \<Rightarrow> bool" where
  "cw_inv c \<longleftrightarrow> cw_status c = wr_status (cw_writer c) \<and>
     int (length (cw_body c)) \<le> cw_max c \<and>
     (\<not> cw_truncated c \<longrightarrow> cw_body c = wr_body (cw_writer c)) \<and>
     (cw_truncated c \<longrightarrow> cw_max c < int (length (wr_body (cw_writer c)))) \<and> (wr_body (cw_writer c) \<noteq> [] \<longrightarrow> wr_status (cw_writer c) \<noteq> 0)"

definition plain_action :: "action \<Rightarrow> bool" where
  "plain_action a = (case a of WriteHeader st \<Rightarrow> 100 \<le> st \<and> st \<noteq> 101 | _ \<Rightarrow> True)"

lemma cw_act_writer: "cw_writer (cw_act c a) = act (cw_writer c) a"
  by (cases a) (auto simp: cw_write_header_def cw_write_def Let_def)

lemma cw_run_writer: "cw_writer (cw_run as c) = run_actions as (cw_writer c)"
  unfolding cw_run_def run_actions_def
  by (induction as arbitrary: c) (auto simp: cw_act_writer)

lemma cw_act_max [simp]: "cw_max (cw_act c a) = cw_max c"
  by (cases a) (auto simp: cw_write_header_def cw_write_def Let_def)

lemma cw_act_inv: "cw_inv c \<Longrightarrow> plain_action a \<Longrightarrow> cw_inv (cw_act c a)"
proof (cases a)
  case (WriteHeader st)
  assume "cw_inv c" "plain_action a"
  with WriteHeader show ?thesis
    by (auto simp: cw_inv_def plain_action_def cw_write_header_def write_header_def Let_def)
next
  case (Write b)
  assume "cw_inv c"
  with Write show ?thesis
    by (cases "cw_status c = 0")
      (auto simp: cw_inv_def cw_write_def write_body_def write_header_def Let_def)
qed (auto simp: cw_inv_def)

lemma cw_run_inv: "cw_inv c \<Longrightarrow> list_all plain_action as \<Longrightarrow> cw_inv (cw_run as c)"
  unfolding cw_run_def by (induction as arbitrary: c) (auto simp: cw_act_inv)

lemma cw_run_max [simp]: "cw_max (cw_run as c) = cw_max c"
  unfolding cw_run_def by (induction as arbitrary: c) auto

lemma cw_new_inv: "0 \<le> m \<Longrightarrow> wr_status w = 0 \<Longrightarrow> wr_body w = [] \<Longrightarrow> cw_inv (cw_new m w)"
  by (simp add: cw_inv_def cw_new_def)

section \<open>Stores that hold records\<close>

text \<open>The contract of \<open>MemStore\<close> at the values of this middleware; what the middleware relies on
  is derived from it once, here.\<close>

locale record_store = kv_store ops inv view
  for ops :: "('s, stored) kv_ops"
    and inv :: "'s \<Rightarrow> bool"
    and view :: "'s \<Rightarrow> instant \<Rightarrow> string \<Rightarrow> stored option"
begin

lemma claim_view:
  "inv s \<Longrightarrow> idem_claim ops it k fp now s = (Inr True, s') \<Longrightarrow>
    inv s' \<and> view s now k = None \<and>
    view s' t k = (if t < now + ic_ttl it then Some (marshal_record (claim_record fp)) else None)"
  unfolding idem_claim_def using setnx_stored setnx_inv by metis

lemma claim_other:
  "inv s \<Longrightarrow> idem_claim ops it k fp now s = (r, s') \<Longrightarrow> r \<noteq> Inr True \<or> k' \<noteq> k \<Longrightarrow> now \<le> t \<Longrightarrow>
    inv s' \<and> view s' t k' = view s t k'"
  unfolding idem_claim_def using setnx_other setnx_inv by metis

lemma finish_inv: "inv s \<Longrightarrow> inv (idem_finish ops k fp now oc c s)"
  unfolding idem_finish_def
  by (cases "op_delete ops k now s"; cases "op_set ops k (marshal_record (response_record fp c)) now s")
    (auto dest: delete_inv set_inv)

lemma finish_other: "inv s \<Longrightarrow> k' \<noteq> k \<Longrightarrow> view (idem_finish ops k fp now oc c s) t k' = view s t k'"
  unfolding idem_finish_def
  by (cases "op_delete ops k now s"; cases "op_set ops k (marshal_record (response_record fp c)) now s")
    (auto dest: delete_other set_other)

text \<open>What the final store call leaves under the key: the old value, nothing, or the response.\<close>

lemma finish_view:
  assumes "inv s" "view (idem_finish ops k fp now oc c s) t k = Some v"
  shows "view s t k = Some v \<or> (\<not> released oc c \<and> v = marshal_record (response_record fp c) \<and> view s t k \<noteq> None)"
proof (cases "released oc c")
  case True
  obtain e s' where d: "op_delete ops k now s = (e, s')" by fastforce
  then show ?thesis
    using True assms delete_gone [OF assms(1), of k now s' t] delete_failed [OF assms(1), of k now _ s' t]
    by (cases e) (auto simp: idem_finish_def)
next
  case False
  obtain e s' where d: "op_set ops k (marshal_record (response_record fp c)) now s = (e, s')" by fastforce
  show ?thesis
  proof (cases "e = None \<and> view s now k \<noteq> None")
    case True
    then have "view s' t k = (if view s t k = None then None else Some (marshal_record (response_record fp c)))"
      using set_live [OF assms(1)] d by auto
    then show ?thesis using False assms(2) d by (auto simp: idem_finish_def split: if_splits)
  next
    case no: False
    then have "view s' t k = view s t k"
      using set_none [OF assms(1) d] by auto
    then show ?thesis using False assms(2) d by (auto simp: idem_finish_def)
  qed
qed

lemma finish_keeps:
  assumes "inv s" "\<not> released oc c" "view s t k \<noteq> None"
  shows "view (idem_finish ops k fp now oc c s) t k \<noteq> None"
proof -
  obtain e s' where d: "op_set ops k (marshal_record (response_record fp c)) now s = (e, s')" by fastforce
  show ?thesis
    using set_live [OF assms(1), of k _ now s' t] set_none [OF assms(1) d, of t] d assms(2,3)
    by (cases "e = None \<and> view s now k \<noteq> None") (auto simp: idem_finish_def)
qed

text \<open>A claim, then the response stored while the claim lives: a later lookup reads the response.\<close>

lemma lookup_after_response:
  assumes "inv s" "idem_claim ops it k fp t1 s = (Inr True, s1)" "\<not> released oc c"
    and "op_set ops k (marshal_record (response_record fp c)) t2 s1 = (None, s2)"
    and "t2 < t1 + ic_ttl it" "t4 < t1 + ic_ttl it" "op_get ops k t4 s2 = Inr g"
  shows "g = Some (marshal_record (response_record fp c))"
  using get_after_set [OF assms(1) assms(2) [unfolded idem_claim_def] assms(4,5,7)] assms(6) by simp

lemma lookup_in_flight:
  assumes "inv s" "idem_claim ops it k fp t1 s = (Inr True, s1)"
    and "t4 < t1 + ic_ttl it" "op_get ops k t4 s1 = Inr g"
  shows "g = Some (marshal_record (claim_record fp))"
  using get_after_claim [OF assms(1) assms(2) [unfolded idem_claim_def] assms(4)] assms(3) by simp

lemma claim_taken:
  assumes "inv s" "view s now k \<noteq> None" "idem_claim ops it k fp now s = (r, s')"
  shows "r \<noteq> Inr True"
  using assms setnx_stored [OF assms(1), of k _ _ now] unfolding idem_claim_def by fastforce

end

interpretation mem_rec: record_store mem_ops mem_ok mem_view
  by unfold_locales

section \<open>Fingerprints\<close>

lemma fingerprint_input_inj:
  assumes "fingerprint_input m u b = fingerprint_input m' u' b'"
    and "NUL \<notin> set m" "NUL \<notin> set m'" "NUL \<notin> set u" "NUL \<notin> set u'"
  shows "m = m' \<and> u = u' \<and> b = b'"
proof -
  have 1: "split_on NUL (m @ NUL # x) = m # split_on NUL x" "split_on NUL (m' @ NUL # x) = m' # split_on NUL x"
    "split_on NUL (u @ NUL # x) = u # split_on NUL x" "split_on NUL (u' @ NUL # x) = u' # split_on NUL x" for x
    using assms(2-) by (auto intro: split_on_append_sep)
  have "split_on NUL (fingerprint_input m u b) = split_on NUL (fingerprint_input m' u' b')"
    by (simp only: assms(1))
  then have "m = m' \<and> u = u'"
    by (simp add: fingerprint_input_def 1)
  with assms(1) show ?thesis by (simp add: fingerprint_input_def)
qed

section \<open>A completed duplicate gets the original's response\<close>

lemma map_of_put_header:
  "distinct (map fst st) \<Longrightarrow> map_of (put_header st h) k = (case map_of st k of None \<Rightarrow> map_of h k | Some v \<Rightarrow> Some v)"
proof (induction st arbitrary: h)
  case (Cons kv st)
  obtain k' vs where kv: "kv = (k', vs)" by fastforce
  show ?case
    using Cons.prems Cons.IH [of "AList.update k' vs h"] kv
    by (auto simp: put_header_def update_conv' map_of_eq_None_iff image_iff split: option.splits)
qed (simp add: put_header_def)

definition plain_header :: "header \<Rightarrow> bool" where
  "plain_header h \<longleftrightarrow> distinct (map fst h) \<and>
     list_all (\<lambda>(k, vs). json_text k = k \<and> list_all (\<lambda>v. json_text v = v) vs) h"

lemma plain_storable:
  assumes "plain_header h"
  shows "distinct (map (json_text \<circ> fst) (storable_header h))"
    and "clean_header (storable_header h) = storable_header h"
    and "distinct (map fst (storable_header h))"
proof -
  have all: "json_text k = k" "map json_text vs = vs" if "(k, vs) \<in> set h" for k vs
    using assms that by (auto simp: plain_header_def list_all_iff intro!: map_idI)
  show d: "distinct (map fst (storable_header h))"
    using assms by (auto simp: storable_header_def plain_header_def distinct_map_fst_filter)
  have m: "map (json_text \<circ> fst) (storable_header h) = map fst (storable_header h)"
    using all(1) by (auto simp: storable_header_def)
  show "distinct (map (json_text \<circ> fst) (storable_header h))"
    unfolding m by (rule d)
  show "clean_header (storable_header h) = storable_header h"
    unfolding clean_header_def by (rule map_idI) (auto simp: storable_header_def all)
qed

lemma map_of_storable:
  "distinct (map fst h) \<Longrightarrow> map_of (storable_header h) k =
    (if canonical_key k \<in> set per_response_headers then None else map_of h k)"
proof (induction h)
  case (Cons kv h)
  then show ?case
    by (cases kv) (auto simp: storable_header_def map_of_eq_None_iff image_iff)
qed (simp add: storable_header_def)

lemma replay_header:
  assumes "plain_header h" "ir_header rec = storable_header h" "200 \<le> ir_status rec"
  shows "header_values (wr_sent (replay_response rec fresh_writer)) k =
    (if canonical_key k = canonical_key ''Idempotency-Replayed'' then [''true'']
     else if canonical_key k \<in> set per_response_headers then [] else header_values h k)"
proof -
  have d: "distinct (map fst h)" using assms(1) by (simp add: plain_header_def)
  have "wr_sent (replay_response rec fresh_writer) =
      header_set ''Idempotency-Replayed'' ''true'' (put_header (storable_header h) [])"
    using assms(2,3) by (simp add: replay_response_def write_body_def write_header_def Let_def
        fresh_writer_def on_header_def)
  then show ?thesis
    by (simp add: header_values_set)
      (simp add: header_values_def map_of_put_header [OF plain_storable(3) [OF assms(1)]] map_of_storable [OF d] split: option.splits)
qed

lemma replay_writer:
  "200 \<le> ir_status rec \<Longrightarrow> wr_status (replay_response rec fresh_writer) = ir_status rec \<and>
    wr_body (replay_response rec fresh_writer) = ir_body rec"
  by (auto simp: replay_response_def write_body_def write_header_def Let_def fresh_writer_def on_header_def)

lemma cw_run_start:
  assumes "list_all plain_action as" "0 \<le> m"
  defines "c \<equiv> cw_run as (cw_new m fresh_writer)"
  shows "cw_inv c" "cw_max c = m" "cw_writer c = run_actions as fresh_writer"
  using cw_run_inv [OF cw_new_inv [of m fresh_writer] assms(1)] assms(2)
  by (auto simp: c_def fresh_writer_def cw_new_def cw_run_writer)

lemma cw_act_status_range: "cw_status c = 0 \<or> 200 \<le> cw_status c \<Longrightarrow> cw_status (cw_act c a) = 0 \<or> 200 \<le> cw_status (cw_act c a)"
  by (cases a) (auto simp: cw_write_header_def cw_write_def Let_def)

lemma cw_run_status_range: "cw_status (cw_run as (cw_new m w)) = 0 \<or> 200 \<le> cw_status (cw_run as (cw_new m w))"
proof -
  have "cw_status c = 0 \<or> 200 \<le> cw_status c \<Longrightarrow>
      cw_status (cw_run as c) = 0 \<or> 200 \<le> cw_status (cw_run as c)" for c
    unfolding cw_run_def by (induction as arbitrary: c) (use cw_act_status_range in auto)
  then show ?thesis by (simp add: cw_new_def)
qed


definition demo_config :: idem_config where
  "demo_config = \<lparr>ic_prefix = ''p:'', ic_header = [], ic_methods = None, ic_ttl = 100, ic_required = False,
     ic_max_body = 9, ic_max_request_body = 9, ic_policy = Replay, ic_in_flight_status = 0,
     ic_mismatch_status = 0, ic_reject_status = 0, ic_error_writer = (\<lambda>r st d w. write_header st w)\<rparr>"

definition demo_request :: "string \<Rightarrow> request" where
  "demo_request body = \<lparr>rq_method = ''POST'', rq_uri = ''/a'', rq_path = ''/a'',
     rq_header = [(''Idempotency-Key'', [''k''])], rq_remote = [], rq_length = 0, rq_body = body,
     rq_body_fails = False, rq_body_cap = None, rq_ctx = []\<rparr>"

definition demo_handler :: "request \<Rightarrow> handler_run" where
  "demo_handler r = ([HSet ''X'' ''y'', WriteHeader 201, Write ''hi''], Returned)"

lemma demo_key: "header_get (rq_header (demo_request b)) (ic_header (idempotency demo_config)) = ''k''"
  by (simp add: demo_request_def idempotency_def demo_config_def default_idempotency_header_def header_get_def
    header_values_def canonical_key_def token_byte_def ascii_upper_def ascii_lower_def is_upper_def is_lower_def
    is_digit_def)

lemma demo_settings:
  "ic_methods (idempotency demo_config) = Some [''POST'']" "ic_ttl (idempotency demo_config) = 100"
  "ic_max_body (idempotency demo_config) = 9" "ic_max_request_body (idempotency demo_config) = 9"
  "ic_prefix (idempotency demo_config) = ''p:''" "ic_policy (idempotency demo_config) = Replay"
  "ic_mismatch_status (idempotency demo_config) = 422"
  "ic_error_writer (idempotency demo_config) = (\<lambda>r st d w. write_header st w)"
  by (simp_all add: idempotency_def demo_config_def pos_or_default_def default_status_def)

lemma demo_enter:
  "length b \<le> 9 \<Longrightarrow> idem_enter id (idempotency demo_config) (demo_request b) =
    Enter ''p:k'' (fingerprint_input ''POST'' ''/a'' b) (demo_request b)"
  by (simp add: idem_enter_def demo_key demo_settings)
    (simp add: demo_request_def read_all_def max_bytes_reader_def fingerprint_def demo_settings)

lemma demo_first:
  "fst (idem_serve id mem_ops (idempotency demo_config) demo_handler (demo_request ''b'') 5 6
      (new_memory_store 1) fresh_writer) =
    \<lparr>wr_header = [(''X'', [''y''])], wr_status = 201, wr_sent = [(''X'', [''y''])], wr_body = ''hi'', wr_info = []\<rparr>"
  by (simp add: idem_serve_def demo_enter demo_handler_def idem_claim_def mem_ops_def set_nx_def insert_nx_def
    new_memory_store_def full_def pos_or_default_def cw_run_def cw_new_def cw_write_header_def cw_write_def
    write_header_def write_body_def fresh_writer_def on_header_def header_set_def canonical_key_def
    token_byte_def is_upper_def is_lower_def is_digit_def ascii_upper_def demo_settings Let_def)


section \<open>Interleaved requests\<close>

text \<open>
  Any number of requests, numbered by \<open>nat\<close>, share one store. A request claims its key
  (\<open>claimed\<close>, \<open>taken\<close> or \<open>unavailable\<close>), and then either looks the record up (\<open>looked\<close>) or runs
  its handler and makes the final store call (\<open>finished\<close>). \<open>Running k fp t a\<close> and
  \<open>Kept k fp t a c\<close> record the clock reading \<open>t\<close> the claim used and the time \<open>a\<close> it was made.
  The ghost flag \<open>sy_overrun\<close> is set when a handler outlives the TTL of its own claim: the
  code does not fence the final store call, so the guarantees below are for runs without it.
\<close>

datatype phase = Idle | Looking string string | Running string string instant instant
  | Kept string string instant instant capture_writer | Released string string
  | Answered string string dup_answer | Unavailable

record 's idem_sys =
  sy_store :: 's
  sy_clock :: instant
  sy_phase :: "nat \<Rightarrow> phase"
  sy_overrun :: bool

abbreviation set_phase :: "nat \<Rightarrow> phase \<Rightarrow> 's idem_sys \<Rightarrow> 's idem_sys" where
  "set_phase i p y \<equiv> y\<lparr>sy_phase := (sy_phase y)(i := p)\<rparr>"

inductive idem_step :: "('s, stored) kv_ops \<Rightarrow> idem_config \<Rightarrow> 's idem_sys \<Rightarrow> 's idem_sys \<Rightarrow> bool"
  for ops it where
  tick: "sy_clock y \<le> t \<Longrightarrow> idem_step ops it y (y\<lparr>sy_clock := t\<rparr>)"
| claimed: "sy_phase y i = Idle \<Longrightarrow> now \<le> sy_clock y \<Longrightarrow>
    idem_claim ops it k fp now (sy_store y) = (Inr True, s') \<Longrightarrow>
    idem_step ops it y (set_phase i (Running k fp now (sy_clock y)) (y\<lparr>sy_store := s'\<rparr>))"
| taken: "sy_phase y i = Idle \<Longrightarrow> now \<le> sy_clock y \<Longrightarrow>
    idem_claim ops it k fp now (sy_store y) = (Inr False, s') \<Longrightarrow>
    idem_step ops it y (set_phase i (Looking k fp) (y\<lparr>sy_store := s'\<rparr>))"
| unavailable: "sy_phase y i = Idle \<Longrightarrow> now \<le> sy_clock y \<Longrightarrow>
    idem_claim ops it k fp now (sy_store y) = (Inl e, s') \<Longrightarrow>
    idem_step ops it y (set_phase i Unavailable (y\<lparr>sy_store := s'\<rparr>))"
| looked: "sy_phase y i = Looking k fp \<Longrightarrow>
    idem_step ops it y (set_phase i (Answered k fp
      (resolve_duplicate it fp (op_get ops k (sy_clock y) (sy_store y)))) y)"
| finished: "sy_phase y i = Running k fp t a \<Longrightarrow>
    idem_step ops it y (set_phase i (if released oc c then Released k fp else Kept k fp t a c)
      (y\<lparr>sy_store := idem_finish ops k fp (sy_clock y) oc c (sy_store y),
         sy_overrun := sy_overrun y \<or> t + ic_ttl it \<le> sy_clock y\<rparr>))"

inductive idem_reach :: "('s, stored) kv_ops \<Rightarrow> idem_config \<Rightarrow> 's idem_sys \<Rightarrow> 's idem_sys \<Rightarrow> bool"
  for ops it y0 where
  start: "idem_reach ops it y0 y0"
| step: "idem_reach ops it y0 y \<Longrightarrow> idem_step ops it y z \<Longrightarrow> idem_reach ops it y0 z"

definition idem_start :: "'s \<Rightarrow> instant \<Rightarrow> 's idem_sys" where
  "idem_start s t = \<lparr>sy_store = s, sy_clock = t, sy_phase = (\<lambda>i. Idle), sy_overrun = False\<rparr>"

definition executes :: "'s idem_sys \<Rightarrow> nat \<Rightarrow> string \<Rightarrow> instant \<Rightarrow> instant \<Rightarrow> bool" where
  \<comment> \<open>request \<open>i\<close> runs, or has run to a stored response, under key \<open>k\<close>\<close>
  "executes y i k t a =
     (case sy_phase y i of Running k' fp t' a' \<Rightarrow> k' = k \<and> t' = t \<and> a' = a
      | Kept k' fp t' a' c \<Rightarrow> k' = k \<and> t' = t \<and> a' = a | _ \<Rightarrow> False)"

lemma executes_set_phase:
  "executes (set_phase i p y) j k t a = (if j = i then executes (set_phase i p y) i k t a else executes y j k t a)"
  by (simp add: executes_def)

lemma executes_Running [simp]: "executes (set_phase i (Running k' fp t' a') y) i k t a \<longleftrightarrow> k' = k \<and> t' = t \<and> a' = a"
  by (simp add: executes_def)

lemma executes_Kept [simp]: "executes (set_phase i (Kept k' fp t' a' c) y) i k t a \<longleftrightarrow> k' = k \<and> t' = t \<and> a' = a"
  by (simp add: executes_def)

lemma executes_upd [simp]: "executes (y\<lparr>sy_store := s\<rparr>) = executes y" "executes (y\<lparr>sy_clock := t\<rparr>) = executes y"
    "executes (y\<lparr>sy_overrun := b\<rparr>) = executes y"
  by (simp_all add: executes_def fun_eq_iff)

definition times_ok :: "'s idem_sys \<Rightarrow> bool" where
  "times_ok y \<longleftrightarrow> (\<forall>i k t a. executes y i k t a \<longrightarrow> t \<le> a \<and> a \<le> sy_clock y)"

definition claims_held :: "idem_config \<Rightarrow> ('s \<Rightarrow> instant \<Rightarrow> string \<Rightarrow> stored option) \<Rightarrow> 's idem_sys \<Rightarrow> bool" where
  "claims_held it view y \<longleftrightarrow> (\<forall>i k t a t'. executes y i k t a \<longrightarrow> sy_clock y \<le> t' \<longrightarrow> t' < t + ic_ttl it \<longrightarrow>
     view (sy_store y) t' k \<noteq> None)"

definition apart :: "idem_config \<Rightarrow> 's idem_sys \<Rightarrow> bool" where
  "apart it y \<longleftrightarrow> (\<forall>i j k t a t' a'. executes y i k t a \<longrightarrow> executes y j k t' a' \<longrightarrow> i \<noteq> j \<longrightarrow>
     t + ic_ttl it \<le> a' \<or> t' + ic_ttl it \<le> a)"

definition values_known :: "('s \<Rightarrow> instant \<Rightarrow> string \<Rightarrow> stored option) \<Rightarrow> 's idem_sys \<Rightarrow> bool" where
  "values_known view y \<longleftrightarrow> (\<forall>t k v. sy_clock y \<le> t \<longrightarrow> view (sy_store y) t k = Some v \<longrightarrow>
     (\<exists>fp. v = marshal_record (claim_record fp)) \<or>
     (\<exists>j fp t0 a0 c. sy_phase y j = Kept k fp t0 a0 c \<and> v = marshal_record (response_record fp c)))"

definition replays_known :: "'s idem_sys \<Rightarrow> bool" where
  "replays_known y \<longleftrightarrow> (\<forall>i k fp rec. sy_phase y i = Answered k fp (Dup_Replay rec) \<longrightarrow>
     (\<exists>j t0 a0 c. sy_phase y j = Kept k fp t0 a0 c \<and>
        unmarshal_record (marshal_record (response_record fp c)) = Some rec))"

lemma unmarshal_marshal_parts:
  "unmarshal_record (marshal_record r) = Some rec \<Longrightarrow>
    ir_fingerprint rec = ir_fingerprint r \<and> ir_in_flight rec = ir_in_flight r \<and>
    ir_status rec = ir_status r \<and> ir_body rec = ir_body r"
proof -
  assume u: "unmarshal_record (marshal_record r) = Some rec"
  obtain fs where fs: "marshal_header (ir_header r) = JObj fs" by (simp add: marshal_header_def)
  show ?thesis
    using u fs
    by (cases r; cases "unmarshal_header fs []")
      (auto simp: unmarshal_record_def marshal_record_def unmarshal_field.simps fold_names
        zero_record_def split: if_splits)
qed

lemma Kept_persists:
  "idem_step ops it y z \<Longrightarrow> sy_phase y j = Kept k fp t a c \<Longrightarrow> sy_phase z j = Kept k fp t a c"
  by (induction rule: idem_step.induct) auto

text \<open>The clock only grows and an overrun is never forgotten.\<close>

lemma idem_step_mono: "idem_step ops it y z \<Longrightarrow> sy_clock y \<le> sy_clock z \<and> (sy_overrun y \<longrightarrow> sy_overrun z)"
  by (induction rule: idem_step.induct) auto

lemma executes_new:
  "idem_step ops it y z \<Longrightarrow> executes z j k t a \<Longrightarrow> executes y j k t a \<or>
    (a = sy_clock y \<and> t \<le> a \<and> sy_clock z = sy_clock y \<and> sy_overrun z = sy_overrun y \<and>
     (\<exists>fp. idem_claim ops it k fp t (sy_store y) = (Inr True, sy_store z)) \<and>
     (\<forall>i. i \<noteq> j \<longrightarrow> sy_phase z i = sy_phase y i))"
proof (induction rule: idem_step.induct)
  case (finished y i k' fp t' a' oc c)
  then show ?case
    by (cases "j = i"; cases "released oc c") (auto simp: executes_def)
next
  case (claimed y i now k' fp s')
  then show ?case
    by (cases "j = i") (auto simp: executes_def)
next
  case (taken y i now k' fp s')
  then show ?case
    by (cases "j = i") (auto simp: executes_def)
next
  case (unavailable y i now k' fp e s')
  then show ?case
    by (cases "j = i") (auto simp: executes_def)
next
  case (looked y i k' fp)
  then show ?case
    by (cases "j = i") (auto simp: executes_def)
qed (simp add: executes_def)

lemma times_step: "idem_step ops it y z \<Longrightarrow> times_ok y \<Longrightarrow> times_ok z"
  unfolding times_ok_def using executes_new [of ops it y z] idem_step_mono [of ops it y z]
  by (metis order.trans order.refl)

lemma claims_heldD:
  "claims_held it view y \<Longrightarrow> executes y i k t a \<Longrightarrow> sy_clock y \<le> t' \<Longrightarrow> t' < t + ic_ttl it \<Longrightarrow>
    view (sy_store y) t' k \<noteq> None"
  unfolding claims_held_def by blast

lemma executes_finished:
  assumes "sy_phase y i = Running k fp t a"
    and "sy_phase z = (sy_phase y)(i := if r then Released k fp else Kept k fp t a c)"
    and "executes z j k' t' a'"
  shows "executes y j k' t' a' \<and> (j = i \<longrightarrow> \<not> r)"
  using assms by (cases "j = i"; cases r) (auto simp: executes_def)

lemma resolve_replay:
  "resolve_duplicate it fp got = Dup_Replay rec \<Longrightarrow>
    \<exists>v. got = Inr (Some v) \<and> unmarshal_record v = Some rec \<and> ir_fingerprint rec = fp \<and> \<not> ir_in_flight rec"
  by (auto simp: resolve_duplicate_def split: sum.splits option.splits if_splits)

context record_store begin

lemma inv_step: "idem_step ops it y z \<Longrightarrow> inv (sy_store y) \<Longrightarrow> inv (sy_store z)"
proof (induction rule: idem_step.induct)
  case (claimed y i now k fp s')
  then show ?case using claim_view by fastforce
next
  case (taken y i now k fp s')
  then show ?case using setnx_inv by (auto simp: idem_claim_def)
next
  case (unavailable y i now k fp e s')
  then show ?case using setnx_inv by (auto simp: idem_claim_def)
qed (auto simp: finish_inv)

lemma not_claimable:
  assumes "inv (sy_store y)" "claims_held it view y" "executes y j k t a" "sy_clock y < t + ic_ttl it"
    and "now \<le> sy_clock y" "idem_claim ops it k fp now (sy_store y) = (Inr True, s')"
  shows False
proof -
  have "view (sy_store y) (sy_clock y) k \<noteq> None"
    using claims_heldD [OF assms(2,3) order_refl assms(4)] .
  then have "view (sy_store y) now k \<noteq> None"
    using live_before [OF _ assms(5)] by metis
  then show False using claim_taken [OF assms(1) _ assms(6)] by simp
qed

lemma apart_step:
  assumes "idem_step ops it y z" "inv (sy_store y)" "times_ok y" "claims_held it view y" "apart it y"
  shows "apart it z"
  unfolding apart_def
proof (intro allI impI)
  fix i j k t a t' a'
  assume ij: "executes z i k t a" "executes z j k t' a'" "i \<noteq> j"
  have new: "t' + ic_ttl it \<le> a"
    if "executes y j k t' a'" "a = sy_clock y" "t \<le> a" "idem_claim ops it k fp t (sy_store y) = (Inr True, sy_store z)"
    for i j t a t' a' fp
    using not_claimable [OF assms(2,4) that(1) _ _ that(4)] that(2,3) by force
  consider "executes y i k t a" "executes y j k t' a'" | "executes y i k t a" "\<not> executes y j k t' a'"
    | "\<not> executes y i k t a" "executes z i k t a" by (use ij in blast)
  then show "t + ic_ttl it \<le> a' \<or> t' + ic_ttl it \<le> a"
  proof cases
    case 1
    then show ?thesis using assms(5) ij(3) by (auto simp: apart_def)
  next
    case 2
    with executes_new [OF assms(1) ij(2)] new [of i t a a' t'] show ?thesis by blast
  next
    case 3
    with executes_new [OF assms(1) ij(1)] have "\<forall>i'. i' \<noteq> i \<longrightarrow> sy_phase z i' = sy_phase y i'" by blast
    then have "executes y j k t' a'" using ij(2,3) by (simp add: executes_def)
    with 3 executes_new [OF assms(1) ij(1)] new [of j t' a' a t] show ?thesis by blast
  qed
qed

lemma held_step:
  assumes "idem_step ops it y z" "inv (sy_store y)" "times_ok y" "claims_held it view y" "apart it y"
    and "\<not> sy_overrun z"
  shows "claims_held it view z"
  using assms
proof (induction rule: idem_step.induct)
  case (tick y t)
  then show ?case by (auto simp: claims_held_def)
next
  case (claimed y i now k fp s')
  have held: "view s' t' k' \<noteq> None" if j: "executes y j k' t a" "sy_clock y \<le> t'" "t' < t + ic_ttl it"
    for j k' t a t'
  proof (cases "k' = k")
    case True
    then show ?thesis using not_claimable [OF claimed(4,6) _ _ claimed(2,3)] j by force
  next
    case False
    then show ?thesis
      using claim_other [OF claimed(4,3), of k' t'] claimed(2) claims_heldD [OF claimed(6) j] j(2) by simp
  qed
  have own: "view s' t' k \<noteq> None" if "t' < now + ic_ttl it" for t'
    using claim_view [OF claimed(4,3), of t'] that by auto
  have who: "k' = k \<and> t = now \<or> executes y j k' t a"
    if "executes (set_phase i (Running k fp now (sy_clock y)) (y\<lparr>sy_store := s'\<rparr>)) j k' t a" for j k' t a
    using that by (cases "j = i") (auto simp: executes_def)
  show ?case
    unfolding claims_held_def using held own by (auto dest!: who [simplified])
next
  case (taken y i now k fp s')
  have "executes (set_phase i (Looking k fp) y) j k' t a \<Longrightarrow> executes y j k' t a" for j k' t a
    using taken(1) by (auto simp: executes_def split: if_splits)
  then show ?case
    using claim_other [OF taken(4,3)] taken(2,6) by (auto simp: claims_held_def executes_def)
next
  case (unavailable y i now k fp e s')
  have "executes (set_phase i Unavailable y) j k' t a \<Longrightarrow> executes y j k' t a" for j k' t a
    using unavailable(1) by (auto simp: executes_def split: if_splits)
  then show ?case
    using claim_other [OF unavailable(4,3)] unavailable(2,6) by (auto simp: claims_held_def executes_def)
next
  case (looked y i k fp)
  then show ?case
    by (auto simp: claims_held_def executes_def split: if_splits)
next
  case (finished y i k fp t a oc c)
  let ?s = "idem_finish ops k fp (sy_clock y) oc c (sy_store y)"
  have i: "executes y i k t a" using finished(1) by (simp add: executes_def)
  have lives: "sy_clock y < t + ic_ttl it" using finished(6) by simp
  have held: "view ?s t' k' \<noteq> None"
    if j: "executes y j k' t2 a2" "j = i \<longrightarrow> \<not> released oc c" "sy_clock y \<le> t'" "t' < t2 + ic_ttl it" for j k' t2 a2 t'
  proof -
    have old: "view (sy_store y) t' k' \<noteq> None" using claims_heldD [OF finished(4) j(1,3,4)] .
    consider "k' \<noteq> k" | "k' = k" "j = i" | "k' = k" "j \<noteq> i" by blast
    then show ?thesis
    proof cases
      case 1
      then show ?thesis using old finish_other [OF finished(2)] by simp
    next
      case 2
      then show ?thesis using old finish_keeps [OF finished(2)] j(2) by simp
    next
      case 3
      then have "t2 + ic_ttl it \<le> a \<or> t + ic_ttl it \<le> a2"
        using finished(5) i j(1) unfolding apart_def by blast
      moreover have "a \<le> sy_clock y" "a2 \<le> sy_clock y"
        using finished(3) i j(1) by (auto simp: times_ok_def)
      ultimately show ?thesis using lives j by auto
    qed
  qed
  show ?case (is "claims_held it view ?z")
    unfolding claims_held_def
  proof (intro allI impI)
    fix j k' t2 a2 t'
    assume ex: "executes ?z j k' t2 a2" and t': "sy_clock ?z \<le> t'" "t' < t2 + ic_ttl it"
    have "executes y j k' t2 a2 \<and> (j = i \<longrightarrow> \<not> released oc c)"
      by (rule executes_finished [OF finished(1) _ ex, of _ c]) simp
    then show "view (sy_store ?z) t' k' \<noteq> None" using held [of j k' t2 a2 t'] t' by simp
  qed
qed

end

context record_store begin

lemma values_step:
  assumes "idem_step ops it y z" "inv (sy_store y)" "values_known view y"
  shows "values_known view z"
proof -
  have kept: "\<exists>j fp t0 a0 c. sy_phase z j = Kept k fp t0 a0 c \<and> v = marshal_record (response_record fp c)"
    if "\<exists>j fp t0 a0 c. sy_phase y j = Kept k fp t0 a0 c \<and> v = marshal_record (response_record fp c)" for k v
    using that Kept_persists [OF assms(1)] by blast
  have "(\<exists>fp. v = marshal_record (claim_record fp)) \<or>
      (\<exists>j fp t0 a0 c. sy_phase z j = Kept k fp t0 a0 c \<and> v = marshal_record (response_record fp c))"
    if v: "sy_clock z \<le> t" "view (sy_store z) t k = Some v" for t k v
  proof (cases "view (sy_store y) t k = Some v")
    case True
    then show ?thesis
      using assms(3) kept [of k v] idem_step_mono [OF assms(1)] v(1) unfolding values_known_def
      by (meson order.trans)
  next
    case False
    with assms(1,2) v show ?thesis
    proof (induction rule: idem_step.induct)
      case (claimed y i now k' fp s')
      then have "k = k'" using claim_other [OF claimed(4,3), of k t] by auto
      then show ?case using claim_view [OF claimed(4,3), of t] claimed(6) by (auto split: if_splits)
    next
      case (taken y i now k' fp s')
      then show ?case using claim_other [OF taken(4,3), of k t] by auto
    next
      case (unavailable y i now k' fp e s')
      then show ?case using claim_other [OF unavailable(4,3), of k t] by auto
    next
      case (finished y i k' fp t0 a oc c)
      then have k: "k = k'" using finish_other [OF finished(2), of k k' fp "sy_clock y" oc c t] by auto
      then have "\<not> released oc c" "v = marshal_record (response_record fp c)"
        using finish_view [OF finished(2), of k fp "sy_clock y" oc c t v] finished(4,5) by auto
      then show ?case using k by (auto intro!: exI [of _ i])
    qed auto
  qed
  then show ?thesis by (simp add: values_known_def)
qed

lemma replays_step:
  assumes "idem_step ops it y z" "inv (sy_store y)" "values_known view y" "replays_known y"
  shows "replays_known z"
  unfolding replays_known_def
proof (intro allI impI)
  fix i k fp rec
  assume ans: "sy_phase z i = Answered k fp (Dup_Replay rec)"
  have "\<exists>j t0 a0 c. sy_phase y j = Kept k fp t0 a0 c \<and>
      unmarshal_record (marshal_record (response_record fp c)) = Some rec"
  proof (cases "sy_phase y i = Answered k fp (Dup_Replay rec)")
    case True
    then show ?thesis using assms(4) by (auto simp: replays_known_def)
  next
    case False
    with assms(1) ans have "resolve_duplicate it fp (op_get ops k (sy_clock y) (sy_store y)) = Dup_Replay rec"
      by (induction rule: idem_step.induct) (auto split: if_splits)
    then obtain v where v: "op_get ops k (sy_clock y) (sy_store y) = Inr (Some v)"
        "unmarshal_record v = Some rec" "ir_fingerprint rec = fp" "\<not> ir_in_flight rec"
      by (auto dest!: resolve_replay)
    then have "view (sy_store y) (sy_clock y) k = Some v"
      using get_ok [OF assms(2)] by metis
    then have "(\<exists>fp. v = marshal_record (claim_record fp)) \<or>
        (\<exists>j fp t0 a0 c. sy_phase y j = Kept k fp t0 a0 c \<and> v = marshal_record (response_record fp c))"
      using assms(3) by (auto simp: values_known_def)
    then obtain j fp' t0 a0 c where j: "sy_phase y j = Kept k fp' t0 a0 c" "v = marshal_record (response_record fp' c)"
      using v(2,4) unmarshal_claim by fastforce
    then have "fp' = fp" using unmarshal_marshal_parts [of "response_record fp' c" rec] v by simp
    with j v(2) show ?thesis by blast
  qed
  then show "\<exists>j t0 a0 c. sy_phase z j = Kept k fp t0 a0 c \<and>
      unmarshal_record (marshal_record (response_record fp c)) = Some rec"
    using Kept_persists [OF assms(1)] by blast
qed

lemmas step_facts = inv_step times_step apart_step held_step values_step replays_step

text \<open>All of it together, by rule induction over the runs.\<close>

lemma reach_inv:
  assumes "idem_reach ops it (idem_start s0 t0) y" "inv s0" "\<And>t k. view s0 t k = None"
  shows "inv (sy_store y) \<and> times_ok y \<and> values_known view y \<and> replays_known y \<and>
    (\<not> sy_overrun y \<longrightarrow> claims_held it view y \<and> apart it y)"
  using assms(1)
proof (induction rule: idem_reach.induct)
  case start
  then show ?case
    using assms(2,3) by (simp add: idem_start_def times_ok_def values_known_def replays_known_def
      claims_held_def apart_def executes_def)
next
  case (step y z)
  have no: "\<not> sy_overrun z \<Longrightarrow> \<not> sy_overrun y" using idem_step_mono [OF step(2)] by blast
  have "claims_held it view z \<and> apart it z" if "\<not> sy_overrun z"
    using that no step.IH apart_step [OF step(2)] held_step [OF step(2)] by blast
  then show ?case
    using step.IH inv_step [OF step(2)] times_step [OF step(2)] values_step [OF step(2)] replays_step [OF step(2)]
    by blast
qed

end

text \<open>A run with two executions of one key and a replay: request 0 claims at 0 and stores its
  response, request 1 is replayed to, request 2 claims when the TTL (100) is over.\<close>

definition demo_capture :: capture_writer where
  "demo_capture = cw_new 9 fresh_writer"

definition demo_store :: "stored \<Rightarrow> instant \<Rightarrow> stored mem_store" where
  "demo_store v x = \<lparr>ms_max = 2, ms_entries = [(''k'', \<lparr>me_value = v, me_expires = x\<rparr>)], ms_last_sweep = 0\<rparr>"

abbreviation demo_response :: idem_record where
  "demo_response \<equiv> response_record ''f'' demo_capture"

lemma demo_claim:
  "idem_claim mem_ops demo_config ''k'' ''f'' 0 (new_memory_store 2) =
    (Inr True, demo_store (marshal_record (claim_record ''f'')) 100)"
  "idem_claim mem_ops demo_config ''k'' ''f'' 1 (demo_store v 100) = (Inr False, demo_store v 100)"
  "idem_claim mem_ops demo_config ''k'' ''f'' 100 (demo_store v 100) =
    (Inr True, demo_store (marshal_record (claim_record ''f'')) 200)"
  by (simp_all add: idem_claim_def mem_ops_def demo_config_def set_nx_def insert_nx_def new_memory_store_def
    pos_or_default_def full_def demo_store_def live_def zero_time_def)

lemma demo_finish:
  "idem_finish mem_ops ''k'' ''f'' 1 Returned demo_capture (demo_store v 100) = demo_store (marshal_record demo_response) 100"
  by (simp add: idem_finish_def released_def demo_capture_def cw_new_def mem_ops_def mem_set_def demo_store_def live_def)

lemma demo_not_released: "\<not> released Returned demo_capture"
  by (simp add: released_def demo_capture_def cw_new_def)

lemma demo_response_reads: "unmarshal_record (marshal_record demo_response) = Some demo_response"
  by (subst unmarshal_marshal)
    (simp_all add: response_record_def demo_capture_def cw_new_def fresh_writer_def storable_header_def clean_header_def)

lemma demo_lookup:
  "resolve_duplicate demo_config ''f'' (op_get mem_ops ''k'' 1 (demo_store (marshal_record demo_response) 100)) =
    Dup_Replay demo_response"
  by (simp add: resolve_duplicate_def mem_ops_def mem_get_def demo_store_def live_def demo_response_reads demo_config_def)

lemma demo_reach:
  "\<exists>y. idem_reach mem_ops demo_config (idem_start (new_memory_store 2) 0) y \<and> \<not> sy_overrun y \<and>
    sy_phase y 0 = Kept ''k'' ''f'' 0 0 demo_capture \<and> sy_phase y 2 = Running ''k'' ''f'' 100 100 \<and>
    sy_phase y 1 = Answered ''k'' ''f'' (Dup_Replay demo_response)"
proof -
  let ?R = "idem_reach mem_ops demo_config (idem_start (new_memory_store 2) 0)"
  let ?done = "demo_store (marshal_record demo_response) 100"
  have 0: "?R \<lparr>sy_store = new_memory_store 2, sy_clock = 0, sy_phase = (\<lambda>i. Idle), sy_overrun = False\<rparr>"
    using idem_reach.start [of mem_ops demo_config "idem_start (new_memory_store 2) 0"] by (simp add: idem_start_def)
  have 1: "?R \<lparr>sy_store = demo_store (marshal_record (claim_record ''f'')) 100, sy_clock = 0,
      sy_phase = (\<lambda>i. Idle)(0 := Running ''k'' ''f'' 0 0), sy_overrun = False\<rparr>"
    using idem_reach.step [OF 0 idem_step.claimed [of _ 0 0], of "''k''" "''f''"] by (simp add: demo_claim)
  have 2: "?R \<lparr>sy_store = demo_store (marshal_record (claim_record ''f'')) 100, sy_clock = 1,
      sy_phase = (\<lambda>i. Idle)(0 := Running ''k'' ''f'' 0 0), sy_overrun = False\<rparr>"
    using idem_reach.step [OF 1 idem_step.tick [of _ 1]] by simp
  have 3: "?R \<lparr>sy_store = ?done, sy_clock = 1,
      sy_phase = (\<lambda>i. Idle)(0 := Kept ''k'' ''f'' 0 0 demo_capture), sy_overrun = False\<rparr>"
    using idem_reach.step [OF 2 idem_step.finished [of _ 0 "''k''" "''f''" 0 0 mem_ops demo_config Returned demo_capture]]
    by (simp add: demo_finish demo_not_released) (simp add: demo_config_def)
  have 4: "?R \<lparr>sy_store = ?done, sy_clock = 1,
      sy_phase = (\<lambda>i. Idle)(0 := Kept ''k'' ''f'' 0 0 demo_capture, 1 := Looking ''k'' ''f''), sy_overrun = False\<rparr>"
    using idem_reach.step [OF 3 idem_step.taken [of _ 1 1], of "''k''" "''f''"] by (simp add: demo_claim)
  have 5: "?R \<lparr>sy_store = ?done, sy_clock = 1, sy_phase = (\<lambda>i. Idle)(0 := Kept ''k'' ''f'' 0 0 demo_capture,
      1 := Answered ''k'' ''f'' (Dup_Replay demo_response)), sy_overrun = False\<rparr>"
    using idem_reach.step [OF 4 idem_step.looked [of _ 1 "''k''" "''f''"]] by (simp add: demo_lookup)
  have 6: "?R \<lparr>sy_store = ?done, sy_clock = 100, sy_phase = (\<lambda>i. Idle)(0 := Kept ''k'' ''f'' 0 0 demo_capture,
      1 := Answered ''k'' ''f'' (Dup_Replay demo_response)), sy_overrun = False\<rparr>"
    using idem_reach.step [OF 5 idem_step.tick [of _ 100]] by simp
  have "?R \<lparr>sy_store = demo_store (marshal_record (claim_record ''f'')) 200, sy_clock = 100,
      sy_phase = (\<lambda>i. Idle)(0 := Kept ''k'' ''f'' 0 0 demo_capture,
        1 := Answered ''k'' ''f'' (Dup_Replay demo_response), 2 := Running ''k'' ''f'' 100 100), sy_overrun = False\<rparr>"
    using idem_reach.step [OF 6 idem_step.claimed [of _ 2 100], of "''k''" "''f''"] by (simp add: demo_claim)
  then show ?thesis by (rule exI [of _ "_ :: stored mem_store idem_sys", OF conjI]) simp
qed





text \<open>The reason for the hypothesis of C22. A handler that outlives its claim's TTL and then fails
  deletes the live claim of the request that came after it, and a third request starts while the
  second still runs (the final store call is not fenced by the claim it belongs to).\<close>

lemma overrun_hazard:
  "\<exists>(y :: stored mem_store idem_sys). idem_reach mem_ops demo_config (idem_start (new_memory_store 2) 0) y \<and>
    sy_overrun y \<and> sy_clock y = 100 \<and> sy_phase y 1 = Running ''k'' ''f'' 100 100 \<and>
    sy_phase y 2 = Running ''k'' ''f'' 100 100"
proof -
  let ?R = "idem_reach mem_ops demo_config (idem_start (new_memory_store 2) 0)"
  let ?claim = "marshal_record (claim_record ''f'')"
  have empty: "idem_finish mem_ops ''k'' ''f'' 100 (Panicked []) demo_capture (demo_store ?claim 200) = new_memory_store 2"
    by (simp add: idem_finish_def released_def mem_ops_def mem_delete_def demo_store_def new_memory_store_def
      pos_or_default_def zero_time_def)
  have again: "idem_claim mem_ops demo_config ''k'' ''f'' 100 (new_memory_store 2) = (Inr True, demo_store ?claim 200)"
    by (simp add: idem_claim_def mem_ops_def demo_config_def set_nx_def insert_nx_def new_memory_store_def
      pos_or_default_def full_def demo_store_def zero_time_def)
  have 0: "?R \<lparr>sy_store = new_memory_store 2, sy_clock = 0, sy_phase = (\<lambda>i. Idle), sy_overrun = False\<rparr>"
    using idem_reach.start [of mem_ops demo_config "idem_start (new_memory_store 2) 0"] by (simp add: idem_start_def)
  have 1: "?R \<lparr>sy_store = demo_store ?claim 100, sy_clock = 0,
      sy_phase = (\<lambda>i. Idle)(0 := Running ''k'' ''f'' 0 0), sy_overrun = False\<rparr>"
    using idem_reach.step [OF 0 idem_step.claimed [of _ 0 0], of "''k''" "''f''"] by (simp add: demo_claim)
  have 2: "?R \<lparr>sy_store = demo_store ?claim 100, sy_clock = 100,
      sy_phase = (\<lambda>i. Idle)(0 := Running ''k'' ''f'' 0 0), sy_overrun = False\<rparr>"
    using idem_reach.step [OF 1 idem_step.tick [of _ 100]] by simp
  have 3: "?R \<lparr>sy_store = demo_store ?claim 200, sy_clock = 100, sy_phase = (\<lambda>i. Idle)(0 := Running ''k'' ''f'' 0 0,
      1 := Running ''k'' ''f'' 100 100), sy_overrun = False\<rparr>"
    using idem_reach.step [OF 2 idem_step.claimed [of _ 1 100], of "''k''" "''f''"] by (simp add: demo_claim)
  have 4: "?R \<lparr>sy_store = new_memory_store 2, sy_clock = 100, sy_phase = (\<lambda>i. Idle)(0 := Released ''k'' ''f'',
      1 := Running ''k'' ''f'' 100 100), sy_overrun = True\<rparr>"
    using idem_reach.step [OF 3 idem_step.finished [of _ 0 "''k''" "''f''" 0 0 mem_ops demo_config "Panicked []" demo_capture]]
    by (simp add: empty fun_upd_twist) (simp add: released_def demo_config_def fun_upd_twist)
  have "?R \<lparr>sy_store = demo_store ?claim 200, sy_clock = 100, sy_phase = (\<lambda>i. Idle)(0 := Released ''k'' ''f'',
      1 := Running ''k'' ''f'' 100 100, 2 := Running ''k'' ''f'' 100 100), sy_overrun = True\<rparr>"
    using idem_reach.step [OF 4 idem_step.claimed [of _ 2 100], of "''k''" "''f''"] by (simp add: again)
  then show ?thesis by (rule exI [of _ "_ :: stored mem_store idem_sys", OF conjI]) simp
qed

end
