(* ===== verification/NetAddr.thy ===== *)
theory NetAddr
  imports GoStrings
begin

text \<open>
  Go's \<^verbatim>\<open>net.SplitHostPort\<close> and \<^verbatim>\<open>net.JoinHostPort\<close>, which the middleware applies to
  \<^verbatim>\<open>Request.RemoteAddr\<close>, and \<^verbatim>\<open>remoteIP\<close> of \<^verbatim>\<open>src/httpx/middleware/logger.go\<close>, the rate
  limiter's default key.
\<close>

fun rcut :: "char \<Rightarrow> string \<Rightarrow> (string \<times> string) option" where
  \<comment> \<open>cut at the last occurrence\<close>
  "rcut c [] = None"
| "rcut c (x # xs) =
     (case rcut c xs of Some (a, b) \<Rightarrow> Some (x # a, b) | None \<Rightarrow> if x = c then Some ([], xs) else None)"

lemma rcut_None: "rcut c s = None \<longleftrightarrow> c \<notin> set s"
  by (induction s) (auto split: option.splits)

lemma rcut_append: "c \<notin> set b \<Longrightarrow> rcut c (a @ c # b) = Some (a, b)"
  by (induction a) (auto simp: rcut_None [THEN iffD2])

lemma rcut_Some: "rcut c s = Some (a, b) \<Longrightarrow> s = a @ c # b \<and> c \<notin> set b"
  by (induction s arbitrary: a b) (auto split: option.splits if_splits simp: rcut_None)

datatype addr_error = Missing_Port | Too_Many_Colons | Missing_Bracket | Unexpected_Open | Unexpected_Close

abbreviation lbr :: char where "lbr \<equiv> CHR ''[''"
abbreviation rbr :: char where "rbr \<equiv> CHR '']''"
abbreviation colon :: char where "colon \<equiv> CHR '':''"

definition split_host_port :: "string \<Rightarrow> addr_error + (string \<times> string)" where
  "split_host_port s =
     (case rcut colon s of
        None \<Rightarrow> Inl Missing_Port
      | Some (h, port) \<Rightarrow>
          if hd s = lbr then
            (case cut rbr s of
               (_, _, False) \<Rightarrow> Inl Missing_Bracket
             | (inside, after, True) \<Rightarrow>
                 if after = [] then Inl Missing_Port
                 else if after = colon # port then
                   (if lbr \<in> set (tl s) then Inl Unexpected_Open
                    else if rbr \<in> set after then Inl Unexpected_Close
                    else Inr (tl inside, port))
                 else if hd after = colon then Inl Too_Many_Colons else Inl Missing_Port)
          else if colon \<in> set h then Inl Too_Many_Colons
          else if lbr \<in> set s then Inl Unexpected_Open
          else if rbr \<in> set s then Inl Unexpected_Close
          else Inr (h, port))"

definition join_host_port :: "string \<Rightarrow> string \<Rightarrow> string" where
  "join_host_port host port =
     (if colon \<in> set host then lbr # host @ rbr # colon # port else host @ colon # port)"

definition remote_ip :: "string \<Rightarrow> string" where
  "remote_ip addr = (case split_host_port addr of Inl _ \<Rightarrow> addr | Inr (host, _) \<Rightarrow> host)"

definition plain_host :: "string \<Rightarrow> bool" where
  "plain_host s \<longleftrightarrow> lbr \<notin> set s \<and> rbr \<notin> set s"

lemma split_join:
  assumes "plain_host host" "plain_host port" "colon \<notin> set port"
  shows "split_host_port (join_host_port host port) = Inr (host, port)"
proof (cases "colon \<in> set host")
  case True
  have "cut rbr (lbr # host @ rbr # colon # port) = (lbr # host, colon # port, True)"
    using assms(1) by (subst cut_found) (auto simp: plain_host_def)
  moreover have "rcut colon ((lbr # host @ [rbr]) @ colon # port) = Some (lbr # host @ [rbr], port)"
    by (rule rcut_append) (use assms(3) in simp)
  ultimately show ?thesis
    using True assms by (simp add: split_host_port_def join_host_port_def plain_host_def)
next
  case False
  then have "hd (host @ colon # port) \<noteq> lbr"
    using assms(1) by (cases host) (auto simp: plain_host_def)
  with False show ?thesis
    using assms by (simp add: split_host_port_def join_host_port_def rcut_append plain_host_def)
qed

text \<open>The host and port of an address that splits have no bracket, and the port no colon.\<close>

lemma split_plain:
  assumes "split_host_port s = Inr (host, port)"
  shows "plain_host host \<and> plain_host port \<and> colon \<notin> set port"
proof -
  obtain h p where r: "rcut colon s = Some (h, p)"
    using assms by (auto simp: split_host_port_def split: option.splits)
  note s = rcut_Some [OF r]
  show ?thesis
  proof (cases "hd s = lbr")
    case False
    then show ?thesis
      using assms r s by (auto simp: split_host_port_def plain_host_def split: if_splits)
  next
    case True
    obtain i a where c: "cut rbr s = (i, a, True)"
      using assms r True by (auto simp: split_host_port_def split: prod.splits bool.splits)
    have i: "s = i @ rbr # a" "rbr \<notin> set i" using cut_found [THEN iffD1, OF c] by simp_all
    then have "i \<noteq> []" using True by auto
    with i(1) have "tl s = tl i @ rbr # a" by (cases i) auto
    moreover have "host = tl i" "port = p" "a = colon # p" "lbr \<notin> set (tl s)" "rbr \<notin> set a"
      using assms r c True by (auto simp: split_host_port_def split: if_splits)
    ultimately show ?thesis
      using s i \<open>i \<noteq> []\<close> by (auto simp: plain_host_def dest: list.set_sel(2))
  qed
qed

end
