(* ===== verification/TokenBucket.thy ===== *)
theory TokenBucket
  imports HttpBase NetAddr Float64
begin

text \<open>
  The rate limiter of \<^verbatim>\<open>src/httpx/middleware/ratelimit.go\<close>: the in-package token bucket,
  one bucket per key with lazy refill in float64 arithmetic (\<open>Float64\<close>), the eviction that
  bounds the map, and the middleware around any limiter. The mutex makes \<^verbatim>\<open>Allow\<close> one function
  on the state; its clock reading is an argument. Go iterates the map and sorts with an
  unstable sort, so the order among equally cold buckets is open: here it is the order of the
  association list, which is as arbitrary.
\<close>

section \<open>State and operations\<close>

record tk_bucket =
  tk_tokens :: f64
  tk_last :: instant

record token_bucket =
  tb_rate :: f64
  tb_burst :: f64
  tb_max_keys :: int
  tb_buckets :: "(string \<times> tk_bucket) list"

definition default_max_keys :: int where
  "default_max_keys = 65536"

definition new_token_bucket :: "f64 \<Rightarrow> int \<Rightarrow> int \<Rightarrow> token_bucket" where
  "new_token_bucket rate burst max_keys =
     (let b = (if burst < 1 then ftrunc (max 1 rate) else burst)
      in \<lparr>tb_rate = rate, tb_burst = of_int64 b, tb_max_keys = pos_or_default max_keys default_max_keys,
          tb_buckets = []\<rparr>)"

definition seconds :: "duration \<Rightarrow> f64" where
  \<comment> \<open>\<^verbatim>\<open>time.Duration.Seconds\<close>\<close>
  "seconds d = fadd (of_int64 (quot d second)) (fdiv (of_int64 (d - quot d second * second)) 1000000000)"

definition evict :: "instant \<Rightarrow> token_bucket \<Rightarrow> token_bucket" where
  "evict now t =
     (let horizon = fdiv (fmul 2 (tb_burst t)) (tb_rate t);
          kept = filter (\<lambda>(k, b). \<not> horizon \<le> seconds (time_sub now (tk_last b))) (tb_buckets t)
      in if int (length kept) < tb_max_keys t then t\<lparr>tb_buckets := kept\<rparr>
         else let all = sort_key (\<lambda>(k, b). tk_last b) kept;
                  gone = map fst (take (length all div 10 + 1) all)
              in t\<lparr>tb_buckets := filter (\<lambda>(k, b). k \<notin> set gone) kept\<rparr>)"

definition refill :: "token_bucket \<Rightarrow> instant \<Rightarrow> tk_bucket \<Rightarrow> tk_bucket" where
  "refill t now b =
     \<lparr>tk_tokens = min (tb_burst t) (fadd (tk_tokens b) (fmul (tb_rate t) (seconds (time_sub now (tk_last b))))),
      tk_last = now\<rparr>"

definition take_token :: "token_bucket \<Rightarrow> tk_bucket \<Rightarrow> bool \<times> duration \<times> tk_bucket" where
  "take_token t b =
     (if 1 \<le> tk_tokens b then (True, 0, b\<lparr>tk_tokens := fsub (tk_tokens b) 1\<rparr>)
      else (False, ftrunc (fmul (fdiv (fsub 1 (tk_tokens b)) (tb_rate t)) (of_int64 second)), b))"

definition tb_allow :: "string \<Rightarrow> instant \<Rightarrow> token_bucket \<Rightarrow> (bool \<times> duration) \<times> token_bucket" where
  "tb_allow key now t =
     (let (t1, b1) =
        (case map_of (tb_buckets t) key of
           Some b \<Rightarrow> (t, refill t now b)
         | None \<Rightarrow>
             (if tb_max_keys t \<le> int (length (tb_buckets t)) then evict now t else t,
              \<lparr>tk_tokens = tb_burst t, tk_last = now\<rparr>));
          (ok, retry, b2) = take_token t b1
      in ((ok, retry), t1\<lparr>tb_buckets := AList.update key b2 (tb_buckets t1)\<rparr>))"

section \<open>The middleware\<close>

datatype 'l limiter_choice = Custom 'l | In_Package token_bucket

definition rate_limit_new :: "'l option \<Rightarrow> f64 \<Rightarrow> int \<Rightarrow> int \<Rightarrow> string + 'l limiter_choice" where
  \<comment> \<open>construction; \<open>Inl\<close> is the panic\<close>
  "rate_limit_new custom rate burst max_keys =
     (case custom of
        Some l \<Rightarrow> Inr (Custom l)
      | None \<Rightarrow>
          if rate \<le> 0 then Inl ''middleware: RateLimit needs Rate > 0 or a custom Limiter''
          else Inr (In_Package (new_token_bucket rate burst max_keys)))"

definition default_key :: "request \<Rightarrow> string" where
  "default_key r = remote_ip (rq_remote r)"

definition retry_after :: "duration \<Rightarrow> string" where
  "retry_after d = format_int \<lceil>seconds d\<rceil>"

definition rate_limit :: "(string \<Rightarrow> instant \<Rightarrow> 'l \<Rightarrow> (bool \<times> duration) \<times> 'l) \<Rightarrow> (request \<Rightarrow> string) \<Rightarrow>
    error_writer \<Rightarrow> (request \<Rightarrow> writer \<Rightarrow> writer) \<Rightarrow> request \<Rightarrow> instant \<Rightarrow> 'l \<Rightarrow> writer \<Rightarrow> writer \<times> 'l" where
  "rate_limit allow key ew next r now l w =
     (let ((ok, retry), l') = allow (key r) now l
      in if ok then (next r w, l')
         else (let w1 = (if 0 < retry then on_header (header_set ''Retry-After'' (retry_after retry)) w else w)
               in (ew r 429 ''rate limit exceeded'' w1, l')))"

section \<open>Rounding upwards\<close>

definition ulp :: rat where
  "ulp = 1 / 2 ^ 53"

lemma rhe_half: "of_int (rhe z) \<le> z + 1 / 2"
proof -
  have f: "of_int \<lfloor>z\<rfloor> \<le> z" by simp
  then have "of_int \<lfloor>z\<rfloor> \<le> z + 1 / 2" by linarith
  moreover have "of_int (\<lfloor>z\<rfloor> + 1) \<le> z + 1 / 2" if "\<not> z - of_int \<lfloor>z\<rfloor> < 1 / 2"
    using that by simp
  ultimately show ?thesis by (simp only: rhe_def Let_def split: if_split) blast
qed

lemma rnd_up: "0 \<le> x \<Longrightarrow> rnd x \<le> x * (1 + ulp)"
proof (cases "x = 0")
  case False
  assume "0 \<le> x"
  with False have x: "0 < x" by simp
  let ?p = "2 powi (binade x - 52) :: rat"
  have p: "0 < ?p" by simp
  have big: "2 ^ 52 \<le> x / ?p"
    using binade_bounds(1) [OF x] powi_52 [of "binade x"] p by (simp add: pos_le_divide_eq)
  have "of_int (rhe (x / ?p)) \<le> x / ?p + 1 / 2"
    by (rule rhe_half)
  also have "\<dots> \<le> x / ?p * (1 + ulp)"
    using big by (simp add: ulp_def distrib_left)
  finally have "of_int (rhe (x / ?p)) * ?p \<le> x / ?p * (1 + ulp) * ?p"
    using p by (intro mult_right_mono) auto
  then show ?thesis using p by (simp add: rnd_pos_eq [OF x])
qed simp

lemma ulp_pos: "0 < ulp" "ulp < 1"
  by (simp_all add: ulp_def)

lemma seconds_bounds:
  assumes "0 \<le> d" "d < 2 ^ 63"
  shows "0 \<le> seconds d" "seconds d \<le> of_int d / 1000000000 * ((1 + ulp) * (1 + ulp))"
proof -
  let ?q = "d div second" and ?r = "d mod second"
  have q: "quot d second = ?q" "d - ?q * second = ?r"
    using assms(1) by (simp_all add: quot_nonneg minus_div_mult_eq_mod)
  have qb: "0 \<le> ?q" "?q \<le> 2 ^ 53"
    using assms by (auto simp: pos_imp_zdiv_nonneg_iff)
  have rb: "0 \<le> ?r" "?r < second" by simp_all
  have qi: "of_int64 ?q = of_int ?q" and ri: "of_int64 ?r = of_int ?r"
    using qb rb by (auto simp: of_int64_def intro!: rnd_of_int)
  have d: "of_int d / 1000000000 = (of_int ?q + of_int ?r / 1000000000 :: rat)"
  proof -
    have "(of_int d :: rat) = of_int ?q * 1000000000 + of_int ?r"
      by (metis div_mult_mod_eq of_int_add of_int_mult of_int_numeral)
    then show ?thesis by (simp add: field_simps)
  qed
  have r0: "0 \<le> (of_int ?r / 1000000000 :: rat)" using rb by simp
  have f: "0 \<le> fdiv (of_int ?r) 1000000000" "fdiv (of_int ?r) 1000000000 \<le> of_int ?r / 1000000000 * (1 + ulp)"
    using rnd_up [OF r0] f64.fl_nonneg [OF r0] by (auto simp: fdiv_def)
  have s: "seconds d = rnd (of_int ?q + fdiv (of_int ?r) 1000000000)"
    by (simp add: seconds_def q qi ri fadd_def)
  have sum0: "0 \<le> of_int ?q + fdiv (of_int ?r) 1000000000"
    using f(1) qb by simp
  show "0 \<le> seconds d" unfolding s by (rule f64.fl_nonneg [OF sum0])
  have "of_int ?q + fdiv (of_int ?r) 1000000000 \<le> of_int ?q * (1 + ulp) + of_int ?r / 1000000000 * (1 + ulp)"
    using f(2) qb(1) ulp_pos by (intro add_mono) (auto simp: mult_le_cancel_left1)
  also have "\<dots> = of_int d / 1000000000 * (1 + ulp)"
    unfolding d by (simp add: distrib_right)
  finally have "(of_int ?q + fdiv (of_int ?r) 1000000000) * (1 + ulp) \<le> of_int d / 1000000000 * (1 + ulp) * (1 + ulp)"
    using ulp_pos by (intro mult_right_mono) auto
  with rnd_up [OF sum0] show "seconds d \<le> of_int d / 1000000000 * ((1 + ulp) * (1 + ulp))"
    unfolding s mult.assoc [symmetric] by (rule order_trans)
qed

section \<open>One bucket\<close>

definition slack :: rat where
  "slack = 4 * ulp"

definition bucket_ok :: "token_bucket \<Rightarrow> tk_bucket \<Rightarrow> bool" where
  "bucket_ok t b \<longleftrightarrow> 0 \<le> tk_tokens b \<and> tk_tokens b \<le> tb_burst t"

definition settings_ok :: "token_bucket \<Rightarrow> bool" where
  "settings_ok t \<longleftrightarrow> 0 < tb_rate t \<and> 1 \<le> tb_burst t \<and> rnd (tb_burst t) = tb_burst t \<and> 0 < tb_max_keys t"

lemma time_sub_mono: "0 \<le> a - b \<Longrightarrow> 0 \<le> time_sub a b \<and> time_sub a b \<le> a - b \<and> time_sub a b < 2 ^ 63"
  by (auto simp: time_sub_def min_duration_def max_duration_def)

lemma refill_ok:
  assumes "settings_ok t" "bucket_ok t b" "tk_last b \<le> now"
  shows "bucket_ok t (refill t now b)"
    and "tk_tokens (refill t now b) \<le> tk_tokens b
      + tb_rate t * (of_int (now - tk_last b) / 1000000000) * (1 + slack) + tb_burst t * ulp"
proof -
  let ?d = "time_sub now (tk_last b)"
  have d: "0 \<le> ?d" "?d \<le> now - tk_last b" "?d < 2 ^ 63"
    using time_sub_mono [of now "tk_last b"] assms(3) by auto
  have r: "0 \<le> tb_rate t" using assms(1) by (simp add: settings_ok_def)
  note sec = seconds_bounds [OF d(1,3)]
  define p where "p = fmul (tb_rate t) (seconds ?d)"
  have p0: "0 \<le> p" unfolding p_def fmul_def using r sec by (intro f64.fl_nonneg) simp
  have "p \<le> tb_rate t * seconds ?d * (1 + ulp)"
    unfolding p_def fmul_def using r sec by (intro rnd_up) simp
  also have "\<dots> \<le> tb_rate t * (of_int ?d / 1000000000 * ((1 + ulp) * (1 + ulp))) * (1 + ulp)"
    using r sec(2) ulp_pos by (intro mult_right_mono mult_left_mono) auto
  also have "\<dots> = tb_rate t * (of_int ?d / 1000000000) * ((1 + ulp) * (1 + ulp) * (1 + ulp))"
    by simp
  also have "\<dots> \<le> tb_rate t * (of_int (now - tk_last b) / 1000000000) * (1 + slack)"
    using r d by (intro mult_mono mult_left_mono divide_right_mono) (auto simp: slack_def ulp_def)
  finally have p: "p \<le> tb_rate t * (of_int (now - tk_last b) / 1000000000) * (1 + slack)" .
  define y where "y = tk_tokens b + p"
  have y0: "0 \<le> y" using p0 assms(2) by (simp add: y_def bucket_ok_def)
  have tok: "tk_tokens (refill t now b) = min (tb_burst t) (rnd y)"
    by (simp add: refill_def fadd_def p_def y_def)
  show "bucket_ok t (refill t now b)"
    using f64.fl_nonneg [OF y0] assms(1) by (auto simp: bucket_ok_def tok settings_ok_def)
  have "min (tb_burst t) (rnd y) \<le> y + tb_burst t * ulp"
  proof (cases "tb_burst t \<le> y")
    case True
    have "0 \<le> tb_burst t * ulp" using assms(1) ulp_pos by (simp add: settings_ok_def)
    with True show ?thesis by linarith
  next
    case False
    then have "y * ulp \<le> tb_burst t * ulp" using ulp_pos by (intro mult_right_mono) auto
    with rnd_up [OF y0] show ?thesis by (simp add: distrib_left)
  qed
  then show "tk_tokens (refill t now b) \<le> tk_tokens b
      + tb_rate t * (of_int (now - tk_last b) / 1000000000) * (1 + slack) + tb_burst t * ulp"
    using p unfolding tok y_def by linarith
qed

lemma take_token_ok:
  assumes "settings_ok t" "bucket_ok t b" "take_token t b = (ok, d, b')"
  shows "bucket_ok t b'" "tk_last b' = tk_last b"
    and "of_bool ok + tk_tokens b' \<le> tk_tokens b + tb_burst t * ulp"
proof -
  have u: "0 \<le> tb_burst t * ulp" using assms(1) ulp_pos by (simp add: settings_ok_def)
  have "bucket_ok t b' \<and> tk_last b' = tk_last b \<and> of_bool ok + tk_tokens b' \<le> tk_tokens b + tb_burst t * ulp"
  proof (cases "1 \<le> tk_tokens b")
    case False
    then show ?thesis using assms u by (auto simp: take_token_def)
  next
    case True
    then have x: "0 \<le> tk_tokens b - 1" by simp
    have "rnd (tk_tokens b - 1) \<le> tb_burst t"
      using rnd_mono [of "tk_tokens b - 1" "tb_burst t"] assms(1,2) by (simp add: bucket_ok_def settings_ok_def)
    moreover have "(tk_tokens b - 1) * ulp \<le> tb_burst t * ulp"
      using assms(2) ulp_pos by (intro mult_right_mono) (auto simp: bucket_ok_def)
    ultimately show ?thesis
      using assms(2,3) True f64.fl_nonneg [OF x] rnd_up [OF x]
      by (auto simp: take_token_def fsub_def bucket_ok_def distrib_left)
  qed
  then show "bucket_ok t b'" "tk_last b' = tk_last b"
    "of_bool ok + tk_tokens b' \<le> tk_tokens b + tb_burst t * ulp" by auto
qed

section \<open>The map of buckets\<close>

definition tb_ok :: "token_bucket \<Rightarrow> bool" where
  "tb_ok t \<longleftrightarrow> settings_ok t \<and> distinct (map fst (tb_buckets t)) \<and>
     int (length (tb_buckets t)) \<le> tb_max_keys t"

definition calm :: "instant \<Rightarrow> token_bucket \<Rightarrow> bool" where
  "calm now t \<longleftrightarrow> (\<forall>(k, b) \<in> set (tb_buckets t). bucket_ok t b \<and> tk_last b \<le> now)"

definition same_settings :: "token_bucket \<Rightarrow> token_bucket \<Rightarrow> bool" where
  "same_settings t t' \<longleftrightarrow> tb_rate t' = tb_rate t \<and> tb_burst t' = tb_burst t \<and> tb_max_keys t' = tb_max_keys t"

fun tb_run :: "(instant \<times> string) list \<Rightarrow> token_bucket \<Rightarrow> bool list \<times> token_bucket" where
  "tb_run [] t = ([], t)"
| "tb_run ((now, k) # cs) t =
     (let ((ok, d), t1) = tb_allow k now t; (oks, t2) = tb_run cs t1 in (ok # oks, t2))"

lemma same_settings_simps:
  "same_settings t t' \<Longrightarrow> settings_ok t' = settings_ok t"
  "same_settings t t' \<Longrightarrow> bucket_ok t' b = bucket_ok t b"
  "same_settings t t' \<Longrightarrow> refill t' now b = refill t now b"
  "same_settings t t' \<Longrightarrow> take_token t' b = take_token t b"
  by (auto simp: same_settings_def settings_ok_def bucket_ok_def refill_def take_token_def)

lemma evict_parts:
  "same_settings t (evict now t)"
  "set (tb_buckets (evict now t)) \<subseteq> set (tb_buckets t)"
  "distinct (map fst (tb_buckets t)) \<Longrightarrow> distinct (map fst (tb_buckets (evict now t)))"
  by (auto simp: evict_def same_settings_def Let_def distinct_map_fst_filter)

text \<open>Eviction always makes room: it drops the long idle buckets, or the coldest tenth of the rest.\<close>

lemma evict_room:
  assumes "int (length (tb_buckets t)) \<le> tb_max_keys t" "0 < tb_max_keys t"
  shows "int (length (tb_buckets (evict now t))) < tb_max_keys t"
proof -
  define kept where "kept = filter (\<lambda>(k, b). \<not> fdiv (fmul 2 (tb_burst t)) (tb_rate t)
      \<le> seconds (time_sub now (tk_last b))) (tb_buckets t)"
  have len: "length kept \<le> length (tb_buckets t)" by (simp add: kept_def)
  show ?thesis
  proof (cases "int (length kept) < tb_max_keys t")
    case True
    then show ?thesis by (simp add: evict_def Let_def kept_def)
  next
    case False
    then have ne: "kept \<noteq> []" using assms(2) by auto
    define all where "all = sort_key (\<lambda>(k, b). tk_last b) kept"
    have all: "all \<noteq> []" "set all = set kept" "length all = length kept"
      using ne unfolding all_def by (metis length_sort length_0_conv, simp_all)
    obtain k b where kb: "hd all = (k, b)" by fastforce
    have first: "(k, b) \<in> set (take (length all div 10 + 1) all)"
      using all(1) kb by (cases all) auto
    have "length (filter (\<lambda>(k, b). k \<notin> set (map fst (take (length all div 10 + 1) all))) kept) < length kept"
    proof (rule length_filter_less)
      show "(k, b) \<in> set kept" using kb all by (metis list.set_sel(1))
      show "\<not> (case (k, b) of (k, b) \<Rightarrow> k \<notin> set (map fst (take (length all div 10 + 1) all)))"
        using first by force
    qed
    then show ?thesis
      using False assms(1) len
      by (simp add: evict_def Let_def kept_def [symmetric] all_def [symmetric])
  qed
qed

lemma tb_allow_cases:
  assumes "tb_ok t" "tb_allow k now t = ((ok, d), t')"
  obtains t1 b1 b2 where "same_settings t t1" "set (tb_buckets t1) \<subseteq> set (tb_buckets t)"
    "distinct (map fst (tb_buckets t1))" "take_token t b1 = (ok, d, b2)"
    "t' = t1\<lparr>tb_buckets := AList.update k b2 (tb_buckets t1)\<rparr>"
    "k \<in> fst ` set (tb_buckets t) \<and> t1 = t \<and> (\<exists>b. map_of (tb_buckets t) k = Some b \<and> b1 = refill t now b) \<or>
     k \<notin> fst ` set (tb_buckets t) \<and> b1 = \<lparr>tk_tokens = tb_burst t, tk_last = now\<rparr> \<and>
       int (length (tb_buckets t1)) < tb_max_keys t \<and>
       (int (length (tb_buckets t)) < tb_max_keys t \<longrightarrow> t1 = t)"
proof (cases "map_of (tb_buckets t) k")
  case (Some b)
  have mem: "k \<in> fst ` set (tb_buckets t)" using map_of_SomeD [OF Some] by force
  obtain b2 where b2: "take_token t (refill t now b) = (ok, d, b2)"
    using assms(2) Some by (auto simp: tb_allow_def split: prod.splits)
  show ?thesis
    by (rule that [of t "refill t now b" b2])
      (use assms Some mem b2 in \<open>auto simp: tb_allow_def same_settings_def tb_ok_def\<close>)
next
  case None
  let ?t1 = "if tb_max_keys t \<le> int (length (tb_buckets t)) then evict now t else t"
  let ?b1 = "\<lparr>tk_tokens = tb_burst t, tk_last = now\<rparr>"
  have mem: "k \<notin> fst ` set (tb_buckets t)" using None by (simp add: map_of_eq_None_iff)
  have room: "int (length (tb_buckets ?t1)) < tb_max_keys t"
    using evict_room [of t now] assms(1) by (auto simp: tb_ok_def settings_ok_def)
  obtain b2 where b2: "take_token t ?b1 = (ok, d, b2)"
    using assms(2) None by (auto simp: tb_allow_def split: prod.splits)
  show ?thesis
    by (rule that [of ?t1 ?b1 b2])
      (use assms None mem b2 room evict_parts in
        \<open>auto simp: tb_allow_def same_settings_def tb_ok_def\<close>)
qed

lemma fst_set_update: "fst ` set (AList.update k v xs) = insert k (fst ` set xs)"
  by (induction xs) auto

lemma set_update_subset: "set (AList.update k v xs) \<subseteq> insert (k, v) (set xs)"
  by (induction xs) auto

lemma tb_allow_ok:
  assumes "tb_ok t" "tb_allow k now t = ((ok, d), t')"
  shows "tb_ok t'" "same_settings t t'"
proof -
  obtain t1 b1 b2 where *: "same_settings t t1" "distinct (map fst (tb_buckets t1))"
      "t' = t1\<lparr>tb_buckets := AList.update k b2 (tb_buckets t1)\<rparr>"
      "k \<in> fst ` set (tb_buckets t1) \<and> t1 = t \<or> int (length (tb_buckets t1)) < tb_max_keys t"
    using tb_allow_cases [OF assms] by metis
  show "same_settings t t'" using *(1,3) by (simp add: same_settings_def)
  have "int (length (tb_buckets t')) \<le> tb_max_keys t"
    using *(3,4) assms(1)
    by (cases "k \<in> fst ` set (tb_buckets t1)") (auto simp: tb_ok_def length_update_new length_update_old)
  then show "tb_ok t'"
    using * assms(1) same_settings_simps(1) [OF *(1)]
    by (auto simp: tb_ok_def same_settings_def distinct_update settings_ok_def)
qed

lemma tb_allow_calm:
  assumes "tb_ok t" "calm now0 t" "now0 \<le> now" "tb_allow k now t = ((ok, d), t')"
  shows "calm now t'"
proof -
  obtain t1 b1 b2 where *: "same_settings t t1" "set (tb_buckets t1) \<subseteq> set (tb_buckets t)"
      "take_token t b1 = (ok, d, b2)" "t' = t1\<lparr>tb_buckets := AList.update k b2 (tb_buckets t1)\<rparr>"
      "(\<exists>b. map_of (tb_buckets t) k = Some b \<and> b1 = refill t now b) \<or> b1 = \<lparr>tk_tokens = tb_burst t, tk_last = now\<rparr>"
    using tb_allow_cases [OF assms(1,4)] by metis
  have s: "settings_ok t" using assms(1) by (simp add: tb_ok_def)
  have b1: "bucket_ok t b1 \<and> tk_last b1 = now"
  proof (cases "b1 = \<lparr>tk_tokens = tb_burst t, tk_last = now\<rparr>")
    case True
    then show ?thesis using s by (simp add: bucket_ok_def settings_ok_def)
  next
    case False
    then obtain b where b: "map_of (tb_buckets t) k = Some b" "b1 = refill t now b" using *(5) by blast
    then have "bucket_ok t b" "tk_last b \<le> now"
      using assms(2,3) map_of_SomeD [OF b(1)] by (auto simp: calm_def)
    then show ?thesis using refill_ok(1) [OF s] b(2) by (simp add: refill_def)
  qed
  then have b2: "bucket_ok t b2 \<and> tk_last b2 = now"
    using take_token_ok [OF s _ *(3)] by auto
  have "same_settings t t'" using *(1,4) by (simp add: same_settings_def)
  moreover have "set (tb_buckets t') \<subseteq> insert (k, b2) (set (tb_buckets t))"
    using set_update_subset [of k b2 "tb_buckets t1"] *(2,4) by auto
  ultimately show ?thesis
    using b2 assms(2,3) by (force simp: calm_def same_settings_simps)
qed

section \<open>Runs\<close>

lemma tb_run_ok:
  assumes "tb_ok t" "tb_run cs t = (oks, t')"
  shows "tb_ok t'" "same_settings t t'" "length oks = length cs"
proof -
  have "tb_ok t \<Longrightarrow> tb_run cs t = (oks, t') \<Longrightarrow> tb_ok t' \<and> same_settings t t' \<and> length oks = length cs" for t oks t'
  proof (induction cs arbitrary: t oks t')
    case (Cons c cs)
    obtain now k ok d t1 oks1 t2 where *: "c = (now, k)" "tb_allow k now t = ((ok, d), t1)" "tb_run cs t1 = (oks1, t2)"
      by (metis prod.exhaust)
    note t1 = tb_allow_ok [OF Cons.prems(1) *(2)]
    have "tb_ok t2 \<and> same_settings t1 t2 \<and> length oks1 = length cs"
      by (rule Cons.IH [OF t1(1) *(3)])
    then show ?case
      using Cons.prems(2) * t1(2) by (auto simp: same_settings_def)
  qed (auto simp: same_settings_def)
  then show "tb_ok t'" "same_settings t t'" "length oks = length cs" using assms by auto
qed

lemma tb_run_calm:
  "tb_ok t \<Longrightarrow> calm t0 t \<Longrightarrow> sorted (t0 # map fst cs) \<Longrightarrow> tb_run cs t = (oks, t') \<Longrightarrow>
    \<exists>now. calm now t'"
proof (induction cs arbitrary: t t0 oks t')
  case (Cons c cs)
  obtain now k ok d t1 oks1 t2 where *: "c = (now, k)" "tb_allow k now t = ((ok, d), t1)" "tb_run cs t1 = (oks1, t2)"
    by (metis prod.exhaust)
  have "calm now t1" using Cons.prems * by (intro tb_allow_calm [OF _ _ _ *(2)]) auto
  then show ?case
    using Cons.IH [of t1 now oks1 t2] Cons.prems * tb_allow_ok(1) [OF Cons.prems(1) *(2)] by auto
qed auto

definition admitted :: "string \<Rightarrow> (instant \<times> string) list \<Rightarrow> bool list \<Rightarrow> nat" where
  "admitted k cs oks = length (filter (\<lambda>((t, k'), ok). k' = k \<and> ok) (zip cs oks))"

definition calls_of :: "string \<Rightarrow> (instant \<times> string) list \<Rightarrow> nat" where
  "calls_of k cs = length (filter (\<lambda>(t, k'). k' = k) cs)"

definition allowance :: "token_bucket \<Rightarrow> string \<Rightarrow> instant \<Rightarrow> instant \<Rightarrow> rat" where
  \<comment> \<open>what the limiter can still grant \<open>k\<close> until \<open>t2\<close>: the tokens it holds and those to come\<close>
  "allowance t k t1 t2 =
     (case map_of (tb_buckets t) k of
        Some b \<Rightarrow> tk_tokens b + tb_rate t * (of_int (t2 - tk_last b) / 1000000000) * (1 + slack)
      | None \<Rightarrow> tb_burst t + tb_rate t * (of_int (t2 - t1) / 1000000000) * (1 + slack))"

definition room_for :: "token_bucket \<Rightarrow> (instant \<times> string) list \<Rightarrow> bool" where
  "room_for t cs \<longleftrightarrow> int (card (fst ` set (tb_buckets t) \<union> snd ` set cs)) \<le> tb_max_keys t"

lemma room_no_evict:
  assumes "distinct (map fst (tb_buckets t))" "room_for t ((now, k) # cs)" "k \<notin> fst ` set (tb_buckets t)"
  shows "int (length (tb_buckets t)) < tb_max_keys t"
proof -
  let ?K = "fst ` set (tb_buckets t)"
  have "length (tb_buckets t) = card ?K"
    using distinct_card [OF assms(1)] by simp
  moreover have "card ?K < card (?K \<union> snd ` set ((now, k) # cs))"
    by (rule psubset_card_mono) (use assms(3) in auto)
  ultimately show ?thesis using assms(2) by (simp add: room_for_def)
qed

lemma rate_time_mono:
  "0 \<le> r \<Longrightarrow> a \<le> b \<Longrightarrow> r * (of_int a / 1000000000) * (1 + slack) \<le> r * (of_int b / 1000000000) * (1 + slack)"
  by (intro mult_right_mono mult_left_mono divide_right_mono) (auto simp: slack_def ulp_def)

lemma rate_time_add:
  "r * (of_int (a - b) / 1000000000) * (1 + slack) + r * (of_int (b - c) / 1000000000) * (1 + slack) =
    r * (of_int (a - c) / 1000000000) * (1 + slack)"
  by (simp add: diff_divide_distrib left_diff_distrib right_diff_distrib)

lemma tb_allow_no_evict:
  assumes "tb_ok t" "room_for t ((now, k) # cs)" "tb_allow k now t = ((ok, d), t')"
  shows "\<exists>b1 b2. take_token t b1 = (ok, d, b2) \<and> t' = t\<lparr>tb_buckets := AList.update k b2 (tb_buckets t)\<rparr> \<and>
    ((\<exists>b. map_of (tb_buckets t) k = Some b \<and> b1 = refill t now b) \<or>
     map_of (tb_buckets t) k = None \<and> b1 = \<lparr>tk_tokens = tb_burst t, tk_last = now\<rparr>)"
proof (cases "map_of (tb_buckets t) k")
  case None
  then have "\<not> tb_max_keys t \<le> int (length (tb_buckets t))"
    using room_no_evict [OF _ assms(2)] assms(1) by (simp add: tb_ok_def map_of_eq_None_iff)
  then show ?thesis using assms(3) None by (auto simp: tb_allow_def split: prod.splits)
qed (use assms(3) in \<open>auto simp: tb_allow_def split: prod.splits\<close>)

lemma tb_allow_allowance:
  assumes "tb_ok t" "calm t1 t" "t1 \<le> now" "now \<le> t2" "room_for t ((now, k') # cs)"
    and "tb_allow k' now t = ((ok, d), t')"
  shows "room_for t' cs"
    and "of_bool (k' = k \<and> ok) + allowance t' k now t2 \<le>
      allowance t k t1 t2 + (if k' = k then 2 * (tb_burst t * ulp) else 0)"
proof -
  obtain b1 b2 where *: "take_token t b1 = (ok, d, b2)" "t' = t\<lparr>tb_buckets := AList.update k' b2 (tb_buckets t)\<rparr>"
      "(\<exists>b. map_of (tb_buckets t) k' = Some b \<and> b1 = refill t now b) \<or>
       map_of (tb_buckets t) k' = None \<and> b1 = \<lparr>tk_tokens = tb_burst t, tk_last = now\<rparr>"
    using tb_allow_no_evict [OF assms(1,5,6)] by blast
  have s: "settings_ok t" "0 \<le> tb_rate t" using assms(1) by (auto simp: tb_ok_def settings_ok_def)
  have keys: "fst ` set (tb_buckets t') = insert k' (fst ` set (tb_buckets t))"
    using *(2) by (simp add: fst_set_update)
  then show "room_for t' cs" using assms(5) *(2) by (simp add: room_for_def)
  have u: "0 \<le> tb_burst t * ulp" using s ulp_pos by (simp add: settings_ok_def)
  show "of_bool (k' = k \<and> ok) + allowance t' k now t2 \<le>
      allowance t k t1 t2 + (if k' = k then 2 * (tb_burst t * ulp) else 0)"
  proof (cases "k' = k")
    case False
    then have "map_of (tb_buckets t') k = map_of (tb_buckets t) k" using *(2) by (simp add: update_conv')
    then show ?thesis
      using False *(2) rate_time_mono [OF s(2), of "t2 - now" "t2 - t1"] assms(3)
      by (auto simp: allowance_def split: option.splits)
  next
    case True
    then have at': "map_of (tb_buckets t') k = Some b2" using *(2) by (simp add: update_conv')
    show ?thesis
    proof (cases "map_of (tb_buckets t) k")
      case None
      then have b1: "b1 = \<lparr>tk_tokens = tb_burst t, tk_last = now\<rparr>" using *(3) True by auto
      then have "bucket_ok t b1" using s by (simp add: bucket_ok_def settings_ok_def)
      note tk = take_token_ok [OF s(1) this *(1)]
      have "of_bool ok + (tk_tokens b2 + tb_rate t * (of_int (t2 - now) / 1000000000) * (1 + slack)) \<le>
          tb_burst t + tb_burst t * ulp + tb_rate t * (of_int (t2 - t1) / 1000000000) * (1 + slack)"
        using tk(3) b1 rate_time_mono [OF s(2), of "t2 - now" "t2 - t1"] assms(3) by simp
      moreover have "allowance t' k now t2 = tk_tokens b2 + tb_rate t * (of_int (t2 - now) / 1000000000) * (1 + slack)"
        using at' tk(2) b1 *(2) by (simp add: allowance_def)
      moreover have "allowance t k t1 t2 = tb_burst t + tb_rate t * (of_int (t2 - t1) / 1000000000) * (1 + slack)"
        using None by (simp add: allowance_def)
      ultimately show ?thesis using True u by simp
    next
      case (Some b)
      then have b1: "b1 = refill t now b" using *(3) True by auto
      have b: "bucket_ok t b" "tk_last b \<le> now"
        using assms(2,3) map_of_SomeD [OF Some] by (auto simp: calm_def)
      note rf = refill_ok [OF s(1) b]
      note tk = take_token_ok [OF s(1) _ *(1), unfolded b1, OF rf(1)]
      have "of_bool ok + (tk_tokens b2 + tb_rate t * (of_int (t2 - now) / 1000000000) * (1 + slack)) \<le>
          tk_tokens b + tb_rate t * (of_int (t2 - tk_last b) / 1000000000) * (1 + slack) + 2 * (tb_burst t * ulp)"
        using tk(3) rf(2) rate_time_add [of "tb_rate t" t2 now "tk_last b"] by simp
      moreover have "allowance t' k now t2 = tk_tokens b2 + tb_rate t * (of_int (t2 - now) / 1000000000) * (1 + slack)"
        using at' tk(2) *(2) by (simp add: allowance_def refill_def)
      moreover have "allowance t k t1 t2 = tk_tokens b + tb_rate t * (of_int (t2 - tk_last b) / 1000000000) * (1 + slack)"
        using Some by (simp add: allowance_def)
      ultimately show ?thesis using True by simp
    qed
  qed
qed

lemma allowance_nonneg:
  assumes "tb_ok t" "calm t1 t" "t1 \<le> t2"
  shows "0 \<le> allowance t k t1 t2"
proof -
  have s: "0 \<le> tb_rate t" "0 \<le> tb_burst t" using assms(1) by (auto simp: tb_ok_def settings_ok_def)
  have time: "0 \<le> tb_rate t * (of_int (t2 - a) / 1000000000) * (1 + slack)" if "a \<le> t2" for a
    using rate_time_mono [OF s(1), of 0 "t2 - a"] that by simp
  show ?thesis
  proof (cases "map_of (tb_buckets t) k")
    case None
    then show ?thesis using s time [of t1] assms(3) by (simp add: allowance_def)
  next
    case (Some b)
    then have "0 \<le> tk_tokens b" "tk_last b \<le> t2"
      using assms(2,3) map_of_SomeD [OF Some] by (auto simp: calm_def bucket_ok_def)
    then show ?thesis using Some time [of "tk_last b"] by (simp add: allowance_def)
  qed
qed

lemma tb_run_allowance:
  assumes "tb_ok t" "calm t1 t" "sorted (t1 # map fst cs)" "t1 \<le> t2" "\<forall>(now, k) \<in> set cs. now \<le> t2"
    and "room_for t cs" "tb_run cs t = (oks, t')"
  shows "of_nat (admitted k cs oks) \<le> allowance t k t1 t2 + of_nat (calls_of k cs) * (2 * (tb_burst t * ulp))"
  using assms
proof (induction cs arbitrary: t t1 oks t')
  case Nil
  then show ?case using allowance_nonneg [OF Nil.prems(1,2,4)] by (simp add: admitted_def calls_of_def)
next
  case (Cons c cs)
  obtain now k' ok d ta oks1 tb where *: "c = (now, k')" "tb_allow k' now t = ((ok, d), ta)" "tb_run cs ta = (oks1, tb)"
    by (metis prod.exhaust)
  have now: "t1 \<le> now" "now \<le> t2" using Cons.prems(3,5) * by auto
  note ok = tb_allow_ok [OF Cons.prems(1) *(2)]
  note step = tb_allow_allowance(1) [OF Cons.prems(1,2) now _ *(2), of cs]
    tb_allow_allowance(2) [OF Cons.prems(1,2) now _ *(2), of cs k]
  have room: "room_for t ((now, k') # cs)" using Cons.prems(6) * by simp
  have "of_nat (admitted k cs oks1) \<le> allowance ta k now t2 + of_nat (calls_of k cs) * (2 * (tb_burst ta * ulp))"
    by (rule Cons.IH [OF ok(1) tb_allow_calm [OF Cons.prems(1,2) now(1) *(2)] _ now(2) _ step(1) [OF room] *(3)])
      (use Cons.prems(3,5) * in auto)
  moreover have "of_nat (admitted k (c # cs) oks) = (of_bool (k' = k \<and> ok) + of_nat (admitted k cs oks1) :: rat)"
    using Cons.prems(7) * by (auto simp: admitted_def)
  moreover have "of_nat (calls_of k (c # cs)) * (2 * (tb_burst t * ulp)) =
      (if k' = k then 2 * (tb_burst t * ulp) else 0) + of_nat (calls_of k cs) * (2 * (tb_burst t * ulp))"
    using * by (simp add: calls_of_def distrib_right)
  moreover have "tb_burst ta = tb_burst t" using ok(2) by (simp add: same_settings_def)
  ultimately show ?case using step(2) [OF room] by simp
qed

lemma new_token_bucket_ok:
  assumes "0 < rate"
  shows "tb_ok (new_token_bucket rate burst m)"
proof -
  have "1 \<le> (if burst < 1 then ftrunc (max 1 rate) else burst)" by (auto simp: ftrunc_def)
  then have "1 \<le> rnd (of_int (if burst < 1 then ftrunc (max 1 rate) else burst))"
    using rnd_mono [of 1 "of_int (if burst < 1 then ftrunc (max 1 rate) else burst)"] by simp
  then show ?thesis
    using assms by (simp add: tb_ok_def settings_ok_def new_token_bucket_def of_int64_def Let_def
      pos_or_default_def default_max_keys_def)
qed

lemma new_token_bucket_calm: "calm now (new_token_bucket rate burst m)"
  by (simp add: calm_def new_token_bucket_def Let_def)


lemma demo_limit:
  "fst (tb_run [(0, ''a''), (0, ''b''), (0, ''a''), (500000000, ''a''), (500000000, ''a'')] (new_token_bucket 2 1 0)) =
    [True, True, False, True, False]"
  by code_simp


text \<open>C25: the limiter's memory is bounded and its buckets stay in range. Whatever keys are asked
  for, in any order and at any clock readings, it never holds more buckets than MaxKeys and
  never two for one key; at clock readings that do not go back every bucket holds between 0
  and burst tokens.\<close>

theorem token_bucket_bounded:
  assumes "0 < rate" "tb_run cs (new_token_bucket rate burst m) = (oks, t)"
  shows "int (length (tb_buckets t)) \<le> pos_or_default m default_max_keys \<and> distinct (map fst (tb_buckets t)) \<and>
    (sorted (map fst cs) \<longrightarrow> (\<forall>(k, b) \<in> set (tb_buckets t). 0 \<le> tk_tokens b \<and> tk_tokens b \<le> tb_burst t))"
proof -
  let ?t0 = "new_token_bucket rate burst m"
  note run = tb_run_ok [OF new_token_bucket_ok [OF assms(1)] assms(2)]
  have m: "tb_max_keys t = pos_or_default m default_max_keys"
    using run(2) by (simp add: same_settings_def new_token_bucket_def Let_def)
  have "\<forall>(k, b) \<in> set (tb_buckets t). 0 \<le> tk_tokens b \<and> tk_tokens b \<le> tb_burst t" if "sorted (map fst cs)"
  proof -
    have "sorted (hd (map fst cs @ [0]) # map fst cs)" using that by (cases cs) auto
    then obtain now where "calm now t"
      using tb_run_calm [OF new_token_bucket_ok [OF assms(1)] new_token_bucket_calm _ assms(2)] by blast
    then show ?thesis by (auto simp: calm_def bucket_ok_def)
  qed
  then show ?thesis using run(1) m by (simp add: tb_ok_def)
qed

lemma token_bucket_bounded_witness:
  "\<exists>t. snd (tb_run [(0, ''a''), (5, ''b''), (9, ''c'')] (new_token_bucket 2 1 2)) = t \<and>
    int (length (tb_buckets t)) \<le> 2 \<and> (\<forall>(k, b) \<in> set (tb_buckets t). 0 \<le> tk_tokens b)"
proof -
  obtain oks t where run: "tb_run [(0, ''a''), (5, ''b''), (9, ''c'')] (new_token_bucket 2 1 2) = (oks, t)"
    by (metis prod.exhaust)
  have "int (length (tb_buckets t)) \<le> pos_or_default 2 default_max_keys \<and> distinct (map fst (tb_buckets t)) \<and>
    (sorted (map fst [(0 :: instant, ''a''), (5, ''b''), (9, ''c'')]) \<longrightarrow>
      (\<forall>(k, b) \<in> set (tb_buckets t). 0 \<le> tk_tokens b \<and> tk_tokens b \<le> tb_burst t))"
    by (rule token_bucket_bounded [OF _ run]) simp
  then show ?thesis using run by (auto simp: pos_or_default_def)
qed

end
