(* ===== verification/Middleware.thy ===== *)
theory Middleware
  imports HttpBase NetAddr Float64
begin

text \<open>
  The request-scoped middleware of \<^verbatim>\<open>src/httpx/middleware\<close>: correlation IDs
  (\<^verbatim>\<open>requestid.go\<close>), W3C trace context (\<^verbatim>\<open>trace.go\<close>), CORS (\<^verbatim>\<open>cors.go\<close>), security headers
  (\<^verbatim>\<open>secureheaders.go\<close>), the body limit (\<^verbatim>\<open>bodylimit.go\<close>), panic recovery (\<^verbatim>\<open>recover.go\<close>) and
  the access line (\<^verbatim>\<open>logger.go\<close>). Random bytes come from a source \<open>rd n g\<close>, which reads \<open>n\<close>
  bytes or fails and moves on; the construction panics are \<open>Inl\<close>.
\<close>

section \<open>Random identifiers\<close>

type_synonym 'g source = "nat \<Rightarrow> 'g \<Rightarrow> string option \<times> 'g"

definition hex_digit :: "nat \<Rightarrow> char" where
  "hex_digit n = (if n < 10 then char_of (48 + n) else char_of (87 + n))"

definition hex_encode :: "string \<Rightarrow> string" where
  "hex_encode s = concat (map (\<lambda>c. [hex_digit (byte_of c div 16), hex_digit (byte_of c mod 16)]) s)"

definition random_hex :: "'g source \<Rightarrow> nat \<Rightarrow> 'g \<Rightarrow> string option \<times> 'g" where
  "random_hex rd n g = (let (b, g') = rd n g in (map_option hex_encode b, g'))"

section \<open>Request IDs\<close>

definition default_request_id_header :: string where
  "default_request_id_header = ''X-Request-ID''"

record request_id_config =
  ri_header :: string
  ri_valid :: "(string \<Rightarrow> bool) option"

definition strict_request_id :: "string \<Rightarrow> bool" where
  "strict_request_id s \<longleftrightarrow> s \<noteq> [] \<and> length s \<le> 64 \<and>
     list_all (\<lambda>c. is_lower c \<or> is_upper c \<or> is_digit c \<or> c = CHR ''.'' \<or> c = CHR ''_'' \<or> c = CHR ''-'') s"

definition request_id_valid :: "request_id_config \<Rightarrow> string \<Rightarrow> bool" where
  "request_id_valid cfg = (case ri_valid cfg of Some f \<Rightarrow> f | None \<Rightarrow> (\<lambda>s. length s \<le> 128))"

definition request_id_header :: "request_id_config \<Rightarrow> string" where
  "request_id_header cfg = (if ri_header cfg = [] then default_request_id_header else ri_header cfg)"

definition with_request_header :: "string \<Rightarrow> string \<Rightarrow> request \<Rightarrow> request" where
  "with_request_header name v r =
     r\<lparr>rq_header := (if v = [] then header_del name (rq_header r) else header_set name v (rq_header r))\<rparr>"

definition request_id_key :: string where
  "request_id_key = ''requestIDKey''"

definition request_id :: "request_id_config \<Rightarrow> 'g source \<Rightarrow> 'g \<Rightarrow> request \<Rightarrow> writer \<Rightarrow> gate \<times> 'g" where
  "request_id cfg rd g r w =
     (let header = request_id_header cfg;
          id = header_get (rq_header r) header;
          rejected = (id \<noteq> [] \<and> \<not> request_id_valid cfg id);
          accept = (\<lambda>id g. let r1 = (if rejected then with_request_header header id r else r)
                    in (Next (ctx_with request_id_key id r1) (on_header (header_set header id) w), g))
      in if id = [] \<or> rejected then
           (case random_hex rd 16 g of
              (None, g') \<Rightarrow> (Next (if rejected then with_request_header header [] r else r) w, g')
            | (Some fresh, g') \<Rightarrow> accept fresh g')
         else accept id g)"

definition request_id_from :: "request \<Rightarrow> string" where
  "request_id_from r = ctx_get r request_id_key"

section \<open>Trace context\<close>

definition is_lower_hex :: "string \<Rightarrow> bool" where
  "is_lower_hex s \<longleftrightarrow> list_all (\<lambda>c. is_digit c \<or> (97 \<le> byte_of c \<and> byte_of c \<le> 102)) s"

definition all_zero :: "string \<Rightarrow> bool" where
  "all_zero s \<longleftrightarrow> list_all (\<lambda>c. c = CHR ''0'') s"

definition substr :: "nat \<Rightarrow> nat \<Rightarrow> string \<Rightarrow> string" where
  "substr a b s = take (b - a) (drop a s)"

definition parse_traceparent :: "string \<Rightarrow> (string \<times> string) option" where
  "parse_traceparent s =
     (if length s \<noteq> 55 \<or> s ! 2 \<noteq> CHR ''-'' \<or> s ! 35 \<noteq> CHR ''-'' \<or> s ! 52 \<noteq> CHR ''-'' then None
      else let version = substr 0 2 s; trace_id = substr 3 35 s; parent_id = substr 36 52 s; flags = substr 53 55 s
        in if \<not> is_lower_hex version \<or> \<not> is_lower_hex trace_id \<or> \<not> is_lower_hex parent_id \<or> \<not> is_lower_hex flags
           then None
           else if version = ''ff'' \<or> all_zero trace_id \<or> all_zero parent_id then None
           else Some (trace_id, flags))"

definition trace_id_key :: string where "trace_id_key = ''traceIDKey''"
definition span_id_key :: string where "span_id_key = ''spanIDKey''"
definition trace_flags_key :: string where "trace_flags_key = ''traceFlagsKey''"

definition trace :: "'g source \<Rightarrow> 'g \<Rightarrow> request \<Rightarrow> request \<times> 'g" where
  "trace rd g r =
     (let (ids, g1) =
        (case parse_traceparent (header_get (rq_header r) ''Traceparent'') of
           Some (t, f) \<Rightarrow> (Some (t, f), g)
         | None \<Rightarrow> (case random_hex rd 16 g of
             (None, g') \<Rightarrow> (None, g') | (Some t, g') \<Rightarrow> (Some (t, ''01''), g')))
      in case ids of
           None \<Rightarrow> (r, g1)
         | Some (t, f) \<Rightarrow>
             (case random_hex rd 8 g1 of
                (None, g2) \<Rightarrow> (r, g2)
              | (Some sp, g2) \<Rightarrow>
                  (ctx_with trace_flags_key f (ctx_with span_id_key sp (ctx_with trace_id_key t r)), g2)))"

definition trace_id_from :: "request \<Rightarrow> string" where "trace_id_from r = ctx_get r trace_id_key"
definition span_id_from :: "request \<Rightarrow> string" where "span_id_from r = ctx_get r span_id_key"
definition trace_flags_from :: "request \<Rightarrow> string" where "trace_flags_from r = ctx_get r trace_flags_key"

section \<open>CORS\<close>

record cors_config =
  co_origins :: "string list"
  co_methods :: "string list option"
  co_headers :: "string list"
  co_exposed :: "string list"
  co_credentials :: bool
  co_max_age :: duration

definition cors_default_methods :: "string list" where
  "cors_default_methods = [''GET'', ''POST'', ''PUT'', ''PATCH'', ''DELETE'', ''HEAD'', ''OPTIONS'', ''QUERY'']"

definition cors_new :: "cors_config \<Rightarrow> string + cors_config" where
  "cors_new cfg =
     (if ''*'' \<in> set (co_origins cfg) \<and> co_credentials cfg
      then Inl ''middleware: CORS wildcard origin cannot be combined with credentials''
      else Inr (cfg\<lparr>co_methods := Some (case co_methods cfg of None \<Rightarrow> cors_default_methods | Some ms \<Rightarrow> ms)\<rparr>))"

definition set_if :: "bool \<Rightarrow> string \<Rightarrow> string \<Rightarrow> header \<Rightarrow> header" where
  "set_if b k v h = (if b then header_set k v h else h)"

definition preflight_allow :: "cors_config \<Rightarrow> string \<Rightarrow> string \<Rightarrow> header \<Rightarrow> header" where
  "preflight_allow cfg allow_origin requested h =
     (let allow_headers = join '', '' (co_headers cfg);
          h1 = header_set ''Access-Control-Allow-Methods'' (join '', '' (the (co_methods cfg)))
                 (header_set ''Access-Control-Allow-Origin'' allow_origin h);
          h2 = (if allow_headers \<noteq> [] then header_set ''Access-Control-Allow-Headers'' allow_headers h1
                else set_if (requested \<noteq> []) ''Access-Control-Allow-Headers'' requested h1);
          h3 = set_if (co_credentials cfg) ''Access-Control-Allow-Credentials'' ''true'' h2
      in set_if (0 < co_max_age cfg) ''Access-Control-Max-Age'' (format_int (quot (co_max_age cfg) second)) h3)"

definition cors_allowed :: "cors_config \<Rightarrow> string \<Rightarrow> bool" where
  "cors_allowed cfg origin \<longleftrightarrow> ''*'' \<in> set (co_origins cfg) \<or> origin \<in> set (co_origins cfg)"

definition cors_origin :: "cors_config \<Rightarrow> string \<Rightarrow> string" where
  "cors_origin cfg origin = (if ''*'' \<in> set (co_origins cfg) then ''*'' else origin)"

definition cors_stamp :: "cors_config \<Rightarrow> string \<Rightarrow> header \<Rightarrow> header" where
  "cors_stamp cfg allow_origin h =
     (let expose = join '', '' (co_exposed cfg);
          h1 = header_set ''Access-Control-Allow-Origin'' allow_origin h;
          h2 = set_if (co_credentials cfg) ''Access-Control-Allow-Credentials'' ''true'' h1
      in set_if (expose \<noteq> []) ''Access-Control-Expose-Headers'' expose h2)"

definition cors_vary :: "header \<Rightarrow> header" where
  "cors_vary h = header_add ''Vary'' ''Access-Control-Request-Headers''
     (header_add ''Vary'' ''Access-Control-Request-Method'' h)"

definition cors :: "cors_config \<Rightarrow> request \<Rightarrow> writer \<Rightarrow> gate" where
  "cors cfg r w =
     (let w1 = on_header (header_add ''Vary'' ''Origin'') w;
          origin = header_get (rq_header r) ''Origin'';
          req_method = header_get (rq_header r) ''Access-Control-Request-Method''
      in if origin = [] then Next r w1
         else if rq_method r = ''OPTIONS'' \<and> req_method \<noteq> [] then
           (let w2 = on_header cors_vary w1;
                w3 = (if cors_allowed cfg origin \<and> req_method \<in> set (the (co_methods cfg))
                      then on_header (preflight_allow cfg (cors_origin cfg origin)
                             (header_get (rq_header r) ''Access-Control-Request-Headers'')) w2
                      else w2)
            in Done (write_header 204 w3))
         else Next r (if cors_allowed cfg origin
                      then on_header (cors_stamp cfg (cors_origin cfg origin)) w1 else w1))"

section \<open>Security headers\<close>

record secure_headers_config =
  sh_content_type_options :: string
  sh_referrer_policy :: string
  sh_csp :: string
  sh_hsts_max_age :: duration
  sh_hsts_sub_domains :: bool
  sh_hsts_preload :: bool

abbreviation squote :: char where
  "squote \<equiv> char_of (39 :: nat)"

definition default_csp :: string where
  "default_csp = ''default-src '' @ [squote] @ ''none'' @ [squote] @ ''; frame-ancestors '' @ [squote] @ ''none'' @ [squote]"

definition default_referrer_policy :: string where
  "default_referrer_policy = ''no-referrer''"

definition omit_header :: string where
  "omit_header = ''-''"

type_synonym header_value = "string \<times> string"

definition add_header_value :: "string \<Rightarrow> string \<Rightarrow> string \<Rightarrow> header_value list \<Rightarrow> header_value list" where
  "add_header_value name v def hs =
     (if v = [] then hs @ [(name, def)] else if v = omit_header then hs else hs @ [(name, v)])"

definition hsts_value :: "secure_headers_config \<Rightarrow> string" where
  "hsts_value cfg = ''max-age='' @ format_int (quot (sh_hsts_max_age cfg) second)
     @ (if sh_hsts_sub_domains cfg then ''; includeSubDomains'' else [])
     @ (if sh_hsts_preload cfg then ''; preload'' else [])"

definition secure_header_values :: "secure_headers_config \<Rightarrow> header_value list" where
  "secure_header_values cfg =
     (let hs = add_header_value ''Content-Security-Policy'' (sh_csp cfg) default_csp
                 (add_header_value ''Referrer-Policy'' (sh_referrer_policy cfg) default_referrer_policy
                   (add_header_value ''X-Content-Type-Options'' (sh_content_type_options cfg) ''nosniff'' []))
      in if 0 < quot (sh_hsts_max_age cfg) second
         then hs @ [(''Strict-Transport-Security'', hsts_value cfg)] else hs)"

definition secure_headers :: "secure_headers_config \<Rightarrow> request \<Rightarrow> writer \<Rightarrow> gate" where
  "secure_headers cfg r w =
     Next r (on_header (\<lambda>h. foldl (\<lambda>h (k, v). header_set k v h) h (secure_header_values cfg)) w)"

section \<open>Body limit\<close>

record body_limit_config =
  bl_max :: int
  bl_error_writer :: error_writer

definition default_max_bind :: int where
  "default_max_bind = 2 ^ 20"

definition body_limit :: "body_limit_config \<Rightarrow> request \<Rightarrow> writer \<Rightarrow> gate" where
  "body_limit cfg r w =
     (let limit = pos_or_default (bl_max cfg) default_max_bind
      in if limit < rq_length r then Done (bl_error_writer cfg r 413 ''request body too large'' w)
         else Next (max_bytes_reader limit r) w)"

section \<open>Panic recovery\<close>

record sent_writer =
  sw_writer :: writer
  sw_sent :: bool

fun sent_act :: "sent_writer \<Rightarrow> action \<Rightarrow> sent_writer" where
  "sent_act s (WriteHeader st) =
     s\<lparr>sw_sent := (sw_sent s \<or> 200 \<le> st), sw_writer := write_header st (sw_writer s)\<rparr>"
| "sent_act s (Write b) = s\<lparr>sw_sent := True, sw_writer := write_body b (sw_writer s)\<rparr>"
| "sent_act s a = s\<lparr>sw_writer := on_header (header_action a) (sw_writer s)\<rparr>"

definition recover :: "error_writer \<Rightarrow> (request \<Rightarrow> handler_run) \<Rightarrow> request \<Rightarrow> writer \<Rightarrow>
    writer \<times> outcome \<times> string option" where
  \<comment> \<open>the last component is the panic value of the logged record\<close>
  "recover ew next r w =
     (let (as, oc) = next r; s = foldl sent_act \<lparr>sw_writer = w, sw_sent = False\<rparr> as
      in case oc of
           Returned \<Rightarrow> (sw_writer s, Returned, None)
         | Aborted \<Rightarrow> (sw_writer s, Aborted, None)
         | Panicked p \<Rightarrow>
             ((if sw_sent s then sw_writer s else ew r 500 ''internal error'' (sw_writer s)), Returned, Some p))"

section \<open>The access line\<close>

record logger_config =
  lg_request_body :: bool
  lg_response_body :: bool
  lg_max_body :: int

definition default_max_body :: int where
  "default_max_body = 64 * 1024"

record status_writer =
  st_writer :: writer
  st_status :: int
  st_bytes :: int
  st_tee :: "string option"
  st_tee_max :: int
  st_truncated :: bool

definition status_write_header :: "int \<Rightarrow> status_writer \<Rightarrow> status_writer" where
  "status_write_header st s =
     (let s1 = (if st_status s = 0 \<and> 200 \<le> st then s\<lparr>st_status := st\<rparr> else s)
      in s1\<lparr>st_writer := write_header st (st_writer s1)\<rparr>)"

definition tee :: "string \<Rightarrow> status_writer \<Rightarrow> status_writer" where
  "tee b s =
     (case st_tee s of
        None \<Rightarrow> s
      | Some buf \<Rightarrow>
          if st_truncated s then s
          else let room = st_tee_max s - int (length buf)
            in if int (length b) \<le> room then s\<lparr>st_tee := Some (buf @ b)\<rparr>
               else s\<lparr>st_tee := Some (buf @ take (nat room) b), st_truncated := True\<rparr>)"

definition status_write :: "string \<Rightarrow> status_writer \<Rightarrow> status_writer" where
  "status_write b s =
     (let s1 = (if st_status s = 0 then s\<lparr>st_status := 200\<rparr> else s); s2 = tee b s1
      in s2\<lparr>st_writer := write_body b (st_writer s2), st_bytes := st_bytes s2 + int (length b)\<rparr>)"

fun status_act :: "status_writer \<Rightarrow> action \<Rightarrow> status_writer" where
  "status_act s (WriteHeader st) = status_write_header st s"
| "status_act s (Write b) = status_write b s"
| "status_act s a = s\<lparr>st_writer := on_header (header_action a) (st_writer s)\<rparr>"

definition capture_request :: "int \<Rightarrow> request \<Rightarrow> string \<times> bool" where
  \<comment> \<open>the captured bytes and whether they were cut; the body the handler reads is unchanged\<close>
  "capture_request m r =
     (let visible = (case rq_body_cap r of None \<Rightarrow> rq_body r | Some c \<Rightarrow> take (nat c) (rq_body r));
          buf = take (nat (wrap64 (m + 1))) visible;
          truncated = m < int (length buf)
      in (if truncated then take (nat m) buf else buf, truncated))"

text \<open>The capture is the body up to the cap, for every cap below the largest \<^verbatim>\<open>int\<close>; with that one it is empty.\<close>

lemma capture_request_capped:
  assumes "0 \<le> m" "m < 2 ^ 63 - 1" "rq_body_cap r = None"
  shows "capture_request m r = (take (nat m) (rq_body r), m < int (length (rq_body r)))"
proof -
  have "wrap64 (m + 1) = m + 1" using assms by (intro wrap64_id) auto
  moreover have "nat (m + 1) = Suc (nat m)" using assms by simp
  ultimately show ?thesis using assms by (auto simp: capture_request_def Let_def min_def)
qed

lemma capture_request_overflow: "capture_request (2 ^ 63 - 1) r = ([], False)"
  by (simp add: capture_request_def wrap64_def)

datatype 'v attr_value = AStr string | AInt int | ABool bool | AFloat f64 | AValue 'v

type_synonym 'v attrs = "(string \<times> 'v attr_value) list"

definition body_attrs :: "(string \<Rightarrow> string option) \<Rightarrow> (string \<Rightarrow> 'v option) \<Rightarrow> string \<Rightarrow> string \<Rightarrow> string \<Rightarrow>
    bool \<Rightarrow> 'v attrs" where
  \<comment> \<open>\<open>media\<close> is \<^verbatim>\<open>mime.ParseMediaType\<close>, \<open>parse\<close> is \<^verbatim>\<open>json.Unmarshal\<close> into any\<close>
  "body_attrs media parse key body content_type truncated =
     (let size = [(key @ ''_size'', AInt (int (length body)))]
      in if truncated then size @ [(key @ ''_truncated'', ABool True)]
         else if body = [] then size
         else case media content_type of
           None \<Rightarrow> size
         | Some mt \<Rightarrow>
             if mt \<noteq> ''application/json'' \<and> \<not> has_suffix mt ''+json'' then size
             else (case parse body of None \<Rightarrow> size | Some v \<Rightarrow> size @ [(key, AValue v)]))"

definition access_attrs :: "string \<Rightarrow> request \<Rightarrow> status_writer \<Rightarrow> duration \<Rightarrow> 'v attrs" where
  "access_attrs pattern r s elapsed =
     [(''method'', AStr (rq_method r)), (''path'', AStr (rq_path r))]
     @ (if pattern \<noteq> [] then [(''pattern'', AStr pattern)] else [])
     @ [(''status'', AInt (if st_status s = 0 then 200 else st_status s)), (''bytes'', AInt (st_bytes s)),
        (''duration_ms'', AFloat (fdiv (of_int64 (quot elapsed 1000)) 1000)),
        (''remote_ip'', AStr (remote_ip (rq_remote r)))]
     @ (if request_id_from r \<noteq> [] then [(''request_id'', AStr (request_id_from r))] else [])
     @ (if trace_id_from r \<noteq> [] then [(''trace_id'', AStr (trace_id_from r))] else [])"

definition logger :: "(string \<Rightarrow> string option) \<Rightarrow> (string \<Rightarrow> 'v option) \<Rightarrow> logger_config \<Rightarrow>
    (request \<Rightarrow> handler_run) \<Rightarrow> (request \<Rightarrow> string) \<Rightarrow> duration \<Rightarrow> request \<Rightarrow> writer \<Rightarrow>
    writer \<times> outcome \<times> 'v attrs option" where
  \<comment> \<open>\<open>pattern\<close> is the route the mux matched below; a panic passes through and no line is written\<close>
  "logger media parse cfg next pattern elapsed r w =
     (let max_body = pos_or_default (lg_max_body cfg) default_max_body;
          s0 = \<lparr>st_writer = w, st_status = 0, st_bytes = 0,
                st_tee = (if lg_response_body cfg then Some [] else None),
                st_tee_max = (if lg_response_body cfg then max_body else 0), st_truncated = False\<rparr>;
          (as, oc) = next r; s = foldl status_act s0 as;
          req = (if lg_request_body cfg
                 then (let (b, cut) = capture_request max_body r
                       in body_attrs media parse ''request_body'' b (header_get (rq_header r) ''Content-Type'') cut)
                 else []);
          resp = (case st_tee s of None \<Rightarrow> []
                  | Some b \<Rightarrow> body_attrs media parse ''response_body'' b
                      (header_get (wr_header (st_writer s)) ''Content-Type'') (st_truncated s))
      in (st_writer s, oc, if oc = Returned then Some (access_attrs (pattern r) r s elapsed @ req @ resp) else None))"

section \<open>Identifiers: lemmas\<close>

lemma substr_append [simp]: "length a = i \<Longrightarrow> i + length b = j \<Longrightarrow> substr i j (a @ b @ c) = b"
  by (auto simp: substr_def)

definition traceparent :: "string \<Rightarrow> string \<Rightarrow> string \<Rightarrow> string \<Rightarrow> string" where
  \<comment> \<open>the W3C header: version, trace-id, parent-id, flags\<close>
  "traceparent v t p f = v @ ''-'' @ t @ ''-'' @ p @ ''-'' @ f"

definition traceparent_ok :: "string \<Rightarrow> string \<Rightarrow> string \<Rightarrow> string \<Rightarrow> bool" where
  "traceparent_ok v t p f \<longleftrightarrow> length v = 2 \<and> length t = 32 \<and> length p = 16 \<and> length f = 2 \<and>
     list_all is_lower_hex [v, t, p, f] \<and> v \<noteq> ''ff'' \<and> (\<exists>c \<in> set t. c \<noteq> CHR ''0'') \<and> (\<exists>c \<in> set p. c \<noteq> CHR ''0'')"

lemma all_zero_iff: "all_zero s \<longleftrightarrow> \<not> (\<exists>c \<in> set s. c \<noteq> CHR ''0'')"
  by (auto simp: all_zero_def list_all_iff)

lemma parse_print_traceparent:
  "traceparent_ok v t p f \<Longrightarrow> parse_traceparent (traceparent v t p f) = Some (t, f)"
  by (auto simp: parse_traceparent_def traceparent_def traceparent_ok_def Let_def nth_append all_zero_iff substr_def)

lemma traceparent_split:
  assumes "length s = 55" "s ! 2 = CHR ''-''" "s ! 35 = CHR ''-''" "s ! 52 = CHR ''-''"
  shows "s = traceparent (substr 0 2 s) (substr 3 35 s) (substr 36 52 s) (substr 53 55 s)"
proof -
  have 1: "s = take 2 s @ s ! 2 # drop 3 s"
    using id_take_nth_drop [of 2 s] assms(1) by simp
  have 2: "drop 3 s = take 32 (drop 3 s) @ s ! 35 # drop 36 s"
    using id_take_nth_drop [of 32 "drop 3 s"] assms(1) by simp
  have 3: "drop 36 s = take 16 (drop 36 s) @ s ! 52 # drop 53 s"
    using id_take_nth_drop [of 16 "drop 36 s"] assms(1) by simp
  have "s = take 2 s @ ''-'' @ take 32 (drop 3 s) @ ''-'' @ take 16 (drop 36 s) @ ''-'' @ drop 53 s"
    using 1 2 3 assms(2-4) by (metis append_Cons append_Nil)
  then show ?thesis using assms(1) by (simp add: traceparent_def substr_def)
qed

lemma traceparent_fields:
  assumes "parse_traceparent s = Some (t, f)"
  shows "\<exists>v p. s = traceparent v t p f \<and> traceparent_ok v t p f"
proof -
  have s: "length s = 55" "s ! 2 = CHR ''-''" "s ! 35 = CHR ''-''" "s ! 52 = CHR ''-''"
    using assms by (auto simp: parse_traceparent_def split: if_splits)
  have t: "t = substr 3 35 s" "f = substr 53 55 s"
    using assms by (auto simp: parse_traceparent_def Let_def split: if_splits)
  have "traceparent_ok (substr 0 2 s) t (substr 36 52 s) f"
    using assms s by (auto simp: parse_traceparent_def Let_def traceparent_ok_def all_zero_iff substr_def split: if_splits)
  then show ?thesis using traceparent_split [OF s] t by blast
qed

text \<open>C26: the traceparent parser accepts exactly the W3C grammar. It answers a trace-id and flags
  if and only if the value is version, trace-id, parent-id and flags of 2, 32, 16 and 2 lowercase
  hex digits joined by dashes, where the version is not ff and neither id is all zeros, and the
  answer is those fields.\<close>

theorem traceparent_grammar:
  "parse_traceparent s = Some (t, f) \<longleftrightarrow> (\<exists>v p. s = traceparent v t p f \<and> traceparent_ok v t p f)"
  by (auto intro: parse_print_traceparent dest: traceparent_fields)

text \<open>The context \<^verbatim>\<open>Trace\<close> leaves: an adopted trace-id and its flags, or a minted one sampled.\<close>

lemma trace_adopts:
  assumes "parse_traceparent (header_get (rq_header r) ''Traceparent'') = Some (t, f)" "rd 8 g = (Some b, g')"
    and "trace rd g r = (r', g2)"
  shows "trace_id_from r' = t" "trace_flags_from r' = f" "span_id_from r' = hex_encode b" "rq_header r' = rq_header r"
  using assms by (auto simp: trace_def random_hex_def trace_id_from_def trace_flags_from_def span_id_from_def
    ctx_get_with trace_id_key_def span_id_key_def trace_flags_key_def)

lemma trace_mints:
  assumes "parse_traceparent (header_get (rq_header r) ''Traceparent'') = None"
    and "rd 16 g = (Some a, g1)" "rd 8 g1 = (Some b, g2)" "trace rd g r = (r', g3)"
  shows "trace_id_from r' = hex_encode a" "trace_flags_from r' = ''01''" "span_id_from r' = hex_encode b"
  using assms by (auto simp: trace_def random_hex_def trace_id_from_def trace_flags_from_def span_id_from_def
    ctx_get_with trace_id_key_def span_id_key_def trace_flags_key_def)

lemma is_lower_hex_encode: "is_lower_hex (hex_encode s)"
proof -
  have "is_digit (hex_digit n) \<or> 97 \<le> byte_of (hex_digit n) \<and> byte_of (hex_digit n) \<le> 102" if "n < 16" for n
    using that by (auto simp: hex_digit_def is_digit_def)
  moreover have "byte_of c div 16 < 16" for c
    using byte_of_less [of c] by (simp add: less_mult_imp_div_less)
  ultimately show ?thesis by (simp add: is_lower_hex_def hex_encode_def list_all_iff)
qed

lemma length_hex_encode: "length (hex_encode s) = 2 * length s"
  by (induction s) (auto simp: hex_encode_def)

text \<open>The request ID seen below, echoed and read back is one value; a rejected one is nowhere.\<close>

lemma request_id_rejected:
  assumes "i = header_get (rq_header r) (request_id_header cfg)" "i \<noteq> []" "\<not> request_id_valid cfg i"
    and "rd 16 g = (Some b, g')" "request_id cfg rd g r w = (Next r' w', g2)" "length b = 16"
  shows "request_id_from r' = hex_encode b" "header_get (rq_header r') (request_id_header cfg) = hex_encode b"
    "header_get (wr_header w') (request_id_header cfg) = hex_encode b"
proof -
  have "hex_encode b \<noteq> []" using length_hex_encode [of b] assms(6) by auto
  then show "request_id_from r' = hex_encode b" "header_get (rq_header r') (request_id_header cfg) = hex_encode b"
    "header_get (wr_header w') (request_id_header cfg) = hex_encode b"
    using assms(1-5) by (auto simp: request_id_def Let_def random_hex_def request_id_from_def ctx_get_with
      with_request_header_def header_get_set)
qed

lemma request_id_accepted:
  assumes "i = header_get (rq_header r) (request_id_header cfg)" "i \<noteq> []" "request_id_valid cfg i"
    and "request_id cfg rd g r w = (Next r' w', g')"
  shows "request_id_from r' = i" "rq_header r' = rq_header r" "header_get (wr_header w') (request_id_header cfg) = i" "g' = g"
  using assms by (auto simp: request_id_def Let_def request_id_from_def ctx_get_with header_get_set)

lemma request_id_unavailable:
  assumes "i = header_get (rq_header r) (request_id_header cfg)" "i \<noteq> []" "\<not> request_id_valid cfg i"
    and "rd 16 g = (None, g')" "request_id cfg rd g r w = (Next r' w', g2)"
  shows "header_get (rq_header r') (request_id_header cfg) = []" "w' = w" "rq_ctx r' = rq_ctx r"
  using assms by (auto simp: request_id_def Let_def random_hex_def with_request_header_def header_get_del)

section \<open>CORS and security headers: lemmas\<close>

definition gate_writer :: "gate \<Rightarrow> writer" where
  "gate_writer g = (case g of Next r w \<Rightarrow> w | Done w \<Rightarrow> w)"

lemma canonical_names [simp]:
  "canonical_key ''Vary'' = ''Vary''"
  "canonical_key ''Access-Control-Allow-Origin'' = ''Access-Control-Allow-Origin''"
  "canonical_key ''Access-Control-Allow-Methods'' = ''Access-Control-Allow-Methods''"
  "canonical_key ''Access-Control-Allow-Headers'' = ''Access-Control-Allow-Headers''"
  "canonical_key ''Access-Control-Allow-Credentials'' = ''Access-Control-Allow-Credentials''"
  "canonical_key ''Access-Control-Max-Age'' = ''Access-Control-Max-Age''"
  "canonical_key ''Access-Control-Expose-Headers'' = ''Access-Control-Expose-Headers''"
  "canonical_key ''Access-Control-Request-Method'' = ''Access-Control-Request-Method''"
  "canonical_key ''Access-Control-Request-Headers'' = ''Access-Control-Request-Headers''"
  "canonical_key ''Origin'' = ''Origin''"
  by (simp_all add: canonical_key_def token_byte_def ascii_upper_def ascii_lower_def is_upper_def is_lower_def is_digit_def)

lemma header_values_set_if:
  "header_values (set_if b k v h) k' = (if b \<and> canonical_key k' = canonical_key k then [v] else header_values h k')"
  by (simp add: set_if_def header_values_set)

lemma write_header_header [simp]: "wr_header (write_header st w) = wr_header w"
  by (simp add: write_header_def)

lemmas cors_header_simps = header_values_set_if header_values_set header_values_add

definition preflight :: "request \<Rightarrow> bool" where
  "preflight r \<longleftrightarrow> header_get (rq_header r) ''Origin'' \<noteq> [] \<and> rq_method r = ''OPTIONS'' \<and>
     header_get (rq_header r) ''Access-Control-Request-Method'' \<noteq> []"

lemma cors_allow_origin:
  assumes "header_values (wr_header w) ''Access-Control-Allow-Origin'' = []"
    and "o1 = header_get (rq_header r) ''Origin''"
  shows "header_values (wr_header (gate_writer (cors cfg r w))) ''Access-Control-Allow-Origin'' =
    (if o1 \<noteq> [] \<and> cors_allowed cfg o1 \<and> (preflight r \<longrightarrow>
        header_get (rq_header r) ''Access-Control-Request-Method'' \<in> set (the (co_methods cfg)))
     then [cors_origin cfg o1] else [])"
  using assms by (simp add: cors_def gate_writer_def Let_def preflight_def preflight_allow_def cors_stamp_def
    cors_vary_def cors_header_simps)

lemma cors_credentials:
  assumes "header_values (wr_header w) ''Access-Control-Allow-Credentials'' = []"
    and "header_values (wr_header (gate_writer (cors cfg r w))) ''Access-Control-Allow-Credentials'' \<noteq> []"
  shows "co_credentials cfg"
  using assms by (auto simp: cors_def gate_writer_def Let_def preflight_allow_def cors_stamp_def
    cors_vary_def cors_header_simps split: if_splits)

lemma cors_credentials_origin:
  assumes "header_values (wr_header w) ''Access-Control-Allow-Credentials'' = []"
    and "header_values (wr_header w) ''Access-Control-Allow-Origin'' = []"
    and "header_values (wr_header (gate_writer (cors cfg r w))) ''Access-Control-Allow-Credentials'' \<noteq> []"
  shows "header_values (wr_header (gate_writer (cors cfg r w))) ''Access-Control-Allow-Origin'' \<noteq> []"
  using assms by (auto simp: cors_def gate_writer_def Let_def preflight_allow_def cors_stamp_def
    cors_vary_def cors_header_simps split: if_splits)

lemma cors_vary_origin: "''Origin'' \<in> set (header_values (wr_header (gate_writer (cors cfg r w))) ''Vary'')"
  by (auto simp: cors_def gate_writer_def Let_def preflight_allow_def cors_stamp_def cors_vary_def cors_header_simps)

lemma cors_shape:
  "if preflight r then \<exists>w'. cors cfg r w = Done w' \<and> (wr_status w = 0 \<longrightarrow> wr_status w' = 204)
   else \<exists>w'. cors cfg r w = Next r w' \<and> wr_status w' = wr_status w"
  by (auto simp: cors_def Let_def preflight_def write_header_def)

text \<open>C27: the CORS middleware gives cross-origin access exactly as configured. A configuration
  that combines the wildcard with credentials is refused at construction; otherwise a
  response carries Access-Control-Allow-Origin if and only if the request has an Origin that
  is allowed (and, for a preflight, an allowed method), its value is that origin or the
  wildcard, it allows credentials only for an origin listed exactly, every response varies
  by Origin, a preflight is answered 204 without reaching the handler, and every other
  request reaches it unchanged.\<close>

theorem cors_sound:
  assumes "cors_new cfg0 = Inr cfg"
    and "header_values (wr_header w) ''Access-Control-Allow-Origin'' = []"
    and "header_values (wr_header w) ''Access-Control-Allow-Credentials'' = []" "wr_status w = 0"
    and "o1 = header_get (rq_header r) ''Origin''" "h = wr_header (gate_writer (cors cfg r w))"
  shows "header_values h ''Access-Control-Allow-Origin'' =
      (if o1 \<noteq> [] \<and> (''*'' \<in> set (co_origins cfg0) \<or> o1 \<in> set (co_origins cfg0)) \<and> (preflight r \<longrightarrow>
          header_get (rq_header r) ''Access-Control-Request-Method'' \<in> set (the (co_methods cfg)))
       then [if ''*'' \<in> set (co_origins cfg0) then ''*'' else o1] else []) \<and>
    (header_values h ''Access-Control-Allow-Credentials'' \<noteq> [] \<longrightarrow>
       o1 \<in> set (co_origins cfg0) \<and> header_values h ''Access-Control-Allow-Origin'' = [o1]) \<and>
    ''Origin'' \<in> set (header_values h ''Vary'') \<and>
    (if preflight r then \<exists>w'. cors cfg r w = Done w' \<and> wr_status w' = 204
     else \<exists>w'. cors cfg r w = Next r w' \<and> wr_status w' = 0)"
proof -
  have cfg: "co_origins cfg = co_origins cfg0" "co_credentials cfg = co_credentials cfg0"
      "\<not> (''*'' \<in> set (co_origins cfg0) \<and> co_credentials cfg0)"
    using assms(1) by (auto simp: cors_new_def split: if_splits)
  note ao = cors_allow_origin [OF assms(2,5), of cfg, folded assms(6), unfolded cors_allowed_def cors_origin_def cfg(1)]
  have cred: "o1 \<in> set (co_origins cfg0) \<and> header_values h ''Access-Control-Allow-Origin'' = [o1]"
    if c: "header_values h ''Access-Control-Allow-Credentials'' \<noteq> []"
  proof -
    have "co_credentials cfg0" "header_values h ''Access-Control-Allow-Origin'' \<noteq> []"
      using cors_credentials [OF assms(3), of cfg r] cors_credentials_origin [OF assms(3,2), of cfg r] c cfg(2) assms(6)
      by auto
    then show ?thesis using ao cfg(3) by (auto split: if_splits)
  qed
  have vary: "''Origin'' \<in> set (header_values h ''Vary'')"
    using cors_vary_origin [of cfg r w] assms(6) by simp
  have shape: "if preflight r then \<exists>w'. cors cfg r w = Done w' \<and> wr_status w' = 204
      else \<exists>w'. cors cfg r w = Next r w' \<and> wr_status w' = 0"
    using cors_shape [of r cfg w] assms(4) by (auto split: if_splits)
  show ?thesis by (rule conjI [OF ao conjI [OF impI [OF cred] conjI [OF vary shape]]])
qed

definition demo_cors :: cors_config where
  "demo_cors = \<lparr>co_origins = [''https://a''], co_methods = None, co_headers = [], co_exposed = [],
     co_credentials = True, co_max_age = 0\<rparr>"

definition demo_get :: "string \<Rightarrow> request" where
  "demo_get origin = \<lparr>rq_method = ''GET'', rq_uri = ''/'', rq_path = ''/'', rq_header = [(''Origin'', [origin])],
     rq_remote = [], rq_length = 0, rq_body = [], rq_body_fails = False, rq_body_cap = None, rq_ctx = []\<rparr>"

lemma cors_sound_witness:
  "\<exists>h. h = wr_header (gate_writer (cors (demo_cors\<lparr>co_methods := Some cors_default_methods\<rparr>) (demo_get ''https://b'') fresh_writer)) \<and>
    header_values h ''Access-Control-Allow-Origin'' = [] \<and> ''Origin'' \<in> set (header_values h ''Vary'')"
proof -
  let ?cfg = "demo_cors\<lparr>co_methods := Some cors_default_methods\<rparr>"
  have new: "cors_new demo_cors = Inr ?cfg" by (simp add: cors_new_def demo_cors_def)
  have o1: "''https://b'' = header_get (rq_header (demo_get ''https://b'')) ''Origin''"
    by (simp add: demo_get_def header_get_def header_values_def)
  have "header_values (wr_header fresh_writer) k = []" for k
    by (simp add: fresh_writer_def header_values_def)
  from cors_sound [OF new this this _ o1 refl] show ?thesis
    by (auto simp: demo_cors_def fresh_writer_def)
qed

lemma secure_headers_sent:
  assumes "secure_headers cfg r w = Next r' w'"
  shows "r' = r \<and> wr_status w' = wr_status w \<and>
    wr_header w' = foldl (\<lambda>h (k, v). header_set k v h) (wr_header w) (secure_header_values cfg)"
  using assms by (auto simp: secure_headers_def)

text \<open>A declared length past the limit never reaches the handler; otherwise its reads are capped.\<close>

lemma body_limit_caps:
  assumes "body_limit cfg r w = Next r' w'" "read_all r' = Inr b"
  shows "int (length b) \<le> pos_or_default (bl_max cfg) default_max_bind \<and> b = rq_body r"
proof -
  have "0 \<le> pos_or_default (bl_max cfg) default_max_bind"
    by (auto simp: pos_or_default_def default_max_bind_def)
  then show ?thesis
    using assms read_all_capped [of "pos_or_default (bl_max cfg) default_max_bind" r b]
    by (auto simp: body_limit_def Let_def split: if_splits)
qed

section \<open>Recovery: lemmas\<close>

lemma sent_act_writer: "sw_writer (foldl sent_act s as) = run_actions as (sw_writer s)"
  unfolding run_actions_def
proof (induction as arbitrary: s)
  case (Cons a as)
  have "sw_writer (sent_act s a) = act (sw_writer s) a" by (cases a) auto
  with Cons show ?case by simp
qed simp

text \<open>The 500 is written only over a response that has not started, and never for an abort.\<close>

lemma sent_flag:
  assumes "wr_status (sw_writer s) \<noteq> 0 \<longrightarrow> sw_sent s" "list_all (\<lambda>a. a \<noteq> WriteHeader 101 \<and> (\<forall>st. a = WriteHeader st \<longrightarrow> 100 \<le> st)) as"
  shows "wr_status (sw_writer (foldl sent_act s as)) \<noteq> 0 \<longrightarrow> sw_sent (foldl sent_act s as)"
  using assms
proof (induction as arbitrary: s)
  case (Cons a as)
  have "wr_status (sw_writer (sent_act s a)) \<noteq> 0 \<longrightarrow> sw_sent (sent_act s a)"
    using Cons.prems by (cases a) (auto simp: write_header_def)
  with Cons show ?case by simp
qed simp

lemma recover_panic:
  assumes "next r = (as, Panicked p)" "wr_status w = 0"
    and "list_all (\<lambda>a. a \<noteq> WriteHeader 101 \<and> (\<forall>st. a = WriteHeader st \<longrightarrow> 100 \<le> st)) as"
    and "wr_status (run_actions as w) \<noteq> 0"
  shows "recover ew next r w = (run_actions as w, Returned, Some p)"
  using assms sent_flag [of "\<lparr>sw_writer = w, sw_sent = False\<rparr>" as]
  by (simp add: recover_def sent_act_writer)

lemma recover_abort: "next r = (as, Aborted) \<Longrightarrow> recover ew next r w = (run_actions as w, Aborted, None)"
  by (simp add: recover_def sent_act_writer)

end
