(* ===== verification/RealIP.thy ===== *)
theory RealIP
  imports HttpBase NetAddr "HOL-Library.Word"
begin

text \<open>
  Client addresses behind proxies (\<^verbatim>\<open>src/httpx/middleware/realip.go\<close>). An address is an IPv4 or
  an IPv6 word with its zone, as \<^verbatim>\<open>net/netip\<close> has it; a prefix is an address and a length. The
  text forms are arguments: \<open>parse\<close> is \<^verbatim>\<open>netip.ParseAddr\<close> and \<open>show_addr\<close> is \<^verbatim>\<open>netip.Addr.String\<close>.
\<close>

section \<open>Addresses and prefixes\<close>

datatype ip_addr = IPv4 "32 word" | IPv6 "128 word" string

type_synonym ip_prefix = "ip_addr \<times> nat"

fun unmap :: "ip_addr \<Rightarrow> ip_addr" where
  "unmap (IPv4 a) = IPv4 a"
| "unmap (IPv6 a z) = (if drop_bit 32 a = 0xFFFF then IPv4 (ucast a) else IPv6 a z)"

fun zone :: "ip_addr \<Rightarrow> string" where
  "zone (IPv4 a) = []"
| "zone (IPv6 a z) = z"

fun prefix_contains :: "ip_prefix \<Rightarrow> ip_addr \<Rightarrow> bool" where
  "prefix_contains (IPv4 p, n) (IPv4 a) \<longleftrightarrow> n \<le> 32 \<and> drop_bit (32 - n) a = drop_bit (32 - n) p"
| "prefix_contains (IPv6 p z, n) (IPv6 a az) \<longleftrightarrow> n \<le> 128 \<and> az = [] \<and> drop_bit (128 - n) a = drop_bit (128 - n) p"
| "prefix_contains _ _ \<longleftrightarrow> False"

definition contains_addr :: "ip_prefix list \<Rightarrow> ip_addr \<Rightarrow> bool" where
  "contains_addr ps a \<longleftrightarrow> list_ex (\<lambda>p. prefix_contains p a) ps"

definition private_networks :: "ip_prefix list" where
  "private_networks =
     [(IPv4 0x7F000000, 8), (IPv4 0x0A000000, 8), (IPv4 0xAC100000, 12), (IPv4 0xC0A80000, 16),
      (IPv6 1 [], 128), (IPv6 (push_bit 112 0xFC00) [], 7)]"

section \<open>The middleware\<close>

record real_ip_config =
  rp_trusted :: "ip_prefix list"
  rp_headers :: "string list option"

definition default_ip_headers :: "string list" where
  "default_ip_headers = [''CF-Connecting-IP'', ''X-Real-IP'', ''X-Forwarded-For'']"

definition parse_client_addr :: "(string \<Rightarrow> ip_addr option) \<Rightarrow> string \<Rightarrow> ip_addr option" where
  "parse_client_addr parse s =
     (case parse (trim_space s) of
        None \<Rightarrow> None
      | Some a \<Rightarrow> if zone a \<noteq> [] then None else Some (unmap a))"

fun walk_chain :: "(string \<Rightarrow> ip_addr option) \<Rightarrow> ip_prefix list \<Rightarrow> string list \<Rightarrow> ip_addr option \<Rightarrow> ip_addr option" where
  \<comment> \<open>entries from right to left; the last argument is the leftmost entry seen so far\<close>
  "walk_chain parse trusted [] leftmost = leftmost"
| "walk_chain parse trusted (e # es) leftmost =
     (case parse_client_addr parse e of
        None \<Rightarrow> None
      | Some a \<Rightarrow> if \<not> contains_addr trusted a then Some a else walk_chain parse trusted es (Some a))"

definition client_from_header :: "(string \<Rightarrow> ip_addr option) \<Rightarrow> string \<Rightarrow> string \<Rightarrow> ip_prefix list \<Rightarrow> ip_addr option" where
  "client_from_header parse name v trusted =
     (if v = [] then None
      else if \<not> equal_fold_ascii name ''X-Forwarded-For'' then parse_client_addr parse v
      else walk_chain parse trusted (rev (split_on (CHR '','') v)) None)"

fun first_client :: "(string \<Rightarrow> ip_addr option) \<Rightarrow> ip_prefix list \<Rightarrow> header \<Rightarrow> string list \<Rightarrow> ip_addr option" where
  "first_client parse trusted h [] = None"
| "first_client parse trusted h (n # ns) =
     (case client_from_header parse n (header_get h n) trusted of
        Some a \<Rightarrow> Some a | None \<Rightarrow> first_client parse trusted h ns)"

definition real_ip_key :: string where
  "real_ip_key = ''realIPKey''"

definition real_ip :: "(string \<Rightarrow> ip_addr option) \<Rightarrow> (ip_addr \<Rightarrow> string) \<Rightarrow> real_ip_config \<Rightarrow> request \<Rightarrow> request" where
  \<comment> \<open>the request the next handler sees\<close>
  "real_ip parse show_addr cfg r =
     (let headers = (case rp_headers cfg of None \<Rightarrow> default_ip_headers | Some hs \<Rightarrow> hs)
      in case split_host_port (rq_remote r) of
           Inl _ \<Rightarrow> r
         | Inr (host, port) \<Rightarrow>
             let found = (case parse host of
                  None \<Rightarrow> None
                | Some peer \<Rightarrow> if contains_addr (rp_trusted cfg) (unmap peer)
                               then first_client parse (rp_trusted cfg) (rq_header r) headers else None)
             in case found of
                  None \<Rightarrow> ctx_with real_ip_key host r
                | Some client \<Rightarrow> ctx_with real_ip_key (show_addr client)
                    (r\<lparr>rq_remote := join_host_port (show_addr client) port\<rparr>))"

definition real_ip_from :: "request \<Rightarrow> string" where
  "real_ip_from r = ctx_get r real_ip_key"

section \<open>Lemmas\<close>

lemma unmap_idem [simp]: "unmap (unmap a) = unmap a"
  by (cases a) auto

lemma parse_client_addr_unzoned: "parse_client_addr parse s = Some a \<Longrightarrow> zone a = [] \<and> unmap a = a"
  by (auto simp: parse_client_addr_def split: option.splits if_splits) (metis unmap.simps zone.simps ip_addr.exhaust)

lemma walk_trusted:
  "\<forall>e \<in> set es. \<exists>a. parse_client_addr parse e = Some a \<and> contains_addr trusted a \<Longrightarrow>
    walk_chain parse trusted (es @ rest) l =
      walk_chain parse trusted rest (if es = [] then l else parse_client_addr parse (last es))"
  by (induction es arbitrary: l) auto

lemma walk_result:
  "walk_chain parse trusted es l = Some a \<Longrightarrow> l = Some a \<or> (\<exists>e \<in> set es. parse_client_addr parse e = Some a)"
  by (induction es arbitrary: l) (auto split: option.splits if_splits)

lemma real_ip_untrusted:
  assumes "split_host_port (rq_remote r) = Inr (host, port)" "parse host = Some peer"
    and "\<not> contains_addr (rp_trusted cfg) (unmap peer)"
  shows "real_ip parse show_addr cfg r = ctx_with real_ip_key host r"
  using assms by (simp add: real_ip_def)

text \<open>Only the first field line of a header is read: what further X-Forwarded-For lines say does not matter.\<close>

lemma first_line_only:
  "first_client parse trusted ((canonical_key n, v # others) # h) [n] = client_from_header parse n v trusted"
  by (simp add: header_get_def header_values_def split: option.splits)

lemma split_on_append: "split_on c (a @ c # b) = split_on c a @ split_on c b"
  by (induction a) (auto split: list.splits)

lemma equal_fold_names:
  "equal_fold_ascii ''X-Forwarded-For'' ''X-Forwarded-For''"
  by (simp add: equal_fold_ascii_def)

lemma chain_client:
  assumes "s = [] \<or> (\<exists>x. s = x @ '','')" "\<forall>e \<in> set (client # proxies). CHR '','' \<notin> set e"
    and "parse_client_addr parse client = Some a" "\<not> contains_addr trusted a"
    and "\<forall>e \<in> set proxies. \<exists>p. parse_client_addr parse e = Some p \<and> contains_addr trusted p"
    and "s @ join '','' (client # proxies) \<noteq> []"
  shows "client_from_header parse ''X-Forwarded-For'' (s @ join '','' (client # proxies)) trusted = Some a"
proof -
  have tail: "split_on (CHR '','') (join '','' (client # proxies)) = client # proxies"
    using assms(2) by (intro split_on_join) auto
  have "\<exists>claimed. split_on (CHR '','') (s @ join '','' (client # proxies)) = claimed @ client # proxies"
    using assms(1) tail split_on_append [of "CHR '',''"] by force
  then obtain claimed where "split_on (CHR '','') (s @ join '','' (client # proxies)) = claimed @ client # proxies" ..
  moreover have "walk_chain parse trusted (rev proxies @ client # rev claimed) None = Some a"
    using assms(3-5) by (subst walk_trusted) auto
  ultimately show ?thesis
    using assms(6) by (simp add: client_from_header_def equal_fold_names)
qed


definition demo_parse :: "string \<Rightarrow> ip_addr option" where
  "demo_parse s = (if s = ''10.0.0.2'' then Some (IPv4 0x0A000002) else if s = ''10.0.0.3'' then Some (IPv4 0x0A000003)
     else if s = ''8.8.8.8'' then Some (IPv4 0x08080808) else None)"

definition demo_show :: "ip_addr \<Rightarrow> string" where
  "demo_show a = (if a = IPv4 0x08080808 then ''8.8.8.8'' else ''10.0.0.2'')"

definition demo_forwarded :: request where
  "demo_forwarded = \<lparr>rq_method = ''GET'', rq_uri = ''/'', rq_path = ''/'',
     rq_header = [(''X-Forwarded-For'', [''evil,8.8.8.8,10.0.0.3''])], rq_remote = ''10.0.0.2:80'', rq_length = 0,
     rq_body = [], rq_body_fails = False, rq_body_cap = None, rq_ctx = []\<rparr>"

lemma demo_addrs:
  "parse_client_addr demo_parse ''8.8.8.8'' = Some (IPv4 0x08080808)"
  "parse_client_addr demo_parse ''10.0.0.3'' = Some (IPv4 0x0A000003)"
  "contains_addr private_networks (IPv4 0x0A000003)" "contains_addr private_networks (IPv4 0x0A000002)"
  "\<not> contains_addr private_networks (IPv4 0x08080808)"
proof -
  have a: "ascii ''8.8.8.8''" "ascii ''10.0.0.3''" by (simp_all add: ascii_def)
  show "parse_client_addr demo_parse ''8.8.8.8'' = Some (IPv4 0x08080808)"
    "parse_client_addr demo_parse ''10.0.0.3'' = Some (IPv4 0x0A000003)"
    by (simp_all add: parse_client_addr_def trim_space_ascii [OF a(1)] trim_space_ascii [OF a(2)] trim_list_def
      is_space_rune_def demo_parse_def)
  show "contains_addr private_networks (IPv4 0x0A000003)" "contains_addr private_networks (IPv4 0x0A000002)"
    "\<not> contains_addr private_networks (IPv4 0x08080808)"
    by (simp_all add: contains_addr_def private_networks_def)
qed


end
