(* ===== verification/PasswordHash.thy ===== *)
theory PasswordHash
  imports Base64 "HOL-Library.Word"
begin

text \<open>
  Password hashing, \<^verbatim>\<open>src/x/hasher/hasher.go\<close>: the PHC string a hash is stored as, its strict
  parser with the caps that bound what a stored hash may demand, \<^verbatim>\<open>Hash\<close>, \<^verbatim>\<open>Verify\<close> and
  \<^verbatim>\<open>NeedsRehash\<close>. Parameters are words of their Go width. The two key-derivation functions
  are third-party packages and arguments: \<open>kdf\<close> is \<^verbatim>\<open>argon2.IDKey\<close> (password, salt, time,
  memory, parallelism, key length) and \<open>bcrypt\<close> is \<^verbatim>\<open>bcrypt.CompareHashAndPassword\<close>.
\<close>

section \<open>Types and constants\<close>

datatype hash_error = Mismatch | Unsupported_Scheme | Malformed | Salt_Unreadable

datatype scheme = Argon2id | Bcrypt

datatype bcrypt_answer = Bcrypt_Match | Bcrypt_Mismatch | Bcrypt_Error

type_synonym kdf = "string \<Rightarrow> string \<Rightarrow> 32 word \<Rightarrow> 32 word \<Rightarrow> 8 word \<Rightarrow> 32 word \<Rightarrow> string"

record hash_config =
  hc_memory :: "32 word"
  hc_time :: "32 word"
  hc_parallelism :: "8 word"
  hc_salt_length :: "32 word"
  hc_key_length :: "32 word"
  hc_legacy :: "scheme list"

definition default_memory :: "32 word" where "default_memory = 19456"
definition default_time :: "32 word" where "default_time = 2"
definition default_parallelism :: "8 word" where "default_parallelism = 1"
definition default_salt_length :: "32 word" where "default_salt_length = 16"
definition default_key_length :: "32 word" where "default_key_length = 32"

definition max_memory :: "32 word" where "max_memory = 2097152"
definition max_time :: "32 word" where "max_time = 512"
definition max_parallelism :: "32 word" where "max_parallelism = 64"
definition max_salt_length :: nat where "max_salt_length = 256"
definition max_key_length :: nat where "max_key_length = 512"

definition argon2_version :: "32 word" where "argon2_version = 19"

definition new_hasher :: "hash_config \<Rightarrow> hash_config" where
  "new_hasher cfg = cfg\<lparr>hc_memory := or_default (hc_memory cfg) default_memory,
     hc_time := or_default (hc_time cfg) default_time,
     hc_parallelism := or_default (hc_parallelism cfg) default_parallelism,
     hc_salt_length := or_default (hc_salt_length cfg) default_salt_length,
     hc_key_length := or_default (hc_key_length cfg) default_key_length\<rparr>"

section \<open>The PHC string\<close>

record argon2_params =
  ap_memory :: "32 word"
  ap_time :: "32 word"
  ap_parallelism :: "8 word"

definition format_word :: "'a::len word \<Rightarrow> string" where
  "format_word w = format_nat (unat w)"

definition phc :: "argon2_params \<Rightarrow> string \<Rightarrow> string \<Rightarrow> string" where
  "phc p salt key = ''$argon2id$v='' @ format_word argon2_version @ ''$m='' @ format_word (ap_memory p)
     @ '',t='' @ format_word (ap_time p) @ '',p='' @ format_word (ap_parallelism p)
     @ ''$'' @ b64_encode False salt @ ''$'' @ b64_encode False key"

definition parse_param :: "string \<Rightarrow> string \<Rightarrow> (32 word) option" where
  "parse_param s prefix =
     (case cut_prefix s prefix of
        None \<Rightarrow> None
      | Some v \<Rightarrow> if 1 < length v \<and> hd v = CHR ''0'' then None else map_option of_nat (parse_uint 32 v))"

definition raw_encoded_len :: "nat \<Rightarrow> nat" where
  "raw_encoded_len n = n div 3 * 4 + (n mod 3 * 8 + 5) div 6"

definition parse_argon2id :: "string \<Rightarrow> (argon2_params \<times> string \<times> string) option" where
  \<comment> \<open>\<open>None\<close> is an error wrapping \<^verbatim>\<open>ErrMalformed\<close>\<close>
  "parse_argon2id encoded =
     (case split_on (CHR ''$'') encoded of
        [p0, p1, p2, p3, p4, p5] \<Rightarrow>
          if p0 \<noteq> [] \<or> p1 \<noteq> ''argon2id'' then None
          else if parse_param p2 ''v='' \<noteq> Some argon2_version then None
          else (case split_on (CHR '','') p3 of
            [f0, f1, f2] \<Rightarrow>
              (case (parse_param f0 ''m='', parse_param f1 ''t='', parse_param f2 ''p='') of
                 (Some m, Some t, Some par) \<Rightarrow>
                   if par < 1 \<or> max_parallelism < par \<or> t < 1 \<or> max_time < t \<or> m < 8 * par \<or> max_memory < m then None
                   else if raw_encoded_len max_salt_length < length p4 \<or> raw_encoded_len max_key_length < length p5 then None
                   else (case (b64_decode False True p4, b64_decode False True p5) of
                     (Some salt, Some key) \<Rightarrow>
                       if salt = [] \<or> max_salt_length < length salt \<or> key = [] \<or> max_key_length < length key then None
                       else Some (\<lparr>ap_memory = m, ap_time = t, ap_parallelism = ucast par\<rparr>, salt, key)
                   | _ \<Rightarrow> None)
               | _ \<Rightarrow> None)
          | _ \<Rightarrow> None)
      | _ \<Rightarrow> None)"

section \<open>Operations\<close>

definition hash_password :: "kdf \<Rightarrow> (nat \<Rightarrow> 'g \<Rightarrow> string option \<times> 'g) \<Rightarrow> hash_config \<Rightarrow> string \<Rightarrow> 'g \<Rightarrow>
    (hash_error + string) \<times> 'g" where
  "hash_password kdf rd h password g =
     (case rd (unat (hc_salt_length h)) g of
        (None, g') \<Rightarrow> (Inl Salt_Unreadable, g')
      | (Some salt, g') \<Rightarrow>
          (let key = kdf password salt (hc_time h) (hc_memory h) (hc_parallelism h) (hc_key_length h)
           in (Inr (phc \<lparr>ap_memory = hc_memory h, ap_time = hc_time h, ap_parallelism = hc_parallelism h\<rparr> salt key), g')))"

definition verify_argon2id :: "kdf \<Rightarrow> string \<Rightarrow> string \<Rightarrow> hash_error option" where
  "verify_argon2id kdf password encoded =
     (case parse_argon2id encoded of
        None \<Rightarrow> Some Malformed
      | Some (p, salt, key) \<Rightarrow>
          if kdf password salt (ap_time p) (ap_memory p) (ap_parallelism p) (of_nat (length key)) = key then None
          else Some Mismatch)"

definition verify_bcrypt :: "(string \<Rightarrow> string \<Rightarrow> bcrypt_answer) \<Rightarrow> string \<Rightarrow> string \<Rightarrow> hash_error option" where
  "verify_bcrypt bcrypt password encoded =
     (case bcrypt encoded password of
        Bcrypt_Match \<Rightarrow> None | Bcrypt_Mismatch \<Rightarrow> Some Mismatch | Bcrypt_Error \<Rightarrow> Some Malformed)"

definition legacy_enabled :: "hash_config \<Rightarrow> scheme \<Rightarrow> bool" where
  "legacy_enabled h s \<longleftrightarrow> s \<in> set (hc_legacy h)"

definition verify_password :: "kdf \<Rightarrow> (string \<Rightarrow> string \<Rightarrow> bcrypt_answer) \<Rightarrow> hash_config \<Rightarrow> string \<Rightarrow> string \<Rightarrow>
    hash_error option" where
  \<comment> \<open>\<open>None\<close> is a match\<close>
  "verify_password kdf bcrypt h password encoded =
     (if has_prefix encoded ''$argon2id$'' then verify_argon2id kdf password encoded
      else if has_prefix encoded ''$2'' then
        (if \<not> legacy_enabled h Bcrypt then Some Unsupported_Scheme else verify_bcrypt bcrypt password encoded)
      else Some Unsupported_Scheme)"

definition needs_rehash :: "hash_config \<Rightarrow> string \<Rightarrow> bool" where
  "needs_rehash h encoded =
     (case parse_argon2id encoded of
        None \<Rightarrow> True
      | Some (p, salt, key) \<Rightarrow>
          ap_memory p < hc_memory h \<or> ap_time p < hc_time h \<or> ap_parallelism p < hc_parallelism h \<or>
          of_nat (length salt) < hc_salt_length h \<or> of_nat (length key) < hc_key_length h)"

section \<open>Decimal fields\<close>

lemma digits_value_less: "list_all is_digit v \<Longrightarrow> digits_value v < 10 ^ length v"
proof (induction v rule: rev_induct)
  case (snoc c v)
  then have "byte_of c - 48 < 10" "digits_value v < 10 ^ length v" by (auto simp: is_digit_def)
  then show ?case by (simp add: digits_value_snoc)
qed (simp add: digits_value_def)

lemma is_digit_value: "is_digit c \<Longrightarrow> char_of (48 + (byte_of c - 48)) = c"
  by (simp add: is_digit_def)

lemma digits_value_hd: "list_all is_digit (c # v) \<Longrightarrow> c \<noteq> CHR ''0'' \<Longrightarrow> 10 ^ length v \<le> digits_value (c # v)"
proof (induction v rule: rev_induct)
  case Nil
  have "byte_of c \<noteq> 48" using Nil(2) byte_of_inj [of c "CHR ''0''"] by simp
  moreover have "48 \<le> byte_of c" using Nil(1) by (simp add: is_digit_def)
  ultimately have "1 \<le> byte_of c - 48" by linarith
  then show ?case by (simp add: digits_value_def)
next
  case (snoc d v)
  then have "10 ^ length v \<le> digits_value (c # v)" by simp
  then show ?case using digits_value_snoc [of "c # v" d] by simp
qed

lemma format_digits:
  "v \<noteq> [] \<Longrightarrow> list_all is_digit v \<Longrightarrow> \<not> (1 < length v \<and> hd v = CHR ''0'') \<Longrightarrow> format_nat (digits_value v) = v"
proof (induction v rule: rev_induct)
  case (snoc c v)
  show ?case
  proof (cases v)
    case Nil
    with snoc show ?thesis
      by (subst format_nat.simps) (auto simp: digits_value_def is_digit_def is_digit_value)
  next
    case (Cons d w)
    have c: "is_digit c" "byte_of c - 48 < 10" using snoc.prems by (auto simp: is_digit_def)
    have d: "d \<noteq> CHR ''0''" using snoc.prems Cons by auto
    have "10 ^ length w \<le> digits_value v"
      using digits_value_hd [of d w] snoc.prems Cons d by auto
    then have pos: "1 \<le> digits_value v" by (metis one_le_numeral one_le_power order_trans)
    have "format_nat (digits_value v) = v" using snoc Cons d by auto
    with c pos show ?thesis
      by (subst format_nat.simps) (simp add: digits_value_snoc is_digit_value)
  qed
qed simp

lemma parse_param_iff:
  "parse_param s prefix = Some w \<longleftrightarrow> s = prefix @ format_word w"
proof
  assume a: "parse_param s prefix = Some w"
  then obtain v where v: "s = prefix @ v" "\<not> (1 < length v \<and> hd v = CHR ''0'')" "map_option of_nat (parse_uint 32 v) = Some w"
    by (auto simp: parse_param_def cut_prefix_Some split: option.splits if_splits)
  then have d: "v \<noteq> []" "list_all is_digit v" "digits_value v < 2 ^ 32" "w = of_nat (digits_value v)"
    by (auto simp: parse_uint_def parse_digits_def split: if_splits option.splits)
  then have "unat w = digits_value v" by (simp add: unat_of_nat)
  with v d show "s = prefix @ format_word w" by (simp add: format_word_def format_digits)
next
  assume s: "s = prefix @ format_word w"
  have "unat w < 2 ^ 32" using unsigned_less [of w] by simp
  then show "parse_param s prefix = Some w"
    using s format_nat_lead_zero [of "unat w"]
    by (auto simp: parse_param_def cut_prefix_def format_word_def parse_uint_format)
qed

section \<open>Strict base64\<close>

lemma b64_val_inv: "b64_val c = Some n \<Longrightarrow> n < 64 \<and> b64_char n = c"
  by (auto simp: b64_val_def b64_char_def is_upper_def is_lower_def is_digit_def split: if_splits)

text \<open>The bytes a group of four digits stands for, and the digits read back from them.\<close>

lemma b64_bytes:
  assumes "v < 64" "w < 64" "x < 64" "y < (64 :: nat)"
  shows "v * 4 + w div 16 < 256" "w mod 16 * 16 + x div 4 < 256" "x mod 4 * 64 + y < 256"
    and "(v * 4 + w div 16) div 4 = v" "(v * 4 + w div 16) mod 4 = w div 16"
    and "(w mod 16 * 16 + x div 4) div 16 = w mod 16" "(w mod 16 * 16 + x div 4) mod 16 = x div 4"
    and "(x mod 4 * 64 + y) div 64 = x mod 4" "(x mod 4 * 64 + y) mod 64 = y"
proof -
  have l: "w div 16 < 4" "x div 4 < 16" "w mod 16 < 16" "x mod 4 < 4"
    using assms by (simp_all add: less_mult_imp_div_less)
  show "v * 4 + w div 16 < 256" "w mod 16 * 16 + x div 4 < 256" "x mod 4 * 64 + y < 256"
    using l assms by linarith+
  show "(v * 4 + w div 16) div 4 = v" "(v * 4 + w div 16) mod 4 = w div 16"
    "(w mod 16 * 16 + x div 4) div 16 = w mod 16" "(w mod 16 * 16 + x div 4) mod 16 = x div 4"
    "(x mod 4 * 64 + y) div 64 = x mod 4" "(x mod 4 * 64 + y) mod 64 = y"
    using l assms by auto
qed

lemma byte_of_small: "n < 256 \<Longrightarrow> byte_of (char_of n :: char) = (n :: nat)"
  by simp

lemma b64_three_encode:
  assumes "b64_val p = Some v" "b64_val q = Some w" "b64_val r = Some x" "b64_val t = Some y"
  shows "b64_encode False (char_of (v * 4 + w div 16) # char_of (w mod 16 * 16 + x div 4) # char_of (x mod 4 * 64 + y) # bs)
    = p # q # r # t # b64_encode False bs"
proof -
  note vw = b64_val_inv [OF assms(1)] b64_val_inv [OF assms(2)] b64_val_inv [OF assms(3)] b64_val_inv [OF assms(4)]
  note b = b64_bytes [of v w x y]
  have bytes: "byte_of (char_of (v * 4 + w div 16) :: char) = v * 4 + w div 16"
      "byte_of (char_of (w mod 16 * 16 + x div 4) :: char) = w mod 16 * 16 + x div 4"
      "byte_of (char_of (x mod 4 * 64 + y) :: char) = x mod 4 * 64 + y"
    using b vw by (simp_all only: byte_of_small)
  show ?thesis
    unfolding b64_encode.simps bytes using b vw by simp
qed

lemma b64_one_encode:
  assumes "b64_val p = Some v" "b64_val q = Some w" "b64_one True v w = Some bs"
  shows "b64_encode False bs = [p, q]"
proof -
  note vw = b64_val_inv [OF assms(1)] b64_val_inv [OF assms(2)]
  have w: "w div 16 * 16 = w" "bs = [char_of (v * 4 + w div 16)]"
    using assms(3) by (auto simp: b64_one_def split: if_splits)
  note b = b64_bytes [of v w 0 0]
  have byte: "byte_of (char_of (v * 4 + w div 16) :: char) = v * 4 + w div 16"
    using b vw by (simp only: byte_of_small)
  show ?thesis unfolding w(2) b64_encode.simps byte using b vw w(1) by simp
qed

lemma b64_two_encode:
  assumes "b64_val p = Some v" "b64_val q = Some w" "b64_val r = Some x" "b64_two True v w x = Some bs"
  shows "b64_encode False bs = [p, q, r]"
proof -
  note vw = b64_val_inv [OF assms(1)] b64_val_inv [OF assms(2)] b64_val_inv [OF assms(3)]
  have w: "x div 4 * 4 = x" "bs = [char_of (v * 4 + w div 16), char_of (w mod 16 * 16 + x div 4)]"
    using assms(4) by (auto simp: b64_two_def split: if_splits)
  note b = b64_bytes [of v w x 0]
  have bytes: "byte_of (char_of (v * 4 + w div 16) :: char) = v * 4 + w div 16"
      "byte_of (char_of (w mod 16 * 16 + x div 4) :: char) = w mod 16 * 16 + x div 4"
    using b vw by (simp_all only: byte_of_small)
  show ?thesis unfolding w(2) b64_encode.simps bytes using b vw w(1) by simp
qed

lemma b64_groups_strict: "b64_groups False True s = Some bs \<Longrightarrow> b64_encode False bs = s"
proof (induction "False" "True" s arbitrary: bs rule: b64_groups.induct)
  case (4 p q r t s)
  obtain v w x y bs' where *: "b64_val p = Some v" "b64_val q = Some w" "b64_val r = Some x" "b64_val t = Some y"
      "b64_groups False True s = Some bs'"
      "bs = [char_of (v * 4 + w div 16), char_of (w mod 16 * 16 + x div 4), char_of (x mod 4 * 64 + y)] @ bs'"
    using 4(2) by (auto split: option.splits)
  have "b64_encode False bs' = s" using 4(1) * by auto
  then show ?case using b64_three_encode [OF *(1-4)] *(6) by simp
qed (auto split: option.splits dest: b64_one_encode b64_two_encode)

lemma b64_decode_strict:
  "CR \<notin> set s \<Longrightarrow> LF \<notin> set s \<Longrightarrow> b64_decode False True s = Some bs \<longleftrightarrow> s = b64_encode False bs"
proof -
  assume "CR \<notin> set s" "LF \<notin> set s"
  then have "filter (\<lambda>c. c \<noteq> CR \<and> c \<noteq> LF) s = s" by (intro filter_True) auto
  then show ?thesis using b64_groups_strict [of s bs] b64_decode_encode [of False True bs] by (auto simp: b64_decode_def)
qed

section \<open>The grammar of stored hashes\<close>

definition in_caps :: "argon2_params \<Rightarrow> string \<Rightarrow> string \<Rightarrow> bool" where
  "in_caps p salt key \<longleftrightarrow>
     1 \<le> unat (ap_parallelism p) \<and> unat (ap_parallelism p) \<le> 64 \<and>
     1 \<le> unat (ap_time p) \<and> unat (ap_time p) \<le> 512 \<and>
     8 * unat (ap_parallelism p) \<le> unat (ap_memory p) \<and> unat (ap_memory p) \<le> 2 ^ 21 \<and>
     0 < length salt \<and> length salt \<le> 256 \<and> 0 < length key \<and> length key \<le> 512"

lemma format_word_digits: "c \<in> set (format_word w) \<Longrightarrow> is_digit c"
  using format_nat_digits [of "unat w"] by (auto simp: format_word_def list_all_iff)

lemma format_word_plain: "CHR ''$'' \<notin> set (format_word w)" "CHR '','' \<notin> set (format_word w)"
  by (auto dest!: format_word_digits simp: is_digit_def)

lemma b64_plain: "CHR ''$'' \<notin> set (b64_encode False s)"
  by (auto dest!: b64_encode_ascii)

lemma split_phc:
  "split_on (CHR ''$'') (phc p salt key) =
    [[], ''argon2id'', ''v='' @ format_word argon2_version,
     ''m='' @ format_word (ap_memory p) @ '',t='' @ format_word (ap_time p) @ '',p='' @ format_word (ap_parallelism p),
     b64_encode False salt, b64_encode False key]" (is "_ = ?parts")
proof -
  have "phc p salt key = join ''$'' ?parts" by (simp add: phc_def)
  moreover have "split_on (CHR ''$'') (join ''$'' ?parts) = ?parts"
    by (rule split_on_join) (auto simp: format_word_plain b64_plain)
  ultimately show ?thesis by simp
qed

lemma split_fields:
  "split_on (CHR '','') (''m='' @ format_word a @ '',t='' @ format_word b @ '',p='' @ format_word c) =
    [''m='' @ format_word a, ''t='' @ format_word b, ''p='' @ format_word c]" (is "_ = ?fs")
proof -
  have "split_on (CHR '','') (join '','' ?fs) = ?fs"
    by (rule split_on_join) (auto simp: format_word_plain)
  then show ?thesis by simp
qed

lemma caps_words:
  fixes m t par :: "32 word"
  shows "\<not> (par < 1 \<or> max_parallelism < par \<or> t < 1 \<or> max_time < t \<or> m < 8 * par \<or> max_memory < m) \<longleftrightarrow>
    1 \<le> unat par \<and> unat par \<le> 64 \<and> 1 \<le> unat t \<and> unat t \<le> 512 \<and> 8 * unat par \<le> unat m \<and> unat m \<le> 2 ^ 21"
proof -
  have p: "unat (8 * par) = 8 * unat par" if "unat par \<le> 64"
    using that by (simp add: unat_word_ariths)
  have c: "unat max_parallelism = 64" "unat max_time = 512" "unat max_memory = 2 ^ 21" "unat (1 :: 32 word) = 1"
    by (simp_all add: max_parallelism_def max_time_def max_memory_def)
  show ?thesis
    unfolding word_less_nat_alt c using p by (auto simp: not_less)
qed

lemma ucast_8_32:
  fixes w :: "8 word"
  shows "ucast (ucast w :: 32 word) = w"
  by transfer simp

lemma phc_parses:
  assumes "in_caps p salt key"
  shows "parse_argon2id (phc p salt key) = Some (p, salt, key)"
proof -
  let ?par = "ucast (ap_parallelism p) :: 32 word"
  have par: "unat ?par = unat (ap_parallelism p)"
    using unsigned_less [of "ap_parallelism p", where ?'a = nat] by (simp add: unsigned_ucast_eq take_bit_eq_mod)
  then have same: "format_word (ap_parallelism p) = format_word ?par" by (simp add: format_word_def)
  have caps: "\<not> (?par < 1 \<or> max_parallelism < ?par \<or> ap_time p < 1 \<or> max_time < ap_time p \<or>
      ap_memory p < 8 * ?par \<or> max_memory < ap_memory p)"
    unfolding caps_words par using assms by (simp add: in_caps_def)
  have len: "length (b64_encode False salt) \<le> raw_encoded_len max_salt_length"
      "length (b64_encode False key) \<le> raw_encoded_len max_key_length"
    using assms by (auto simp: b64_encode_length in_caps_def raw_encoded_len_def max_salt_length_def max_key_length_def)
  have lane: "ucast ?par = ap_parallelism p" by (rule ucast_8_32)
  have param: "parse_param (pre @ format_word w) pre = Some w" for pre w by (simp add: parse_param_iff)
  have sizes: "\<not> (salt = [] \<or> max_salt_length < length salt \<or> key = [] \<or> max_key_length < length key)"
    using assms by (auto simp: in_caps_def max_salt_length_def max_key_length_def)
  show ?thesis
    unfolding parse_argon2id_def split_phc same list.case split_fields param option.case prod.case
    using caps len sizes lane by (simp add: param not_less)
qed

lemma parsed_phc:
  assumes "parse_argon2id s = Some (p, salt, key)" "CR \<notin> set s" "LF \<notin> set s"
  shows "s = phc p salt key \<and> in_caps p salt key"
proof -
  obtain p2 p3 p4 p5 f0 f1 f2 m t par where sp: "split_on (CHR ''$'') s = [[], ''argon2id'', p2, p3, p4, p5]"
      "parse_param p2 ''v='' = Some argon2_version" "split_on (CHR '','') p3 = [f0, f1, f2]"
      "parse_param f0 ''m='' = Some m" "parse_param f1 ''t='' = Some t" "parse_param f2 ''p='' = Some par"
      "\<not> (par < 1 \<or> max_parallelism < par \<or> t < 1 \<or> max_time < t \<or> m < 8 * par \<or> max_memory < m)"
      "b64_decode False True p4 = Some salt" "b64_decode False True p5 = Some key"
      "\<not> (salt = [] \<or> max_salt_length < length salt \<or> key = [] \<or> max_key_length < length key)"
      "p = \<lparr>ap_memory = m, ap_time = t, ap_parallelism = ucast par\<rparr>"
    using assms(1)
    by (auto simp: parse_argon2id_def split: list.splits option.splits if_splits)
  have s: "s = join ''$'' [[], ''argon2id'', p2, p3, p4, p5]" "p3 = join '','' [f0, f1, f2]"
    using join_split_on [of "CHR ''$''" s] join_split_on [of "CHR '',''" p3] sp(1,3) by simp_all
  have no: "CR \<notin> set p4" "LF \<notin> set p4" "CR \<notin> set p5" "LF \<notin> set p5"
    using assms(2,3) s(1) by auto
  have b: "p4 = b64_encode False salt" "p5 = b64_encode False key"
    using sp(8,9) b64_decode_strict no by auto
  note caps = sp(7) [unfolded caps_words]
  then have par: "unat (ucast par :: 8 word) = unat par"
    by (simp add: unsigned_ucast_eq take_bit_eq_mod)
  then have "format_word (ucast par :: 8 word) = format_word par" by (simp add: format_word_def)
  then have "s = phc p salt key"
    using s b sp(2,4-6) by (simp add: phc_def parse_param_iff sp(11))
  moreover have "in_caps p salt key"
    using caps sp(10) par by (auto simp: in_caps_def sp(11) max_salt_length_def max_key_length_def)
  ultimately show ?thesis by simp
qed

lemma parsed_in_caps: "parse_argon2id s = Some (p, salt, key) \<Longrightarrow> in_caps p salt key"
proof -
  assume "parse_argon2id s = Some (p, salt, key)"
  then obtain m t par where *:
      "\<not> (par < 1 \<or> max_parallelism < par \<or> t < 1 \<or> max_time < t \<or> m < 8 * par \<or> max_memory < m)"
      "\<not> (salt = [] \<or> max_salt_length < length salt \<or> key = [] \<or> max_key_length < length key)"
      "p = \<lparr>ap_memory = m, ap_time = t, ap_parallelism = ucast par\<rparr>"
    by (auto simp: parse_argon2id_def split: list.splits option.splits if_splits)
  note caps = *(1) [unfolded caps_words]
  then have "unat (ucast par :: 8 word) = unat par" by (simp add: unsigned_ucast_eq take_bit_eq_mod)
  with caps *(2) show ?thesis by (auto simp: in_caps_def *(3) max_salt_length_def max_key_length_def)
qed

lemma format_word_inj: "format_word v = format_word w \<longleftrightarrow> v = w"
  by (metis digits_value_format format_word_def word_unat_eq_iff)

lemma b64_encode_inj: "b64_encode False s = b64_encode False t \<longleftrightarrow> s = t"
  by (metis b64_decode_encode option.inject)

lemma phc_inj: "phc p salt key = phc p' salt' key' \<longleftrightarrow> p = p' \<and> salt = salt' \<and> key = key'"
proof
  assume eq: "phc p salt key = phc p' salt' key'"
  let ?f = "\<lambda>p. ''m='' @ format_word (ap_memory p) @ '',t='' @ format_word (ap_time p) @ '',p='' @ format_word (ap_parallelism p)"
  have "salt = salt'" "key = key'" and f: "?f p = ?f p'"
    using arg_cong [OF eq, of "split_on (CHR ''$'')"] unfolding split_phc by (simp_all only: list.inject b64_encode_inj)
  have "ap_memory p = ap_memory p' \<and> ap_time p = ap_time p' \<and> ap_parallelism p = ap_parallelism p' \<and> ([] :: string list) = []"
    using arg_cong [OF f, of "split_on (CHR '','')"] unfolding split_fields
    by (simp only: list.inject append_same_eq same_append_eq format_word_inj)
  then have "p = p'" by (cases p, cases p') simp
  with \<open>salt = salt'\<close> \<open>key = key'\<close> show "p = p' \<and> salt = salt' \<and> key = key'" by simp
qed simp

lemma phc_no_newline: "CR \<notin> set (phc p salt key)" "LF \<notin> set (phc p salt key)"
  by (auto simp: phc_def is_digit_def dest!: format_word_digits b64_encode_chars)
    (metis b64_char_plain)+

lemma parse_phc:
  "parse_argon2id (phc p salt key) = (if in_caps p salt key then Some (p, salt, key) else None)"
proof (cases "parse_argon2id (phc p salt key)")
  case None
  then show ?thesis using phc_parses [of p salt key] by auto
next
  case (Some a)
  obtain p' salt' key' where a: "a = (p', salt', key')" by (cases a)
  have "phc p salt key = phc p' salt' key'" "in_caps p' salt' key'"
    using parsed_phc Some phc_no_newline unfolding a by blast+
  then show ?thesis using Some by (simp add: phc_inj a)
qed

section \<open>Properties\<close>

text \<open>C29: The stored-hash grammar. Whatever the column holds, a hash that parses demands no
  more than the caps (lanes 1-64, passes 1-512, memory from 8 KiB per lane up to 2 GiB, salt and
  key non-empty and bounded), with no wrap-around in the 32-bit comparisons nor in the cast to 8
  bits; and among strings without a line break the parser accepts exactly the canonical PHC
  strings of such parameters, each as the parameters, salt and key it was printed from, and
  prints back: no second spelling of a hash exists.\<close>

theorem stored_hash_grammar:
  "(parse_argon2id s = Some (p, salt, key) \<longrightarrow> in_caps p salt key) \<and>
   (CR \<notin> set s \<and> LF \<notin> set s \<longrightarrow>
     (parse_argon2id s = Some (p, salt, key) \<longleftrightarrow> s = phc p salt key \<and> in_caps p salt key))"
  using parsed_in_caps parsed_phc parse_phc by auto

lemma stored_hash_grammar_witness:
  "in_caps \<lparr>ap_memory = 64, ap_time = 3, ap_parallelism = 4\<rparr> ''somesalt'' ''key'' \<and>
   parse_argon2id ''$argon2id$v=19$m=64,t=3,p=4$c29tZXNhbHQ$a2V5''
     = Some (\<lparr>ap_memory = 64, ap_time = 3, ap_parallelism = 4\<rparr>, ''somesalt'', ''key'')"
proof -
  let ?s = "''$argon2id$v=19$m=64,t=3,p=4$c29tZXNhbHQ$a2V5''"
  let ?p = "\<lparr>ap_memory = 64, ap_time = 3, ap_parallelism = 4\<rparr>"
  have "in_caps ?p ''somesalt'' ''key''" by (simp add: in_caps_def)
  moreover have "?s = phc ?p ''somesalt'' ''key''" by code_simp
  moreover have "CR \<notin> set ?s \<and> LF \<notin> set ?s" by code_simp
  ultimately show ?thesis
    using stored_hash_grammar [of ?s ?p "''somesalt''" "''key''"] by simp
qed

definition params_of :: "hash_config \<Rightarrow> argon2_params" where
  "params_of h = \<lparr>ap_memory = hc_memory h, ap_time = hc_time h, ap_parallelism = hc_parallelism h\<rparr>"

definition derive :: "kdf \<Rightarrow> hash_config \<Rightarrow> string \<Rightarrow> string \<Rightarrow> string" where
  "derive kdf h password salt =
     kdf password salt (hc_time h) (hc_memory h) (hc_parallelism h) (hc_key_length h)"

text \<open>C30: Hashing, verifying and the rehash policy agree. With a random source that fills the
  salt and a derivation that returns the length it is asked for, the string \<^verbatim>\<open>Hash\<close> returns for a
  password is verified by every hasher, whatever its own policy and legacy list: the right
  password matches, and another one is a mismatch exactly when it derives a different key. And
  \<^verbatim>\<open>NeedsRehash\<close> of the other hasher asks for a rehash exactly when one of the five parameters is
  below its policy, never when a hasher is asked about its own hash. All of it holds when the
  minting hasher's parameters are within the parser's caps; when they are not, which \<^verbatim>\<open>New\<close> does
  not check, the hash it returned is malformed to every hasher, its own included.\<close>

theorem hash_verifies:
  assumes "rd (unat (hc_salt_length h)) g = (Some salt, g')" "length salt = unat (hc_salt_length h)"
    and "\<And>pw s t m l k. length (kdf pw s t m l k) = unat (k :: 32 word)"
  shows "\<exists>e. hash_password kdf rd h pw g = (Inr e, g') \<and>
    (if in_caps (params_of h) salt (derive kdf h pw salt)
     then verify_password kdf bcrypt h' pw' e = (if derive kdf h pw' salt = derive kdf h pw salt then None else Some Mismatch)
        \<and> (needs_rehash h' e \<longleftrightarrow> hc_memory h < hc_memory h' \<or> hc_time h < hc_time h' \<or> hc_parallelism h < hc_parallelism h'
             \<or> hc_salt_length h < hc_salt_length h' \<or> hc_key_length h < hc_key_length h')
     else verify_password kdf bcrypt h' pw' e = Some Malformed \<and> needs_rehash h' e)"
proof -
  let ?key = "derive kdf h pw salt" and ?p = "params_of h"
  let ?e = "phc ?p salt ?key"
  have h: "hash_password kdf rd h pw g = (Inr ?e, g')"
    using assms(1) by (simp add: hash_password_def derive_def params_of_def Let_def)
  have k: "length ?key = unat (hc_key_length h)" using assms(3) by (simp add: derive_def)
  have pre: "has_prefix ?e ''$argon2id$''" by (simp add: phc_def has_prefix_def)
  show ?thesis
  proof (cases "in_caps ?p salt ?key")
    case True
    then have "parse_argon2id ?e = Some (?p, salt, ?key)" by (simp add: parse_phc)
    with h k pre True assms(2) show ?thesis
      by (auto simp: verify_password_def verify_argon2id_def needs_rehash_def derive_def params_of_def)
  next
    case False
    then have "parse_argon2id ?e = None" by (simp add: parse_phc)
    with h pre False show ?thesis by (simp add: verify_password_def verify_argon2id_def needs_rehash_def)
  qed
qed

definition toy_kdf :: kdf where
  "toy_kdf pw s t m l k = take (unat k) (pw @ replicate (unat k) (CHR ''.''))"

lemma hash_verifies_witness:
  defines "h \<equiv> new_hasher \<lparr>hc_memory = 0, hc_time = 0, hc_parallelism = 0, hc_salt_length = 4, hc_key_length = 6, hc_legacy = []\<rparr>"
  defines "rd \<equiv> \<lambda>n (g :: unit). (Some (replicate n (CHR ''s'')), g)"
  shows "\<exists>e. hash_password toy_kdf rd h ''right'' () = (Inr e, ()) \<and>
    verify_password toy_kdf (\<lambda>_ _. Bcrypt_Error) h ''wrong'' e = Some Mismatch \<and>
    \<not> needs_rehash h e"
proof -
  have f: "hc_memory h = 19456" "hc_time h = 2" "hc_parallelism h = 1" "hc_salt_length h = 4" "hc_key_length h = 6"
    by (simp_all add: h_def new_hasher_def or_default_def default_memory_def default_time_def default_parallelism_def)
  have d: "derive toy_kdf h ''right'' ''ssss'' = ''right.''" "derive toy_kdf h ''wrong'' ''ssss'' = ''wrong.''"
    by (simp_all add: derive_def toy_kdf_def f)
  have c: "in_caps (params_of h) ''ssss'' ''right.''" by (simp add: in_caps_def params_of_def f)
  have r: "rd (unat (hc_salt_length h)) () = (Some ''ssss'', ())" unfolding rd_def f by code_simp
  have l: "length (''ssss'' :: string) = unat (hc_salt_length h)" by (simp add: f)
  have k: "length (toy_kdf pw s t m l k) = unat k" for pw s t m l k by (simp add: toy_kdf_def)
  show ?thesis
    using hash_verifies [of rd h "()" "''ssss''" "()" toy_kdf "''right''" "\<lambda>_ _. Bcrypt_Error" h "''wrong''", OF r l k] c
    by (auto simp: d)
qed

end
