(* ===== verification/Redaction.thy ===== *)
theory Redaction
  imports GoRunes "HOL-Library.AList"
begin

text \<open>
  The redaction and enrichment layers of the logger: \<^verbatim>\<open>src/logger/redact.go\<close>,
  \<^verbatim>\<open>mask.go\<close>, \<^verbatim>\<open>ctxattrs.go\<close> and the wiring in \<^verbatim>\<open>logger.go\<close>.

  A logged value is a \<open>lval\<close> (\<^verbatim>\<open>slog.Value\<close>), and what an \<^verbatim>\<open>any\<close> holds is a \<open>rval\<close>, the value
  as \<^verbatim>\<open>reflect\<close> shows it. Both are codatatypes: a pointer cycle, or a \<^verbatim>\<open>LogValuer\<close> that returns
  itself, is an infinite value, and the depth bound of the code is what makes the walk end.
  Scalars are a type parameter. \<open>lower\<close> (\<^verbatim>\<open>strings.ToLower\<close>), \<open>sprint\<close> and \<open>sprint_value\<close>
  (\<^verbatim>\<open>fmt.Sprint\<close> on an \<^verbatim>\<open>any\<close> and on a \<^verbatim>\<open>slog.Value\<close>) are arguments.
\<close>

section \<open>Masking\<close>

record mask =
  mk_first :: int
  mk_last :: int
  mk_char :: int

definition rune_string :: "int \<Rightarrow> string" where
  \<comment> \<open>\<^verbatim>\<open>string(c)\<close>: an integer that is no rune becomes U+FFFD\<close>
  "rune_string c = encode_rune (if c < 0 \<or> \<not> valid_rune (nat c) then rune_error else nat c)"

definition mask_string :: "string \<Rightarrow> mask \<Rightarrow> string" where
  "mask_string s m =
     (let c = or_default (mk_char m) 42; first = max 0 (mk_first m); last = max 0 (mk_last m);
          r = runes s; n = int (length r) in
      if n \<le> first \<or> n - first \<le> last then concat (replicate (length r) (rune_string c))
      else utf8 (take (nat first) r) @ concat (replicate (nat (n - first - last)) (rune_string c))
         @ utf8 (drop (nat (n - last)) r))"

section \<open>Configuration\<close>

record redact_config =
  rc_redacted :: "string list"
  rc_replacement :: string
  rc_masked :: "(string \<times> mask) list"

datatype rule = Redact | Masked mask

definition default_replacement :: string where "default_replacement = ''[REDACTED]''"
definition unloggable :: string where "unloggable = ''[UNLOGGABLE]''"
definition max_depth :: nat where "max_depth = 16"
definition max_log_values :: nat where "max_log_values = 10"

record 'h redact_handler =
  rh_inner :: 'h
  rh_rules :: "string \<rightharpoonup> rule"
  rh_replacement :: string

definition redact_rules :: "(string \<Rightarrow> string) \<Rightarrow> redact_config \<Rightarrow> string \<rightharpoonup> rule" where
  "redact_rules lower r =
     fold (\<lambda>k m. m(lower k \<mapsto> Redact)) (rc_redacted r)
       (fold (\<lambda>(k, mk) m. m(lower k \<mapsto> Masked mk)) (rc_masked r) Map.empty)"

definition wrap_redact :: "(string \<Rightarrow> string) \<Rightarrow> 'h \<Rightarrow> redact_config \<Rightarrow> 'h + 'h redact_handler" where
  \<comment> \<open>\<open>Inl h\<close> is the handler itself, unwrapped\<close>
  "wrap_redact lower h r =
     (if rc_redacted r = [] \<and> rc_masked r = [] then Inl h
      else Inr \<lparr>rh_inner = h, rh_rules = redact_rules lower r,
                rh_replacement = (if rc_replacement r = [] then default_replacement else rc_replacement r)\<rparr>)"

section \<open>Values\<close>

record struct_field =
  sf_name :: string
  sf_exported :: bool
  sf_json :: "string option"

codatatype 'x rval =
    RInvalid | RNil | RRef "'x rval" | RStruct "(struct_field \<times> 'x rval) list"
  | RMap "(string \<times> 'x rval) list" | RSeq "'x rval list" | RScalar 'x

codatatype 'x lval =
    LString string | LScalar 'x | LGroup "(string \<times> 'x lval) list" | LAny "'x rval"
  | LValuer "'x lval option"  \<comment> \<open>what \<^verbatim>\<open>LogValue\<close> returns, \<open>None\<close> when it panics\<close>

datatype 'x tree =
  TNil | TStr string | TScalar 'x | TMap "(string \<times> 'x tree) list" | TSeq "'x tree list"

datatype 'x out =
    Same "'x lval"  \<comment> \<open>the attribute as it came\<close>
  | OStr string | OGroup "(string \<times> 'x out) list" | OAny "'x tree"

definition field_name :: "struct_field \<Rightarrow> string option" where
  "field_name f =
     (if \<not> sf_exported f then None
      else case sf_json f of
        None \<Rightarrow> Some (sf_name f)
      | Some tag \<Rightarrow>
          (let base = fst (cut (CHR '','') tag) in
           if base = ''-'' then None else if base \<noteq> [] then Some base else Some (sf_name f)))"

fun plan :: "(struct_field \<times> 'v) list \<Rightarrow> (string \<times> 'v) list" where
  "plan [] = []"
| "plan ((f, v) # fs) = (case field_name f of None \<Rightarrow> plan fs | Some n \<Rightarrow> (n, v) # plan fs)"

primrec resolve_within :: "nat \<Rightarrow> 'x lval \<Rightarrow> 'x lval option" where
  "resolve_within 0 v = None"
| "resolve_within (Suc n) v =
     (case v of LValuer None \<Rightarrow> None | LValuer (Some w) \<Rightarrow> resolve_within n w | _ \<Rightarrow> Some v)"

definition resolve :: "'x lval \<Rightarrow> 'x lval option" where
  "resolve = resolve_within max_log_values"

definition value_string :: "('x lval \<Rightarrow> string) \<Rightarrow> 'x lval \<Rightarrow> string" where
  "value_string sprint_value v = (case v of LString s \<Rightarrow> s | _ \<Rightarrow> sprint_value v)"

section \<open>The walk\<close>

definition ruled :: "'h redact_handler \<Rightarrow> rule \<Rightarrow> string \<Rightarrow> string" where
  "ruled h r s = (case r of Redact \<Rightarrow> rh_replacement h | Masked m \<Rightarrow> mask_string s m)"

definition collect :: "(string \<times> 'x tree \<times> bool) list \<Rightarrow> 'x tree \<times> bool" where
  \<comment> \<open>the map \<^verbatim>\<open>m\<close> and the flag \<^verbatim>\<open>changed\<close> the loops of \<^verbatim>\<open>sanitize\<close> build: a later name overwrites\<close>
  "collect es = (TMap (fold (\<lambda>(n, t, c). AList.update n t) es []), list_ex (\<lambda>(n, t, c). c) es)"

function sanitize :: "(string \<Rightarrow> string) \<Rightarrow> ('x rval \<Rightarrow> string) \<Rightarrow> 'h redact_handler \<Rightarrow> 'x rval \<Rightarrow> nat
    \<Rightarrow> 'x tree \<times> bool" where
  "sanitize lower sprint h v depth =
     (if max_depth \<le> depth then (TStr unloggable, True)
      else case v of
        RInvalid \<Rightarrow> (TNil, False)
      | RNil \<Rightarrow> (TNil, False)
      | RRef w \<Rightarrow> sanitize lower sprint h w (depth + 1)
      | RStruct fs \<Rightarrow>
          collect (map (\<lambda>(n, w). case rh_rules h (lower n) of
                 Some r \<Rightarrow> (n, TStr (ruled h r (sprint w)), True)
               | None \<Rightarrow> (n, sanitize lower sprint h w (depth + 1))) (plan fs))
      | RMap es \<Rightarrow>
          collect (map (\<lambda>(n, w). case rh_rules h (lower n) of
                 Some r \<Rightarrow> (n, TStr (ruled h r (sprint w)), True)
               | None \<Rightarrow> (n, sanitize lower sprint h w (depth + 1))) es)
      | RSeq vs \<Rightarrow>
          (let rs = map (\<lambda>w. sanitize lower sprint h w (depth + 1)) vs
           in (TSeq (map fst rs), list_ex snd rs))
      | RScalar x \<Rightarrow> (TScalar x, False))"
  by pat_completeness auto
termination
  by (relation "measure (\<lambda>(_, _, _, _, d). max_depth - d)") (auto simp: not_le)

declare sanitize.simps [simp del]

definition ruled_value :: "('x lval \<Rightarrow> string) \<Rightarrow> 'h redact_handler \<Rightarrow> rule \<Rightarrow> 'x lval \<Rightarrow> string" where
  "ruled_value sprint_value h r v =
     (case r of
        Redact \<Rightarrow> rh_replacement h
      | Masked m \<Rightarrow> (case resolve v of None \<Rightarrow> unloggable | Some rv \<Rightarrow> mask_string (value_string sprint_value rv) m))"

function process :: "(string \<Rightarrow> string) \<Rightarrow> ('x rval \<Rightarrow> string) \<Rightarrow> ('x lval \<Rightarrow> string) \<Rightarrow> 'h redact_handler
    \<Rightarrow> string \<Rightarrow> 'x lval \<Rightarrow> nat \<Rightarrow> 'x out \<times> bool" where
  "process lower sprint sprint_value h key v depth =
     (if max_depth \<le> depth then (OStr unloggable, True)
      else case rh_rules h (lower key) of
        Some r \<Rightarrow> (OStr (ruled_value sprint_value h r v), True)
      | None \<Rightarrow>
          (case resolve v of
             None \<Rightarrow> (OStr unloggable, True)
           | Some rv \<Rightarrow>
               (case rv of
                  LGroup members \<Rightarrow>
                    (let rs = map (\<lambda>(k, m). (k, process lower sprint sprint_value h k m (depth + 1))) members
                     in if list_ex (\<lambda>(k, p, c). c) rs then (OGroup (map (\<lambda>(k, p, c). (k, p)) rs), True)
                        else (Same v, False))
                | LAny x \<Rightarrow>
                    (case sanitize lower sprint h x depth of
                       (t, changed) \<Rightarrow> if changed then (OAny t, True) else (Same v, False))
                | _ \<Rightarrow> (Same v, False))))"
  by pat_completeness auto
termination
  by (relation "measure (\<lambda>(_, _, _, _, _, _, d). max_depth - d)") (auto simp: not_le)

declare process.simps [simp del]

section \<open>The handlers\<close>

text \<open>The inner handler is a state with its two operations \<open>handle\<close> and \<open>with_attrs\<close> as arguments.\<close>

definition redact_with_attrs :: "(string \<Rightarrow> string) \<Rightarrow> ('x rval \<Rightarrow> string) \<Rightarrow> ('x lval \<Rightarrow> string) \<Rightarrow>
    ('h \<Rightarrow> (string \<times> 'x out) list \<Rightarrow> 'h) \<Rightarrow> 'h redact_handler \<Rightarrow> (string \<times> 'x lval) list \<Rightarrow> 'h redact_handler" where
  "redact_with_attrs lower sprint sprint_value with_attrs h attrs =
     h\<lparr>rh_inner := with_attrs (rh_inner h)
        (map (\<lambda>(k, v). (k, fst (process lower sprint sprint_value h k v 0))) attrs)\<rparr>"

definition redact_with_group :: "('h \<Rightarrow> string \<Rightarrow> 'h) \<Rightarrow> 'h redact_handler \<Rightarrow> string \<Rightarrow> 'h redact_handler" where
  "redact_with_group with_group h name = h\<lparr>rh_inner := with_group (rh_inner h) name\<rparr>"

definition redact_attrs :: "(string \<Rightarrow> string) \<Rightarrow> ('x rval \<Rightarrow> string) \<Rightarrow> ('x lval \<Rightarrow> string) \<Rightarrow>
    'h redact_handler \<Rightarrow> (string \<times> 'x lval) list \<Rightarrow> (string \<times> 'x out) list" where
  "redact_attrs lower sprint sprint_value h attrs =
     (let ps = map (\<lambda>(k, v). (k, process lower sprint sprint_value h k v 0)) attrs in
      if list_ex (\<lambda>(k, p, c). c) ps then map (\<lambda>(k, p, c). (k, p)) ps
      else map (\<lambda>(k, v). (k, Same v)) attrs)"

definition redact_handle :: "(string \<Rightarrow> string) \<Rightarrow> ('x rval \<Rightarrow> string) \<Rightarrow> ('x lval \<Rightarrow> string) \<Rightarrow>
    ('h \<Rightarrow> (string \<times> 'x out) list \<Rightarrow> 'r) \<Rightarrow> 'h redact_handler \<Rightarrow> (string \<times> 'x lval) list \<Rightarrow> 'r" where
  "redact_handle lower sprint sprint_value handle h attrs =
     handle (rh_inner h) (redact_attrs lower sprint sprint_value h attrs)"

definition enrich :: "(string \<times> 'v) list \<Rightarrow> (string \<times> 'v) list \<Rightarrow> (string \<times> 'v) list" where
  "enrich rec attrs = rec @ filter (\<lambda>(k, v). \<not> list_ex (\<lambda>(k', v'). k' = k) rec) attrs"

definition wrap_handle :: "(string \<Rightarrow> string) \<Rightarrow> ('x rval \<Rightarrow> string) \<Rightarrow> ('x lval \<Rightarrow> string) \<Rightarrow>
    ('h \<Rightarrow> (string \<times> 'x out) list \<Rightarrow> 'r) \<Rightarrow> 'h \<Rightarrow> redact_config \<Rightarrow> ('c \<Rightarrow> (string \<times> 'x lval) list) option \<Rightarrow>
    'c \<Rightarrow> (string \<times> 'x lval) list \<Rightarrow> 'r" where
  \<comment> \<open>\<^verbatim>\<open>Handle\<close> of the handler \<^verbatim>\<open>Wrap\<close> returns\<close>
  "wrap_handle lower sprint sprint_value handle h cfg context_attrs ctx rec =
     (let rec' = (case context_attrs of None \<Rightarrow> rec | Some fn \<Rightarrow> enrich rec (fn ctx)) in
      case wrap_redact lower h cfg of
        Inl h' \<Rightarrow> handle h' (map (\<lambda>(k, v). (k, Same v)) rec')
      | Inr rh \<Rightarrow> redact_handle lower sprint sprint_value handle rh rec')"

section \<open>Masks\<close>

definition shown :: "nat \<Rightarrow> nat \<Rightarrow> nat \<Rightarrow> nat \<Rightarrow> bool" where
  "shown f l n i \<longleftrightarrow> f + l < n \<and> (i < f \<or> n - l \<le> i)"

definition mask_rune :: "mask \<Rightarrow> nat" where
  "mask_rune m = (let c = or_default (mk_char m) 42 in if c < 0 \<or> \<not> valid_rune (nat c) then rune_error else nat c)"

lemma utf8_append: "utf8 (a @ b) = utf8 a @ utf8 b"
  by (simp add: utf8_def)

lemma utf8_replicate: "utf8 (replicate n c) = concat (replicate n (encode_rune c))"
  by (simp add: utf8_def)

lemma mask_rune_valid: "valid_rune (mask_rune m)"
  by (simp add: mask_rune_def Let_def valid_rune_error)

lemma mask_string_runes:
  "runes (mask_string s m) =
    (let r = runes s; n = length r; f = nat (mk_first m); l = nat (mk_last m); c = mask_rune m in
     if n \<le> f + l then replicate n c else take f r @ replicate (n - f - l) c @ drop (n - l) r)"
proof -
  define r where "r = runes s"
  define n f l c where "n = length r" and "f = nat (mk_first m)" and "l = nat (mk_last m)" and "c = mask_rune m"
  have rs: "rune_string (or_default (mk_char m) 42) = encode_rune c"
    by (simp add: rune_string_def c_def mask_rune_def Let_def)
  have v: "list_all valid_rune r" "valid_rune c"
    by (auto simp: r_def c_def list_all_iff runes_valid mask_rune_valid)
  have mx: "max 0 (mk_first m) = int f" "max 0 (mk_last m) = int l" by (simp_all add: f_def l_def)
  have all: "(int n \<le> int f \<or> int n - int f \<le> int l) \<longleftrightarrow> n \<le> f + l" by linarith
  have nums: "nat (int n - int f - int l) = n - f - l" "nat (int n - int l) = n - l" by linarith+
  have e: "mask_string s m = utf8 (if n \<le> f + l then replicate n c else take f r @ replicate (n - f - l) c @ drop (n - l) r)"
    unfolding mask_string_def Let_def r_def [symmetric] n_def [symmetric] mx rs all nums
    by (simp add: utf8_append utf8_replicate)
  have "list_all valid_rune (if n \<le> f + l then replicate n c else take f r @ replicate (n - f - l) c @ drop (n - l) r)"
    using v by (auto simp: list_all_iff dest: in_set_takeD in_set_dropD)
  then show ?thesis
    unfolding e by (simp only: runes_utf8) (simp add: Let_def r_def n_def f_def l_def c_def)
qed

text \<open>C31: A mask keeps the number of runes of the value and shows exactly the configured
  edges: the rune at place \<open>i\<close> is the value's own when it is among the first \<^verbatim>\<open>ShowFirst\<close> or the
  last \<^verbatim>\<open>ShowLast\<close> and something in between remains to hide, and the mask rune otherwise; a
  value with no middle is hidden completely, for every pair of bounds, negative and huge ones
  included. So two values with as many runes that agree on their shown edges are masked alike.\<close>

theorem mask_shows_only_edges:
  "length (runes (mask_string s m)) = length (runes s) \<and>
   (\<forall>i < length (runes s). runes (mask_string s m) ! i =
      (if shown (nat (mk_first m)) (nat (mk_last m)) (length (runes s)) i then runes s ! i else mask_rune m))"
proof -
  define r n f l where "r = runes s" and "n = length r" and "f = nat (mk_first m)" and "l = nat (mk_last m)"
  note e = mask_string_runes [of s m, unfolded Let_def, folded r_def, folded n_def f_def l_def]
  have "length (runes (mask_string s m)) = n" unfolding e by (auto simp: n_def)
  moreover have "runes (mask_string s m) ! i = (if shown f l n i then r ! i else mask_rune m)" if "i < n" for i
  proof (cases "n \<le> f + l")
    case False
    then consider "i < f" | "f \<le> i" "i < n - l" | "n - l \<le> i" by linarith
    then show ?thesis using that False unfolding e
      by cases (auto simp: shown_def nth_append n_def)
  qed (use that in \<open>simp add: e shown_def\<close>)
  ultimately show ?thesis unfolding r_def n_def f_def l_def by blast
qed

lemma mask_shows_only_edges_witness:
  "length (runes (mask_string ''4111111111111111'' \<lparr>mk_first = 6, mk_last = 4, mk_char = 0\<rparr>)) = 16 \<and>
   runes (mask_string ''4111111111111111'' \<lparr>mk_first = 6, mk_last = 4, mk_char = 0\<rparr>) ! 6 = 42"
proof -
  have n: "length (runes ''4111111111111111'') = 16" by (simp add: runes_ascii)
  have "\<not> shown 6 4 16 6" "mask_rune \<lparr>mk_first = 6, mk_last = 4, mk_char = 0\<rparr> = 42"
    by (simp_all add: shown_def mask_rune_def or_default_def valid_rune_def)
  then show ?thesis
    using mask_shows_only_edges [of "''4111111111111111''" "\<lparr>mk_first = 6, mk_last = 4, mk_char = 0\<rparr>"] n by simp
qed

section \<open>Values that differ only under rules\<close>

text \<open>
  Two values are alike for a handler when they differ at most in what the rules hide: below a
  redacted key anything goes, below a masked key the two print to strings with the same masked
  form. A field the plan leaves out (unexported, or tagged \<^verbatim>\<open>"-"\<close>) has no key a rule could name,
  so there the two must be equal.
\<close>

definition alike_under :: "(string \<Rightarrow> string) \<Rightarrow> ('x rval \<Rightarrow> string) \<Rightarrow> 'h redact_handler \<Rightarrow>
    ('x rval \<Rightarrow> 'x rval \<Rightarrow> bool) \<Rightarrow> string \<Rightarrow> 'x rval \<Rightarrow> 'x rval \<Rightarrow> bool" where
  "alike_under lower sprint h R n v w \<longleftrightarrow>
     (case rh_rules h (lower n) of
        Some r \<Rightarrow> ruled h r (sprint v) = ruled h r (sprint w)
      | None \<Rightarrow> R v w)"

definition alike_field :: "(string \<Rightarrow> string) \<Rightarrow> ('x rval \<Rightarrow> string) \<Rightarrow> 'h redact_handler \<Rightarrow>
    ('x rval \<Rightarrow> 'x rval \<Rightarrow> bool) \<Rightarrow> struct_field \<times> 'x rval \<Rightarrow> struct_field \<times> 'x rval \<Rightarrow> bool" where
  "alike_field lower sprint h R p q \<longleftrightarrow> fst p = fst q \<and>
     (case field_name (fst p) of
        None \<Rightarrow> snd p = snd q
      | Some n \<Rightarrow> alike_under lower sprint h R n (snd p) (snd q))"

definition alike_entry :: "(string \<Rightarrow> string) \<Rightarrow> ('x rval \<Rightarrow> string) \<Rightarrow> 'h redact_handler \<Rightarrow>
    ('x rval \<Rightarrow> 'x rval \<Rightarrow> bool) \<Rightarrow> string \<times> 'x rval \<Rightarrow> string \<times> 'x rval \<Rightarrow> bool" where
  "alike_entry lower sprint h R p q \<longleftrightarrow> fst p = fst q \<and> alike_under lower sprint h R (fst p) (snd p) (snd q)"

lemma alike_under_mono: "R \<le> S \<Longrightarrow> alike_under lower sprint h R n v w \<longrightarrow> alike_under lower sprint h S n v w"
  by (auto simp: alike_under_def split: option.splits)

lemma alike_field_mono [mono]:
  assumes "R \<le> S"
  shows "alike_field lower sprint h R p q \<longrightarrow> alike_field lower sprint h S p q"
proof -
  note u = alike_under_mono [OF assms, of lower sprint h, rule_format]
  show ?thesis by (auto simp: alike_field_def split: option.splits intro: u)
qed

lemma alike_entry_mono [mono]:
  assumes "R \<le> S"
  shows "alike_entry lower sprint h R p q \<longrightarrow> alike_entry lower sprint h S p q"
proof -
  note u = alike_under_mono [OF assms, of lower sprint h, rule_format]
  show ?thesis by (auto simp: alike_entry_def intro: u)
qed

coinductive alike :: "(string \<Rightarrow> string) \<Rightarrow> ('x rval \<Rightarrow> string) \<Rightarrow> 'h redact_handler \<Rightarrow> 'x rval \<Rightarrow> 'x rval \<Rightarrow> bool"
  for lower sprint h where
  invalid: "alike lower sprint h RInvalid RInvalid"
| nil: "alike lower sprint h RNil RNil"
| scalar: "alike lower sprint h (RScalar x) (RScalar x)"
| ref: "alike lower sprint h v w \<Longrightarrow> alike lower sprint h (RRef v) (RRef w)"
| struct: "list_all2 (alike_field lower sprint h (alike lower sprint h)) fs gs \<Longrightarrow>
    alike lower sprint h (RStruct fs) (RStruct gs)"
| map: "list_all2 (alike_entry lower sprint h (alike lower sprint h)) es gs \<Longrightarrow>
    alike lower sprint h (RMap es) (RMap gs)"
| seq: "list_all2 (alike lower sprint h) vs ws \<Longrightarrow> alike lower sprint h (RSeq vs) (RSeq ws)"

inductive_cases alike_cases:
  "alike lower sprint h RInvalid w" "alike lower sprint h RNil w" "alike lower sprint h (RScalar x) w"
  "alike lower sprint h (RRef v) w" "alike lower sprint h (RStruct fs) w"
  "alike lower sprint h (RMap es) w" "alike lower sprint h (RSeq vs) w"

text \<open>One entry of the maps \<open>sanitize\<close> builds.\<close>

definition entry :: "(string \<Rightarrow> string) \<Rightarrow> ('x rval \<Rightarrow> string) \<Rightarrow> 'h redact_handler \<Rightarrow> nat \<Rightarrow>
    string \<times> 'x rval \<Rightarrow> string \<times> 'x tree \<times> bool" where
  "entry lower sprint h depth = (\<lambda>(n, w). case rh_rules h (lower n) of
       Some r \<Rightarrow> (n, TStr (ruled h r (sprint w)), True)
     | None \<Rightarrow> (n, sanitize lower sprint h w (depth + 1)))"

lemma sanitize_eqs:
  "sanitize lower sprint h v depth =
     (if max_depth \<le> depth then (TStr unloggable, True)
      else case v of
        RInvalid \<Rightarrow> (TNil, False)
      | RNil \<Rightarrow> (TNil, False)
      | RRef w \<Rightarrow> sanitize lower sprint h w (depth + 1)
      | RStruct fs \<Rightarrow> collect (map (entry lower sprint h depth) (plan fs))
      | RMap es \<Rightarrow> collect (map (entry lower sprint h depth) es)
      | RSeq vs \<Rightarrow>
          (let rs = map (\<lambda>w. sanitize lower sprint h w (depth + 1)) vs
           in (TSeq (map fst rs), list_ex snd rs))
      | RScalar x \<Rightarrow> (TScalar x, False))"
  by (subst sanitize.simps) (simp add: entry_def split: rval.split)

text \<open>Values that are alike are written alike, and one that is left as it is has no twin.\<close>

definition determined :: "(string \<Rightarrow> string) \<Rightarrow> ('x rval \<Rightarrow> string) \<Rightarrow> 'h redact_handler \<Rightarrow> nat \<Rightarrow> 'x rval \<Rightarrow> 'x rval \<Rightarrow> bool" where
  "determined lower sprint h depth v w \<longleftrightarrow>
     sanitize lower sprint h v depth = sanitize lower sprint h w depth \<and>
     (snd (sanitize lower sprint h w depth) \<or> v = w)"

lemma entry_determined:
  assumes "alike_under lower sprint h (alike lower sprint h) n v w"
    and "\<forall>v w. alike lower sprint h v w \<longrightarrow> determined lower sprint h (depth + 1) v w"
  shows "entry lower sprint h depth (n, v) = entry lower sprint h depth (n, w) \<and>
    (snd (snd (entry lower sprint h depth (n, w))) \<or> v = w)"
  using assms by (auto simp: entry_def alike_under_def determined_def split: option.splits)

lemma list_twins:
  "list_all2 (\<lambda>x y. f x = f y \<and> (c (f y) \<or> x = y)) xs ys \<Longrightarrow>
   map f xs = map f ys \<and> (list_ex c (map f ys) \<or> xs = ys)"
  by (induction rule: list_all2_induct) auto

lemma entries_determined:
  assumes "list_all2 (alike_entry lower sprint h (alike lower sprint h)) es gs"
    and IH: "\<forall>v w. alike lower sprint h v w \<longrightarrow> determined lower sprint h (depth + 1) v w"
  shows "map (entry lower sprint h depth) es = map (entry lower sprint h depth) gs \<and>
    (list_ex (\<lambda>(n, t, c). c) (map (entry lower sprint h depth) gs) \<or> es = gs)"
proof (rule list_twins, rule list_all2_mono [OF assms(1)])
  fix e g
  assume e: "alike_entry lower sprint h (alike lower sprint h) e g"
  then obtain n v w where eg: "e = (n, v)" "g = (n, w)" by (cases e, cases g) (simp add: alike_entry_def)
  with e have "alike_under lower sprint h (alike lower sprint h) n v w" by (simp add: alike_entry_def)
  from entry_determined [OF this IH]
  show "entry lower sprint h depth e = entry lower sprint h depth g \<and>
      ((\<lambda>(n, t, c). c) (entry lower sprint h depth g) \<or> e = g)"
    unfolding eg case_prod_unfold by simp
qed

lemma fields_determined:
  assumes "list_all2 (alike_field lower sprint h (alike lower sprint h)) fs gs"
    and IH: "\<forall>v w. alike lower sprint h v w \<longrightarrow> determined lower sprint h (depth + 1) v w"
  shows "map (entry lower sprint h depth) (plan fs) = map (entry lower sprint h depth) (plan gs) \<and>
    (list_ex (\<lambda>(n, t, c). c) (map (entry lower sprint h depth) (plan gs)) \<or> fs = gs)"
  using assms(1)
proof (induction rule: list_all2_induct)
  case (Cons p fs q gs)
  obtain f v w where pq: "p = (f, v)" "q = (f, w)"
    using Cons(1) by (cases p, cases q) (simp add: alike_field_def)
  show ?case
  proof (cases "field_name f")
    case None
    with Cons(1) have "v = w" by (simp add: alike_field_def pq)
    with Cons(3) None show ?thesis by (simp add: pq)
  next
    case (Some n)
    with Cons(1) have "alike_under lower sprint h (alike lower sprint h) n v w" by (simp add: alike_field_def pq)
    from entry_determined [OF this IH] Cons(3) Some show ?thesis
      unfolding pq case_prod_unfold by auto
  qed
qed simp

lemma seq_determined:
  assumes "list_all2 (alike lower sprint h) vs ws"
    and "\<forall>v w. alike lower sprint h v w \<longrightarrow> determined lower sprint h depth v w"
  shows "map (\<lambda>w. sanitize lower sprint h w depth) vs = map (\<lambda>w. sanitize lower sprint h w depth) ws \<and>
    (list_ex snd (map (\<lambda>w. sanitize lower sprint h w depth) ws) \<or> vs = ws)"
  using assms(2) by (intro list_twins list_all2_mono [OF assms(1)]) (simp add: determined_def)

lemma sanitize_deep: "max_depth \<le> depth \<Longrightarrow> sanitize lower sprint h v depth = (TStr unloggable, True)"
  by (subst sanitize_eqs) simp

lemma sanitize_node:
  assumes "depth < max_depth"
  shows "sanitize lower sprint h RInvalid depth = (TNil, False)"
    and "sanitize lower sprint h RNil depth = (TNil, False)"
    and "sanitize lower sprint h (RScalar x) depth = (TScalar x, False)"
    and "sanitize lower sprint h (RRef w) depth = sanitize lower sprint h w (depth + 1)"
    and "sanitize lower sprint h (RStruct fs) depth = collect (map (entry lower sprint h depth) (plan fs))"
    and "sanitize lower sprint h (RMap es) depth = collect (map (entry lower sprint h depth) es)"
    and "sanitize lower sprint h (RSeq vs) depth =
      (TSeq (map fst (map (\<lambda>w. sanitize lower sprint h w (depth + 1)) vs)),
       list_ex snd (map (\<lambda>w. sanitize lower sprint h w (depth + 1)) vs))"
  by (subst sanitize_eqs, use assms in \<open>simp add: Let_def\<close>)+

lemma alike_determined: "alike lower sprint h v w \<Longrightarrow> determined lower sprint h depth v w"
proof (induction "max_depth - depth" arbitrary: depth v w)
  case 0
  then show ?case by (simp add: determined_def sanitize_deep)
next
  case (Suc k)
  then have IH: "\<forall>v w. alike lower sprint h v w \<longrightarrow> determined lower sprint h (depth + 1) v w"
    by simp
  have "depth < max_depth" using Suc(2) by linarith
  note node = sanitize_node [OF this]
  from Suc(3) show ?case
  proof cases
    case (ref v w)
    then show ?thesis using IH by (simp add: determined_def node)
  next
    case (struct fs gs)
    show ?thesis using fields_determined [OF struct(3) IH]
      unfolding determined_def struct(1,2) node collect_def by simp
  next
    case (map es gs)
    show ?thesis using entries_determined [OF map(3) IH]
      unfolding determined_def map(1,2) node collect_def by simp
  next
    case (seq vs ws)
    show ?thesis using seq_determined [OF seq(3) IH]
      unfolding determined_def seq(1,2) node by simp
  qed (simp_all add: determined_def node)
qed

definition alike_attr :: "(string \<Rightarrow> string) \<Rightarrow> ('x lval \<Rightarrow> string) \<Rightarrow> 'h redact_handler \<Rightarrow>
    ('x lval \<Rightarrow> 'x lval \<Rightarrow> bool) \<Rightarrow> string \<times> 'x lval \<Rightarrow> string \<times> 'x lval \<Rightarrow> bool" where
  "alike_attr lower sprint_value h R p q \<longleftrightarrow> fst p = fst q \<and>
     (case rh_rules h (lower (fst p)) of
        Some r \<Rightarrow> ruled_value sprint_value h r (snd p) = ruled_value sprint_value h r (snd q)
      | None \<Rightarrow> R (snd p) (snd q))"

lemma alike_attr_mono [mono]:
  assumes "R \<le> S"
  shows "alike_attr lower sprint_value h R p q \<longrightarrow> alike_attr lower sprint_value h S p q"
proof -
  note u = predicate2D [OF assms]
  show ?thesis by (auto simp: alike_attr_def split: option.splits intro: u)
qed

coinductive alike_value :: "(string \<Rightarrow> string) \<Rightarrow> ('x rval \<Rightarrow> string) \<Rightarrow> ('x lval \<Rightarrow> string) \<Rightarrow> 'h redact_handler \<Rightarrow>
    'x lval \<Rightarrow> 'x lval \<Rightarrow> bool"
  for lower sprint sprint_value h where
  string: "alike_value lower sprint sprint_value h (LString s) (LString s)"
| scalar: "alike_value lower sprint sprint_value h (LScalar x) (LScalar x)"
| panic: "alike_value lower sprint sprint_value h (LValuer None) (LValuer None)"
| valuer: "alike_value lower sprint sprint_value h v w \<Longrightarrow>
    alike_value lower sprint sprint_value h (LValuer (Some v)) (LValuer (Some w))"
| group: "list_all2 (alike_attr lower sprint_value h (alike_value lower sprint sprint_value h)) ms ns \<Longrightarrow>
    alike_value lower sprint sprint_value h (LGroup ms) (LGroup ns)"
| any: "alike lower sprint h v w \<Longrightarrow> alike_value lower sprint sprint_value h (LAny v) (LAny w)"

inductive_cases alike_value_cases:
  "alike_value lower sprint sprint_value h (LString s) w" "alike_value lower sprint sprint_value h (LScalar x) w"
  "alike_value lower sprint sprint_value h (LValuer u) w" "alike_value lower sprint sprint_value h (LGroup ms) w"
  "alike_value lower sprint sprint_value h (LAny v) w"

text \<open>Two alike values resolve alike; only when the chain has no link are they themselves compared.\<close>

lemma resolve_within_alike:
  "alike_value lower sprint sprint_value h v w \<Longrightarrow>
   rel_option (\<lambda>a b. alike_value lower sprint sprint_value h a b \<and> (a = b \<longrightarrow> v = w))
     (resolve_within n v) (resolve_within n w)"
proof (induction n arbitrary: v w)
  case (Suc n)
  from Suc.prems show ?case
  proof cases
    case (valuer v' w')
    then show ?thesis using Suc.IH [of v' w'] by simp
  qed (use Suc.prems in auto)
qed simp

lemma resolve_not_valuer: "resolve_within n v = Some rv \<Longrightarrow> rv \<noteq> LValuer u"
proof (induction n arbitrary: v)
  case (Suc n)
  then show ?case by (cases v) (auto split: option.splits)
qed simp

lemma process_deep: "max_depth \<le> depth \<Longrightarrow> process lower sprint sprint_value h k v depth = (OStr unloggable, True)"
  by (subst process.simps) simp

lemma process_ruled:
  "depth < max_depth \<Longrightarrow> rh_rules h (lower k) = Some r \<Longrightarrow>
   process lower sprint sprint_value h k v depth = (OStr (ruled_value sprint_value h r v), True)"
  by (subst process.simps) simp

lemma process_unresolved:
  "depth < max_depth \<Longrightarrow> rh_rules h (lower k) = None \<Longrightarrow> resolve v = None \<Longrightarrow>
   process lower sprint sprint_value h k v depth = (OStr unloggable, True)"
  by (subst process.simps) simp

lemma process_node:
  assumes "depth < max_depth" "rh_rules h (lower k) = None" "resolve v = Some rv"
  shows "rv = LString s \<Longrightarrow> process lower sprint sprint_value h k v depth = (Same v, False)"
    and "rv = LScalar x \<Longrightarrow> process lower sprint sprint_value h k v depth = (Same v, False)"
    and "rv = LGroup ms \<Longrightarrow> process lower sprint sprint_value h k v depth =
      (let rs = map (\<lambda>(k, m). (k, process lower sprint sprint_value h k m (depth + 1))) ms
       in if list_ex (\<lambda>(k, p, c). c) rs then (OGroup (map (\<lambda>(k, p, c). (k, p)) rs), True) else (Same v, False))"
    and "rv = LAny y \<Longrightarrow> process lower sprint sprint_value h k v depth =
      (if snd (sanitize lower sprint h y depth) then (OAny (fst (sanitize lower sprint h y depth)), True) else (Same v, False))"
  by (subst process.simps, use assms in \<open>simp add: case_prod_unfold Let_def\<close>)+

definition determined_value :: "(string \<Rightarrow> string) \<Rightarrow> ('x rval \<Rightarrow> string) \<Rightarrow> ('x lval \<Rightarrow> string) \<Rightarrow> 'h redact_handler \<Rightarrow>
    nat \<Rightarrow> string \<times> 'x lval \<Rightarrow> string \<times> 'x lval \<Rightarrow> bool" where
  "determined_value lower sprint sprint_value h depth p q \<longleftrightarrow>
     (case p of (k, v) \<Rightarrow> (k, process lower sprint sprint_value h k v depth)) =
     (case q of (k, v) \<Rightarrow> (k, process lower sprint sprint_value h k v depth)) \<and>
     ((\<lambda>(k, p, c). c) (case q of (k, v) \<Rightarrow> (k, process lower sprint sprint_value h k v depth)) \<or> p = q)"

lemma alike_value_determined:
  "alike_attr lower sprint_value h (alike_value lower sprint sprint_value h) p q \<Longrightarrow>
   determined_value lower sprint sprint_value h depth p q"
proof (induction "max_depth - depth" arbitrary: depth p q)
  case 0
  then show ?case by (cases p, cases q) (simp add: determined_value_def process_deep alike_attr_def)
next
  case (Suc j)
  have d: "depth < max_depth" using Suc(2) by linarith
  obtain k v w where pq: "p = (k, v)" "q = (k, w)"
    using Suc(3) by (cases p, cases q) (simp add: alike_attr_def)
  show ?case
  proof (cases "rh_rules h (lower k)")
    case (Some r)
    then show ?thesis using Suc(3) d
      by (simp add: pq determined_value_def alike_attr_def process_ruled)
  next
    case None
    then have a: "alike_value lower sprint sprint_value h v w" using Suc(3) by (simp add: pq alike_attr_def)
    note rel = resolve_within_alike [OF a, of max_log_values, folded resolve_def]
    show ?thesis
    proof (cases "resolve v")
      case None': None
      then have "resolve w = None" using rel by (cases "resolve w") simp_all
      with None' None d show ?thesis by (simp add: pq determined_value_def process_unresolved)
    next
      case (Some rv)
      then obtain rw where rw: "resolve w = Some rw" "alike_value lower sprint sprint_value h rv rw" "rv = rw \<longrightarrow> v = w"
        using rel by (cases "resolve w") simp_all
      note nv = process_node [of depth h lower k v rv, OF d None Some] and nw = process_node [of depth h lower k w rw, OF d None rw(1)]
      from rw(2) show ?thesis
      proof cases
        case (group ms ns)
        have "map (\<lambda>(k, m). (k, process lower sprint sprint_value h k m (depth + 1))) ms =
            map (\<lambda>(k, m). (k, process lower sprint sprint_value h k m (depth + 1))) ns \<and>
            (list_ex (\<lambda>(k, p, c). c) (map (\<lambda>(k, m). (k, process lower sprint sprint_value h k m (depth + 1))) ns) \<or> ms = ns)"
        proof (rule list_twins, rule list_all2_mono [OF group(3)])
          fix p q
          assume "alike_attr lower sprint_value h (alike_value lower sprint sprint_value h) p q"
          then have "determined_value lower sprint sprint_value h (depth + 1) p q"
            using Suc(1) [of "depth + 1" p q] Suc(2) by simp
          then show "(case p of (k, m) \<Rightarrow> (k, process lower sprint sprint_value h k m (depth + 1))) =
              (case q of (k, m) \<Rightarrow> (k, process lower sprint sprint_value h k m (depth + 1))) \<and>
              ((\<lambda>(k, p, c). c) (case q of (k, m) \<Rightarrow> (k, process lower sprint sprint_value h k m (depth + 1))) \<or> p = q)"
            by (simp add: determined_value_def)
        qed
        with rw(3) show ?thesis
          unfolding pq determined_value_def by (auto simp: nv(3) [OF group(1)] nw(3) [OF group(2)] group Let_def)
      next
        case (any x y)
        have "determined lower sprint h depth x y" by (rule alike_determined [OF any(3)])
        with rw(3) show ?thesis
          unfolding pq determined_value_def by (auto simp: nv(4) [OF any(1)] nw(4) [OF any(2)] any determined_def)
      next
        case (valuer v' w')
        then show ?thesis using resolve_not_valuer [of max_log_values v rv "Some v'"] Some by (simp add: resolve_def)
      next
        case panic
        then show ?thesis using resolve_not_valuer [of max_log_values v rv "None"] Some by (simp add: resolve_def)
      qed (use rw(3) in \<open>simp_all add: pq determined_value_def nv nw\<close>)
    qed
  qed
qed

section \<open>The configured rules\<close>

lemma fold_redact:
  "fold (\<lambda>k m. m(lower k \<mapsto> Redact)) ks m x = (if x \<in> lower ` set ks then Some Redact else m x)"
  by (induction ks arbitrary: m) auto

lemma fold_masked:
  "m x \<noteq> Some Redact \<Longrightarrow> fold (\<lambda>(k, mk) m. m(lower k \<mapsto> Masked mk)) ms m x \<noteq> Some Redact"
proof (induction ms arbitrary: m)
  case (Cons p ms)
  have "(m(lower (fst p) \<mapsto> Masked (snd p))) x \<noteq> Some Redact" using Cons.prems by simp
  from Cons.IH [of "m(lower (fst p) \<mapsto> Masked (snd p))", OF this] show ?case by (simp add: case_prod_unfold)
qed simp

lemma rules_redacted:
  "redact_rules lower r x = Some Redact \<longleftrightarrow> x \<in> lower ` set (rc_redacted r)"
  using fold_masked [of Map.empty x lower "rc_masked r"] by (simp add: redact_rules_def fold_redact)

section \<open>Enrichment\<close>

lemma enrich_alike:
  assumes "list_all2 (alike_attr lower sprint_value h R) rec rec'" "list_all2 (alike_attr lower sprint_value h R) attrs attrs'"
  shows "list_all2 (alike_attr lower sprint_value h R) (enrich rec attrs) (enrich rec' attrs')"
proof -
  have keys: "list_ex (\<lambda>e. fst e = k) rec' \<longleftrightarrow> list_ex (\<lambda>e. fst e = k) rec" for k
    using assms(1) by (induction rule: list_all2_induct) (auto simp: alike_attr_def)
  have "list_all2 (alike_attr lower sprint_value h R)
      (filter (\<lambda>(k, v). \<not> list_ex (\<lambda>(k', v'). k' = k) rec) attrs)
      (filter (\<lambda>(k, v). \<not> list_ex (\<lambda>(k', v'). k' = k) rec') attrs')"
    unfolding case_prod_unfold keys using assms(2)
  proof (induction rule: list_all2_induct)
    case (Cons p ps q qs)
    then have "fst p = fst q" by (simp add: alike_attr_def)
    with Cons show ?case by simp
  qed simp
  with assms(1) show ?thesis unfolding enrich_def by (rule list_all2_appendI)
qed

lemma redact_attrs_alike:
  assumes "list_all2 (alike_attr lower sprint_value h (alike_value lower sprint sprint_value h)) as bs"
  shows "redact_attrs lower sprint sprint_value h as = redact_attrs lower sprint sprint_value h bs"
    and "map (\<lambda>(k, v). (k, process lower sprint sprint_value h k v 0)) as =
      map (\<lambda>(k, v). (k, process lower sprint sprint_value h k v 0)) bs"
proof -
  let ?p = "\<lambda>(k, v). (k, process lower sprint sprint_value h k v 0)"
  have t: "map ?p as = map ?p bs \<and> (list_ex (\<lambda>(k, p, c). c) (map ?p bs) \<or> as = bs)"
    by (intro list_twins list_all2_mono [OF assms] alike_value_determined [unfolded determined_value_def])
  then show "map ?p as = map ?p bs" by simp
  show "redact_attrs lower sprint sprint_value h as = redact_attrs lower sprint sprint_value h bs"
    unfolding redact_attrs_def Let_def using t by auto
qed


text \<open>A user with a password behind a pointer, and a token in the context.\<close>

definition sample_user :: "string \<Rightarrow> int rval" where
  "sample_user pw = RRef (RStruct
     [(\<lparr>sf_name = ''Name'', sf_exported = True, sf_json = Some ''name''\<rparr>, RScalar 7),
      (\<lparr>sf_name = ''Password'', sf_exported = True, sf_json = Some ''password,omitempty''\<rparr>, RMap [(pw, RNil)])])"


section \<open>Records that pass untouched\<close>

text \<open>No rule applies within \<open>n\<close> levels, and the value has no more than \<open>n\<close> levels.\<close>

primrec plain :: "(string \<Rightarrow> string) \<Rightarrow> 'h redact_handler \<Rightarrow> nat \<Rightarrow> 'x rval \<Rightarrow> bool" where
  "plain lower h 0 v = False"
| "plain lower h (Suc n) v =
     (case v of
        RRef w \<Rightarrow> plain lower h n w
      | RStruct fs \<Rightarrow> list_all (\<lambda>(k, w). rh_rules h (lower k) = None \<and> plain lower h n w) (plan fs)
      | RMap es \<Rightarrow> list_all (\<lambda>(k, w). rh_rules h (lower k) = None \<and> plain lower h n w) es
      | RSeq vs \<Rightarrow> list_all (plain lower h n) vs
      | _ \<Rightarrow> True)"

primrec plain_attr :: "(string \<Rightarrow> string) \<Rightarrow> 'h redact_handler \<Rightarrow> nat \<Rightarrow> string \<times> 'x lval \<Rightarrow> bool" where
  "plain_attr lower h 0 a = False"
| "plain_attr lower h (Suc n) a =
     (rh_rules h (lower (fst a)) = None \<and>
      (case resolve (snd a) of
         None \<Rightarrow> False
       | Some (LGroup ms) \<Rightarrow> list_all (plain_attr lower h n) ms
       | Some (LAny v) \<Rightarrow> plain lower h (Suc n) v
       | Some _ \<Rightarrow> True))"

lemma entry_changed:
  "snd (snd (entry lower sprint h depth p)) \<longleftrightarrow>
   \<not> (rh_rules h (lower (fst p)) = None \<and> \<not> snd (sanitize lower sprint h (snd p) (depth + 1)))"
  by (cases p) (auto simp: entry_def split: option.splits)

lemma entries_changed:
  "list_ex (\<lambda>(n, t, c). c) (map (entry lower sprint h depth) es) \<longleftrightarrow>
   \<not> list_all (\<lambda>(k, w). rh_rules h (lower k) = None \<and> \<not> snd (sanitize lower sprint h w (depth + 1))) es"
  by (induction es) (simp_all add: entry_changed case_prod_unfold)

lemma seq_changed: "list_ex snd (map f vs) \<longleftrightarrow> \<not> list_all (\<lambda>w. \<not> snd (f w)) vs"
  by (induction vs) simp_all

lemma sanitize_changed:
  "n \<le> max_depth \<Longrightarrow> snd (sanitize lower sprint h v (max_depth - n)) \<longleftrightarrow> \<not> plain lower h n v"
proof (induction n arbitrary: v)
  case (Suc n)
  have d: "max_depth - Suc n < max_depth" "max_depth - Suc n + 1 = max_depth - n" using Suc.prems by linarith+
  note IH = Suc.IH [OF Suc_leD [OF Suc.prems]]
  show ?case
    by (cases v) (simp_all only: sanitize_node [OF d(1)] collect_def snd_conv entries_changed seq_changed d(2) IH
        plain.simps rval.case not_not simp_thms)
qed (simp add: sanitize_deep)

text \<open>The same for an attribute, with what the code returns for it.\<close>

lemma process_changed:
  "n \<le> max_depth \<Longrightarrow>
   snd (process lower sprint sprint_value h k v (max_depth - n)) = (\<not> plain_attr lower h n (k, v)) \<and>
   (plain_attr lower h n (k, v) \<longrightarrow> fst (process lower sprint sprint_value h k v (max_depth - n)) = Same v) \<and>
   (\<not> plain_attr lower h n (k, v) \<longrightarrow> (\<forall>u. fst (process lower sprint sprint_value h k v (max_depth - n)) \<noteq> Same u))"
proof (induction n arbitrary: k v)
  case (Suc n)
  have d: "max_depth - Suc n < max_depth" "max_depth - Suc n + 1 = max_depth - n" using Suc.prems by linarith+
  have IH: "snd (process lower sprint sprint_value h k v (max_depth - n)) = (\<not> plain_attr lower h n (k, v))" for k v
    using Suc.IH Suc.prems by simp
  note S = sanitize_changed [OF Suc.prems]
  show ?case
  proof (cases "rh_rules h (lower k)")
    case (Some r)
    then show ?thesis by (simp add: process_ruled [OF d(1)])
  next
    case None
    show ?thesis
    proof (cases "resolve v")
      case None': None
      with None show ?thesis by (simp add: process_unresolved [OF d(1)])
    next
      case (Some rv)
      note node = process_node [of "max_depth - Suc n" h lower k v rv, OF d(1) None Some]
      show ?thesis
      proof (cases rv)
        case (LGroup ms)
        have "list_ex (\<lambda>(k, p, c). c) (map (\<lambda>(k, m). (k, process lower sprint sprint_value h k m (max_depth - n))) ms)
            \<longleftrightarrow> \<not> list_all (plain_attr lower h n) ms"
          by (induction ms) (simp_all add: IH case_prod_unfold)
        then show ?thesis
          using None Some LGroup unfolding node(3) [OF LGroup] d(2) Let_def by simp
      next
        case (LAny y)
        then show ?thesis
          using None Some S [of lower _ h y] unfolding node(4) [OF LAny] by simp
      next
        case (LValuer u)
        then show ?thesis using resolve_not_valuer [of max_log_values v rv u] Some by (simp add: resolve_def)
      qed (use None Some node in simp_all)
    qed
  qed
qed (simp add: process_deep)

section \<open>The size of what is written\<close>

fun tree_height :: "'x tree \<Rightarrow> nat" where
  "tree_height (TMap es) = Suc (fold max (map (\<lambda>(k, t). tree_height t) es) 0)"
| "tree_height (TSeq ts) = Suc (fold max (map tree_height ts) 0)"
| "tree_height _ = 1"

fun out_height :: "'x out \<Rightarrow> nat" where
  "out_height (OGroup es) = Suc (fold max (map (\<lambda>(k, t). out_height t) es) 0)"
| "out_height (OAny t) = tree_height t"
| "out_height _ = 1"

lemma fold_max_le: "fold max ns m \<le> b \<longleftrightarrow> m \<le> b \<and> (\<forall>n\<in>set ns. n \<le> (b :: nat))"
  by (induction ns arbitrary: m) auto

lemma update_values: "e \<in> set (AList.update k t m) \<Longrightarrow> e = (k, t) \<or> e \<in> set m"
  by (induction m) (auto split: if_splits)

lemma collect_values:
  "e \<in> set (fold (\<lambda>(n, t, c). AList.update n t) es m) \<Longrightarrow> snd e \<in> (\<lambda>p. fst (snd p)) ` set es \<or> e \<in> set m"
proof (induction es arbitrary: m)
  case (Cons x es)
  obtain n t c where [simp]: "x = (n, t, c)" by (cases x)
  from Cons.prems have "e \<in> set (fold (\<lambda>(n, t, c). AList.update n t) es (AList.update n t m))" by simp
  from Cons.IH [OF this] show ?case by (auto dest!: update_values)
qed simp

lemma collect_height:
  "(\<And>p. p \<in> set es \<Longrightarrow> tree_height (fst (snd p)) \<le> b) \<Longrightarrow> tree_height (fst (collect es)) \<le> Suc b"
  by (fastforce simp: collect_def fold_max_le dest!: collect_values)

lemma sanitize_height: "n \<le> max_depth \<Longrightarrow> tree_height (fst (sanitize lower sprint h v (max_depth - n))) \<le> Suc n"
proof (induction n arbitrary: v)
  case (Suc n)
  have d: "max_depth - Suc n < max_depth" "max_depth - Suc n + 1 = max_depth - n" using Suc.prems by linarith+
  note IH = Suc.IH [OF Suc_leD [OF Suc.prems]]
  have e: "tree_height (fst (snd (entry lower sprint h (max_depth - Suc n) p))) \<le> Suc n" for p
    by (cases p) (simp only: entry_def d(2) prod.case, simp add: IH split: option.split)
  then have c: "tree_height (fst (collect (map (entry lower sprint h (max_depth - Suc n)) es))) \<le> Suc (Suc n)" for es
    by (intro collect_height) auto
  show ?case
    by (cases v) (simp_all only: sanitize_node [OF d(1)] d(2),
        simp_all add: c fold_max_le IH le_SucI)
qed (simp add: sanitize_deep)

lemma process_height: "n \<le> max_depth \<Longrightarrow> out_height (fst (process lower sprint sprint_value h k v (max_depth - n))) \<le> Suc n"
proof (induction n arbitrary: k v)
  case (Suc n)
  have d: "max_depth - Suc n < max_depth" "max_depth - Suc n + 1 = max_depth - n" using Suc.prems by linarith+
  note IH = Suc.IH [OF Suc_leD [OF Suc.prems]]
  show ?case
  proof (cases "rh_rules h (lower k)")
    case (Some r)
    then show ?thesis by (simp add: process_ruled [OF d(1)])
  next
    case None
    show ?thesis
    proof (cases "resolve v")
      case None': None
      with None show ?thesis by (simp add: process_unresolved [OF d(1)])
    next
      case (Some rv)
      note node = process_node [of "max_depth - Suc n" h lower k v rv, OF d(1) None Some]
      show ?thesis
      proof (cases rv)
        case (LGroup ms)
        then show ?thesis unfolding node(3) [OF LGroup] d(2) Let_def
          by (auto simp: fold_max_le IH case_prod_unfold)
      next
        case (LAny y)
        then show ?thesis using sanitize_height [OF Suc.prems, of lower sprint h y] unfolding node(4) [OF LAny] by simp
      next
        case (LValuer u)
        then show ?thesis using resolve_not_valuer [of max_log_values v rv u] Some by (simp add: resolve_def)
      qed (use node in simp_all)
    qed
  qed
qed (simp add: process_deep)


text \<open>A pointer that points to itself.\<close>

primcorec cycle :: "'x rval" where
  "cycle = RRef cycle"


section \<open>Blind spots\<close>

text \<open>
  The plan of a struct lists its direct exported fields. An embedded struct of an unexported type
  is no such field, although \<^verbatim>\<open>encoding/json\<close> writes the exported fields it promotes: whatever is
  in it, the attribute passes as it came. And a value without exported fields, such as a
  \<^verbatim>\<open>time.Time\<close>, becomes an empty map as soon as a sibling is redacted.
\<close>

lemma embedded_passes:
  assumes "rh_rules h (lower k) = None" "\<not> sf_exported f"
  shows "plain_attr lower h 16 (k, LAny (RStruct [(f, credentials)]))"
  using assms by (simp add: numeral_eq_Suc resolve_def max_log_values_def field_name_def)

lemma sibling_emptied:
  assumes "list_all (\<lambda>(f, v). \<not> sf_exported f) time" "rh_rules h = [''password'' \<mapsto> Redact]"
  shows "sanitize (\<lambda>s. s) sprint h
      (RStruct [(\<lparr>sf_name = ''password'', sf_exported = True, sf_json = None\<rparr>, pw),
                (\<lparr>sf_name = ''created'', sf_exported = True, sf_json = None\<rparr>, RStruct time)]) 0
    = (TMap [(''password'', TStr (rh_replacement h)), (''created'', TMap [])], True)"
proof -
  have "plan time = []" using assms(1) by (induction time) (auto simp: field_name_def)
  then show ?thesis
    by (simp add: sanitize_node max_depth_def field_name_def entry_def assms(2) ruled_def collect_def)
qed

section \<open>The logger\<close>

definition level_debug :: int where "level_debug = - 4"
definition level_info :: int where "level_info = 0"
definition level_warn :: int where "level_warn = 4"
definition level_error :: int where "level_error = 8"
definition level_panic :: int where "level_panic = 12"

definition parse_level :: "(string \<Rightarrow> string) \<Rightarrow> string \<Rightarrow> int" where
  "parse_level lower s =
     (let l = lower s in
      if l = ''debug'' then level_debug else if l = ''warn'' then level_warn
      else if l = ''error'' then level_error else if l = ''panic'' then level_panic else level_info)"

definition rename_level :: "string list \<Rightarrow> string \<times> int option \<Rightarrow> string option" where
  \<comment> \<open>the attribute's level when it holds one; \<open>None\<close> leaves the attribute as it is\<close>
  "rename_level groups a =
     (if groups = [] \<and> fst a = ''level'' then
        (case snd a of Some l \<Rightarrow> if level_panic \<le> l then Some ''PANIC'' else None | None \<Rightarrow> None)
      else None)"

definition split_handle :: "('a \<Rightarrow> 'r) \<Rightarrow> ('a \<Rightarrow> 'r) \<Rightarrow> int \<Rightarrow> 'a \<Rightarrow> 'r" where
  \<comment> \<open>\<open>fast\<close> and \<open>rename\<close> are the two JSON handlers, on a record at a level\<close>
  "split_handle fast rename level rec = (if level_panic \<le> level then rename rec else fast rec)"

record log_config =
  lc_env :: string
  lc_version :: string
  lc_app :: string
  lc_protocol :: string
  lc_redact :: redact_config

definition base_attrs :: "log_config \<Rightarrow> (string \<times> 'x lval) list" where
  "base_attrs cfg =
     map (\<lambda>(k, v). (k, LString v))
       (filter (\<lambda>(k, v). v \<noteq> [])
         [(''env'', lc_env cfg), (''version'', lc_version cfg), (''app'', lc_app cfg), (''protocol'', lc_protocol cfg)])"

definition new_logger :: "(string \<Rightarrow> string) \<Rightarrow> ('x rval \<Rightarrow> string) \<Rightarrow> ('x lval \<Rightarrow> string) \<Rightarrow>
    ('h \<Rightarrow> (string \<times> 'x out) list \<Rightarrow> 'h) \<Rightarrow> 'h \<Rightarrow> log_config \<Rightarrow> 'h + 'h redact_handler" where
  \<comment> \<open>the handler below the enrichment, with the base fields bound\<close>
  "new_logger lower sprint sprint_value with_attrs json cfg =
     (let base = base_attrs cfg in
      case wrap_redact lower json (lc_redact cfg) of
        Inl h \<Rightarrow> Inl (if base = [] then h else with_attrs h (map (\<lambda>(k, v). (k, Same v)) base))
      | Inr rh \<Rightarrow> Inr (if base = [] then rh else redact_with_attrs lower sprint sprint_value with_attrs rh base))"

text \<open>Base fields pass through redaction: a rule for \<^verbatim>\<open>app\<close> hides the application name.\<close>

lemma base_fields_redacted:
  assumes "lower ''app'' \<in> lower ` set (rc_redacted (lc_redact cfg))" "lc_app cfg \<noteq> []" "lc_env cfg = []"
    "lc_version cfg = []" "lc_protocol cfg = []" "rc_replacement (lc_redact cfg) = []"
  shows "new_logger lower sprint sprint_value (\<lambda>h as. h @ as) [] cfg =
    Inr \<lparr>rh_inner = [(''app'', OStr default_replacement)], rh_rules = redact_rules lower (lc_redact cfg),
         rh_replacement = default_replacement\<rparr>"
proof -
  have "redact_rules lower (lc_redact cfg) (lower ''app'') = Some Redact" using assms(1) by (simp add: rules_redacted)
  then show ?thesis using assms
    by (auto simp: new_logger_def wrap_redact_def base_attrs_def redact_with_attrs_def process_ruled max_depth_def
        ruled_value_def)
qed

text \<open>The methods of \<^verbatim>\<open>Logger\<close>: what they hand to the handler below, which is enabled from a minimum level on.\<close>

definition log_at :: "(int \<Rightarrow> string \<Rightarrow> 'a \<Rightarrow> 'r) \<Rightarrow> int \<Rightarrow> int \<Rightarrow> string \<Rightarrow> 'a \<Rightarrow> 'r list" where
  "log_at handle minimum level msg args = (if minimum \<le> level then [handle level msg args] else [])"

definition log_debug where "log_debug handle minimum = log_at handle minimum level_debug"
definition log_info where "log_info handle minimum = log_at handle minimum level_info"
definition log_warn where "log_warn handle minimum = log_at handle minimum level_warn"
definition log_error where "log_error handle minimum = log_at handle minimum level_error"

definition log_panic :: "(int \<Rightarrow> string \<Rightarrow> 'a \<Rightarrow> 'r) \<Rightarrow> int \<Rightarrow> string \<Rightarrow> 'a \<Rightarrow> 'r list \<times> string" where
  \<comment> \<open>the records written, and the value of the panic that follows\<close>
  "log_panic handle minimum msg args = (log_at handle minimum level_panic msg args, msg)"

definition logger_with :: "(string \<Rightarrow> string) \<Rightarrow> ('x rval \<Rightarrow> string) \<Rightarrow> ('x lval \<Rightarrow> string) \<Rightarrow>
    ('h \<Rightarrow> (string \<times> 'x out) list \<Rightarrow> 'h) \<Rightarrow> 'h + 'h redact_handler \<Rightarrow> (string \<times> 'x lval) list \<Rightarrow> 'h + 'h redact_handler" where
  "logger_with lower sprint sprint_value with_attrs l args =
     (if args = [] then l
      else case l of
        Inl h \<Rightarrow> Inl (with_attrs h (map (\<lambda>(k, v). (k, Same v)) args))
      | Inr rh \<Rightarrow> Inr (redact_with_attrs lower sprint sprint_value with_attrs rh args))"

text \<open>\<^verbatim>\<open>New\<close> binds its base fields as \<^verbatim>\<open>With\<close> binds any others, so they pass through redaction too.\<close>

lemma new_logger_with:
  "new_logger lower sprint sprint_value with_attrs json cfg =
    logger_with lower sprint sprint_value with_attrs (wrap_redact lower json (lc_redact cfg)) (base_attrs cfg)"
  by (simp add: new_logger_def logger_with_def Let_def split: sum.split)

text \<open>The record of a panic goes to the handler that renames its level, whatever level is set up to that one.\<close>

lemma panic_renamed:
  "minimum \<le> level_panic \<Longrightarrow>
    log_panic (\<lambda>level msg args. split_handle fast rename level (msg, args)) minimum msg args = ([rename (msg, args)], msg)"
  by (simp add: log_panic_def log_at_def split_handle_def)

section \<open>Derived handlers\<close>

text \<open>
  \<^verbatim>\<open>WithAttrs\<close> and \<^verbatim>\<open>WithGroup\<close> of the handlers around the JSON handler: the enrichment and the split by level. The inner
  handler's own operations are arguments.
\<close>

record ('h, 'c, 'a) ctx_handler =
  cx_inner :: 'h
  cx_fn :: "'c \<Rightarrow> 'a list"

definition wrap_context :: "'h \<Rightarrow> ('c \<Rightarrow> 'a list) option \<Rightarrow> 'h + ('h, 'c, 'a) ctx_handler" where
  "wrap_context h fn = (case fn of None \<Rightarrow> Inl h | Some f \<Rightarrow> Inr \<lparr>cx_inner = h, cx_fn = f\<rparr>)"

definition ctx_enabled :: "('h \<Rightarrow> int \<Rightarrow> bool) \<Rightarrow> ('h, 'c, 'a) ctx_handler \<Rightarrow> int \<Rightarrow> bool" where
  "ctx_enabled enabled h level = enabled (cx_inner h) level"

definition ctx_handle :: "('h \<Rightarrow> (string \<times> 'v) list \<Rightarrow> 'r) \<Rightarrow> ('h, 'c, string \<times> 'v) ctx_handler \<Rightarrow> 'c \<Rightarrow> (string \<times> 'v) list \<Rightarrow> 'r" where
  "ctx_handle handle h ctx rec = handle (cx_inner h) (enrich rec (cx_fn h ctx))"

definition ctx_with_attrs :: "('h \<Rightarrow> 'b \<Rightarrow> 'h) \<Rightarrow> ('h, 'c, 'a) ctx_handler \<Rightarrow> 'b \<Rightarrow> ('h, 'c, 'a) ctx_handler" where
  "ctx_with_attrs with_attrs h attrs = \<lparr>cx_inner = with_attrs (cx_inner h) attrs, cx_fn = cx_fn h\<rparr>"

definition ctx_with_group :: "('h \<Rightarrow> string \<Rightarrow> 'h) \<Rightarrow> ('h, 'c, 'a) ctx_handler \<Rightarrow> string \<Rightarrow> ('h, 'c, 'a) ctx_handler" where
  "ctx_with_group with_group h name = \<lparr>cx_inner = with_group (cx_inner h) name, cx_fn = cx_fn h\<rparr>"

record 'j split_handler =
  sp_fast :: 'j
  sp_rename :: 'j

definition split_with_attrs :: "('j \<Rightarrow> 'b \<Rightarrow> 'j) \<Rightarrow> 'j split_handler \<Rightarrow> 'b \<Rightarrow> 'j split_handler" where
  "split_with_attrs with_attrs h attrs =
     \<lparr>sp_fast = with_attrs (sp_fast h) attrs, sp_rename = with_attrs (sp_rename h) attrs\<rparr>"

definition split_with_group :: "('j \<Rightarrow> string \<Rightarrow> 'j) \<Rightarrow> 'j split_handler \<Rightarrow> string \<Rightarrow> 'j split_handler" where
  "split_with_group with_group h name =
     \<lparr>sp_fast = with_group (sp_fast h) name, sp_rename = with_group (sp_rename h) name\<rparr>"

text \<open>
  The two JSON handlers of a derived logger never drift apart: when each line they write is the same up to a
  function (the renaming of the level) before, it still is after any sequence of bindings and groups.
\<close>

datatype 'b derivation = Bind_Attrs 'b | Open_Group string

fun split_derive :: "('j \<Rightarrow> 'b \<Rightarrow> 'j) \<Rightarrow> ('j \<Rightarrow> string \<Rightarrow> 'j) \<Rightarrow> 'b derivation \<Rightarrow> 'j split_handler \<Rightarrow> 'j split_handler" where
  "split_derive with_attrs with_group (Bind_Attrs attrs) h = split_with_attrs with_attrs h attrs"
| "split_derive with_attrs with_group (Open_Group name) h = split_with_group with_group h name"

lemma split_in_step:
  assumes "\<And>j attrs. rename (with_attrs j attrs) = with_attrs (rename j) attrs"
    "\<And>j name. rename (with_group j name) = with_group (rename j) name" "sp_rename h = rename (sp_fast h)"
  shows "sp_rename (fold (split_derive with_attrs with_group) ds h) = rename (sp_fast (fold (split_derive with_attrs with_group) ds h))"
  using assms(3)
proof (induction ds arbitrary: h)
  case (Cons d ds)
  have "sp_rename (split_derive with_attrs with_group d h) = rename (sp_fast (split_derive with_attrs with_group d h))"
    using Cons.prems assms(1,2) by (cases d) (simp_all add: split_with_attrs_def split_with_group_def)
  then show ?case by (simp add: Cons.IH)
qed simp

text \<open>
  Attributes bound with \<^verbatim>\<open>With\<close> live in the inner handler, so they do not keep the context's attribute of the same key
  from being appended; the enrichment itself outlives every derivation.
\<close>

lemma derived_still_enriched:
  "ctx_handle handle (ctx_with_attrs with_attrs h attrs) ctx rec = handle (with_attrs (cx_inner h) attrs) (enrich rec (cx_fn h ctx))"
  by (simp add: ctx_handle_def ctx_with_attrs_def)

lemma bound_key_repeated:
  "ctx_handle (\<lambda>inner rec. inner @ rec) (ctx_with_attrs (\<lambda>inner bs. inner @ bs) \<lparr>cx_inner = [], cx_fn = (\<lambda>_. [(k, w)])\<rparr> [(k, v)]) ctx []
    = [(k, v), (k, w)]"
  by (simp add: ctx_handle_def ctx_with_attrs_def enrich_def)

end
