(* ===== verification/Ssh.thy ===== *)
theory Ssh
  imports GoStrings GoRunes
begin

text \<open>
  SSH connections, \<^verbatim>\<open>src/x/sshx\<close>: the errors and their chains (\<^verbatim>\<open>client.go\<close>, \<^verbatim>\<open>pool.go\<close>), dialing with
  its stages, running a command (\<^verbatim>\<open>exec.go\<close>), host-key verification (\<^verbatim>\<open>hostkey.go\<close>) and key
  generation and loading (\<^verbatim>\<open>keys/\<close>). The packages of \<^verbatim>\<open>golang.org/x/crypto\<close> are arguments.
\<close>

section \<open>Errors\<close>

datatype ssh_err =
    Host_Key_Required | Auth_Required | Err_Closed | Not_Ready
  | Ctx_Canceled | Ctx_Deadline
  | Exit_Error int | Exit_Missing
  | Unknown_Host_Key string string string | Host_Key_Mismatch string string string
  | Dial_Error string string ssh_err | Join ssh_err ssh_err
  | Other_Error string

definition stage_network :: string where "stage_network = ''network''"
definition stage_hostkey :: string where "stage_hostkey = ''hostkey''"
definition stage_handshake :: string where "stage_handshake = ''handshake''"

text \<open>\<open>err_find p e\<close> is the first error of the chain \<open>p\<close> holds of, the walk of \<^verbatim>\<open>errors.Is\<close> and \<^verbatim>\<open>errors.As\<close>.\<close>

fun err_find :: "(ssh_err \<Rightarrow> bool) \<Rightarrow> ssh_err \<Rightarrow> ssh_err option" where
  "err_find p e =
     (if p e then Some e
      else case e of
        Dial_Error stage addr e' \<Rightarrow> err_find p e'
      | Join a b \<Rightarrow> (case err_find p a of Some x \<Rightarrow> Some x | None \<Rightarrow> err_find p b)
      | _ \<Rightarrow> None)"

declare err_find.simps [simp del]

definition err_has :: "(ssh_err \<Rightarrow> bool) \<Rightarrow> ssh_err \<Rightarrow> bool" where
  "err_has p e \<longleftrightarrow> err_find p e \<noteq> None"

definition is_exit :: "ssh_err \<Rightarrow> bool" where
  "is_exit e \<longleftrightarrow> (case e of Exit_Error n \<Rightarrow> True | _ \<Rightarrow> False)"

definition is_dial_error :: "ssh_err \<Rightarrow> bool" where
  "is_dial_error e \<longleftrightarrow> (case e of Dial_Error s a x \<Rightarrow> True | _ \<Rightarrow> False)"

definition is_unknown_host :: "ssh_err \<Rightarrow> bool" where
  "is_unknown_host e \<longleftrightarrow> (case e of Unknown_Host_Key h t f \<Rightarrow> True | _ \<Rightarrow> False)"

definition fatal_conn_err :: "ssh_err option \<Rightarrow> bool" where
  "fatal_conn_err err =
     (case err of
        None \<Rightarrow> False
      | Some e \<Rightarrow>
          if err_has is_exit e \<or> err_has (\<lambda>x. x = Exit_Missing) e then False
          else \<not> err_has (\<lambda>x. x = Ctx_Canceled) e \<and> \<not> err_has (\<lambda>x. x = Ctx_Deadline) e)"

definition is_auth_failure :: "(ssh_err \<Rightarrow> string) \<Rightarrow> ssh_err option \<Rightarrow> bool" where
  \<comment> \<open>\<open>text\<close> is the message of an error\<close>
  "is_auth_failure text err =
     (case err of
        None \<Rightarrow> False
      | Some e \<Rightarrow>
          (case err_find is_dial_error e of
             Some (Dial_Error stage addr e') \<Rightarrow>
               stage = stage_handshake \<and> contains (text e') ''unable to authenticate''
           | _ \<Rightarrow> contains (text e) ''unable to authenticate''))"

section \<open>Dialing\<close>

text \<open>
  The handshake is an argument: given the callback, it yields the keys it presented to the
  callback and its outcome.
\<close>

definition recorded :: "('k \<Rightarrow> ssh_err option) \<Rightarrow> 'k list \<Rightarrow> ssh_err option" where
  \<comment> \<open>\<^verbatim>\<open>hostKeyRecorder\<close>: the last error the policy returned\<close>
  "recorded cb keys = fold (\<lambda>k r. case cb k of Some e \<Rightarrow> Some e | None \<Rightarrow> r) keys None"

definition dial_conn :: "('k \<Rightarrow> ssh_err option) option \<Rightarrow> 'a list \<Rightarrow> string \<Rightarrow> ssh_err option \<Rightarrow>
    (('k \<Rightarrow> ssh_err option) \<Rightarrow> 'k list \<times> (ssh_err + 'c)) \<Rightarrow> ssh_err option \<Rightarrow> ssh_err + 'c" where
  \<comment> \<open>arguments: host-key policy, auth methods, address, TCP error, handshake, \<^verbatim>\<open>ctx.Err()\<close> after it\<close>
  "dial_conn host_key auth addr tcp handshake ctx_err =
     (case host_key of
        None \<Rightarrow> Inl Host_Key_Required
      | Some cb \<Rightarrow>
          if auth = [] then Inl Auth_Required
          else case tcp of
            Some e \<Rightarrow> Inl (Dial_Error stage_network addr e)
          | None \<Rightarrow>
              (case handshake cb of
                 (keys, Inr c) \<Rightarrow> Inr c
               | (keys, Inl e) \<Rightarrow>
                   (case recorded cb keys of
                      Some hk \<Rightarrow> Inl (Dial_Error stage_hostkey addr hk)
                    | None \<Rightarrow> Inl (Dial_Error stage_handshake addr
                        (case ctx_err of Some ce \<Rightarrow> Join e ce | None \<Rightarrow> e)))))"

section \<open>Commands\<close>

record result =
  rs_stdout :: string
  rs_stderr :: string
  rs_exit_code :: int

definition exit_code :: "ssh_err option \<Rightarrow> int" where
  "exit_code err =
     (case err of
        None \<Rightarrow> 0
      | Some e \<Rightarrow> (case err_find is_exit e of Some (Exit_Error n) \<Rightarrow> n | _ \<Rightarrow> - 1))"

datatype wait_outcome = Finished "ssh_err option" | Ctx_Done ssh_err

definition run_command :: "bool \<Rightarrow> ssh_err option \<Rightarrow> ssh_err option \<Rightarrow> wait_outcome \<Rightarrow> ssh_err option" where
  \<comment> \<open>arguments: the client is closed; the errors of \<^verbatim>\<open>NewSession\<close> and \<^verbatim>\<open>Start\<close>; which case of the \<^verbatim>\<open>select\<close> is taken\<close>
  "run_command closed new_session start wait =
     (if closed then Some Err_Closed
      else case new_session of
        Some e \<Rightarrow> Some e
      | None \<Rightarrow> (case start of
          Some e \<Rightarrow> Some e
        | None \<Rightarrow> (case wait of Finished e \<Rightarrow> e | Ctx_Done e \<Rightarrow> Some e)))"

definition command_output :: "string \<Rightarrow> string \<Rightarrow> ssh_err option \<Rightarrow> result \<times> ssh_err option" where
  \<comment> \<open>what the two buffers hold when \<open>run_command\<close> returned \<open>err\<close>\<close>
  "command_output stdout stderr err = (\<lparr>rs_stdout = stdout, rs_stderr = stderr, rs_exit_code = exit_code err\<rparr>, err)"

lemma exit_code_zero: "exit_code err = 0 \<longleftrightarrow> err = None \<or> (\<exists>e. err = Some e \<and> err_find is_exit e = Some (Exit_Error 0))"
  by (auto simp: exit_code_def split: option.splits ssh_err.splits)

lemma fatal_not_exit: "fatal_conn_err err \<Longrightarrow> exit_code err = - 1"
proof -
  assume "fatal_conn_err err"
  then obtain e where "err = Some e" "err_find is_exit e = None"
    by (auto simp: fatal_conn_err_def err_has_def split: option.splits if_splits)
  then show ?thesis by (simp add: exit_code_def)
qed

section \<open>Host keys\<close>

datatype 'k kh_result = KH_Ok | KH_Key_Error "'k list" | KH_Other ssh_err

type_synonym 'k kh_verifier = "string \<Rightarrow> string option \<Rightarrow> 'k \<Rightarrow> 'k kh_result"

text \<open>The parts of \<^verbatim>\<open>knownhosts\<close> and \<^verbatim>\<open>ssh\<close> the code calls.\<close>

record 'k known_hosts_ops =
  kh_parse :: "string \<Rightarrow> ssh_err + 'k kh_verifier"  \<comment> \<open>\<^verbatim>\<open>knownhosts.New\<close> on the file's content\<close>
  kh_normalize :: "string \<Rightarrow> string"
  kh_line :: "string list \<Rightarrow> 'k \<Rightarrow> string"
  kh_key_type :: "'k \<Rightarrow> string"
  kh_fingerprint :: "'k \<Rightarrow> string"

definition classify_known_hosts :: "'k known_hosts_ops \<Rightarrow> 'k kh_result \<Rightarrow> string \<Rightarrow> 'k \<Rightarrow> ssh_err option" where
  "classify_known_hosts kh r hostname key =
     (case r of
        KH_Ok \<Rightarrow> None
      | KH_Other e \<Rightarrow> Some e
      | KH_Key_Error want \<Rightarrow>
          if want = [] then Some (Unknown_Host_Key hostname (kh_key_type kh key) (kh_fingerprint kh key))
          else Some (Host_Key_Mismatch hostname (kh_key_type kh key) (kh_fingerprint kh key)))"

definition strict_check :: "'k known_hosts_ops \<Rightarrow> 'k kh_verifier \<Rightarrow> string \<Rightarrow> string option \<Rightarrow> 'k \<Rightarrow> ssh_err option" where
  \<comment> \<open>the callback of \<^verbatim>\<open>KnownHosts\<close>\<close>
  "strict_check kh verify hostname remote key = classify_known_hosts kh (verify hostname remote key) hostname key"

definition pin_addrs :: "'k known_hosts_ops \<Rightarrow> string \<Rightarrow> string option \<Rightarrow> string list" where
  "pin_addrs kh hostname remote =
     kh_normalize kh hostname #
     (case remote of
        None \<Rightarrow> []
      | Some r \<Rightarrow> if kh_normalize kh r \<noteq> kh_normalize kh hostname then [kh_normalize kh r] else [])"

text \<open>How a file operation goes: an error opening it, how many bytes are written, the write error.\<close>

record file_outcome =
  fo_open :: "ssh_err option"
  fo_written :: nat
  fo_error :: "ssh_err option"

definition append_known_host :: "'k known_hosts_ops \<Rightarrow> file_outcome \<Rightarrow> string \<Rightarrow> string \<Rightarrow> string option \<Rightarrow> 'k \<Rightarrow>
    ssh_err option \<times> string" where
  "append_known_host kh fo pins hostname remote key =
     (case fo_open fo of
        Some e \<Rightarrow> (Some e, pins)
      | None \<Rightarrow>
          (fo_error fo, pins @ take (fo_written fo) (kh_line kh (pin_addrs kh hostname remote) key @ [LF])))"

text \<open>
  One call of the callback of \<^verbatim>\<open>TOFU\<close>, on the verifier \<open>verify\<close> read when it was built and the file
  as it is under the lock. The last component says whether \<open>confirm\<close> was asked.
\<close>

definition tofu_check :: "'k known_hosts_ops \<Rightarrow> 'k kh_verifier \<Rightarrow> (string \<Rightarrow> string option \<Rightarrow> 'k \<Rightarrow> ssh_err + bool) option \<Rightarrow>
    file_outcome \<Rightarrow> string \<Rightarrow> string \<Rightarrow> string option \<Rightarrow> 'k \<Rightarrow> ssh_err option \<times> string \<times> bool" where
  "tofu_check kh verify confirm fo pins hostname remote key =
     (case strict_check kh verify hostname remote key of
        None \<Rightarrow> (None, pins, False)
      | Some err \<Rightarrow>
          if \<not> err_has is_unknown_host err then (Some err, pins, False)
          else case confirm of
            None \<Rightarrow> (Some err, pins, False)
          | Some ask \<Rightarrow>
              (case kh_parse kh pins of
                 Inl rerr \<Rightarrow> (Some rerr, pins, False)
               | Inr reverify \<Rightarrow>
                   (case strict_check kh reverify hostname remote key of
                      None \<Rightarrow> (None, pins, False)
                    | Some rerr \<Rightarrow>
                        if \<not> err_has is_unknown_host rerr then (Some rerr, pins, False)
                        else case ask hostname remote key of
                          Inl cerr \<Rightarrow> (Some cerr, pins, True)
                        | Inr False \<Rightarrow> (Some err, pins, True)
                        | Inr True \<Rightarrow>
                            (case append_known_host kh fo pins hostname remote key of (e, pins1) \<Rightarrow> (e, pins1, True)))))"

section \<open>Trust on first use\<close>

text \<open>The calls of one callback, in the order of the lock: what each returns, and the file they leave.\<close>

type_synonym 'k tofu_call = "file_outcome \<times> string \<times> string option \<times> 'k"

fun tofu_run :: "'k known_hosts_ops \<Rightarrow> 'k kh_verifier \<Rightarrow> (string \<Rightarrow> string option \<Rightarrow> 'k \<Rightarrow> ssh_err + bool) option \<Rightarrow>
    'k tofu_call list \<Rightarrow> string \<Rightarrow> (ssh_err option \<times> bool) list \<times> string" where
  "tofu_run kh verify confirm [] pins = ([], pins)"
| "tofu_run kh verify confirm ((fo, h, r, k) # calls) pins =
     (case tofu_check kh verify confirm fo pins h r k of
        (e, pins1, asked) \<Rightarrow>
          (case tofu_run kh verify confirm calls pins1 of (rs, pins2) \<Rightarrow> ((e, asked) # rs, pins2)))"

definition ends_line :: "string \<Rightarrow> bool" where
  "ends_line pins \<longleftrightarrow> pins = [] \<or> last pins = LF"

text \<open>The verifier \<open>v'\<close> accepts all \<open>v\<close> accepts and knows all hosts \<open>v\<close> knows.\<close>

definition kh_le :: "'k kh_verifier \<Rightarrow> 'k kh_verifier \<Rightarrow> bool" where
  "kh_le v v' \<longleftrightarrow>
     (\<forall>h r k. v h r k = KH_Ok \<longrightarrow> v' h r k = KH_Ok) \<and>
     (\<forall>h r k. v h r k \<noteq> KH_Key_Error [] \<longrightarrow> v' h r k \<noteq> KH_Key_Error [])"

text \<open>Errors of the verifier itself are taken to be none of this package's own.\<close>

definition foreign_errors :: "'k kh_verifier \<Rightarrow> bool" where
  "foreign_errors v \<longleftrightarrow> (\<forall>h r k e. v h r k = KH_Other e \<longrightarrow> \<not> err_has is_unknown_host e)"

text \<open>
  What the code relies on of \<^verbatim>\<open>knownhosts\<close>: after a line for an unknown host is added at the end of
  a file of whole lines, the file still parses, the host is known, with that key accepted, and
  nothing that was accepted or known is lost; and an error of its own is none of this package.
\<close>

definition kh_law :: "'k known_hosts_ops \<Rightarrow> bool" where
  "kh_law kh \<longleftrightarrow>
     (\<forall>pins v h r k. ends_line pins \<and> kh_parse kh pins = Inr v \<and> v h r k = KH_Key_Error [] \<longrightarrow>
        (\<exists>v'. kh_parse kh (pins @ kh_line kh (pin_addrs kh h r) k @ [LF]) = Inr v' \<and> kh_le v v' \<and>
           v' h r k = KH_Ok \<and> (\<forall>r' k'. v' h r' k' \<noteq> KH_Key_Error []))) \<and>
     (\<forall>pins v. kh_parse kh pins = Inr v \<longrightarrow> foreign_errors v)"

text \<open>A write is complete, or fails without writing.\<close>

definition clean_write :: "'k known_hosts_ops \<Rightarrow> 'k tofu_call \<Rightarrow> bool" where
  "clean_write kh c \<longleftrightarrow> (case c of (fo, h, r, k) \<Rightarrow>
     fo_error fo = None \<and> length (kh_line kh (pin_addrs kh h r) k) < fo_written fo
     \<or> fo_error fo \<noteq> None \<and> fo_written fo = 0)"

lemma kh_le_refl [simp]: "kh_le v v"
  by (simp add: kh_le_def)

lemma kh_le_trans: "kh_le u v \<Longrightarrow> kh_le v w \<Longrightarrow> kh_le u w"
  by (simp add: kh_le_def)

lemma strict_check_cases:
  "strict_check kh v h r k = None \<longleftrightarrow> v h r k = KH_Ok"
  "v h r k = KH_Key_Error [] \<Longrightarrow> strict_check kh v h r k = Some (Unknown_Host_Key h (kh_key_type kh k) (kh_fingerprint kh k))"
  by (auto simp: strict_check_def classify_known_hosts_def split: kh_result.splits)

lemma unknown_iff:
  assumes "foreign_errors v" "strict_check kh v h r k = Some e"
  shows "err_has is_unknown_host e \<longleftrightarrow> v h r k = KH_Key_Error []"
proof (cases "v h r k")
  case (KH_Other x)
  then show ?thesis using assms by (auto simp: strict_check_def classify_known_hosts_def foreign_errors_def)
next
  case (KH_Key_Error want)
  then show ?thesis using assms
    by (auto simp: strict_check_def classify_known_hosts_def err_has_def err_find.simps is_unknown_host_def split: if_splits)
qed (use assms in \<open>simp add: strict_check_def classify_known_hosts_def\<close>)

lemma append_clean:
  assumes "clean_write kh (fo, h, r, k)" "append_known_host kh fo pins h r k = (e, pins1)"
  shows "e = None \<and> pins1 = pins @ kh_line kh (pin_addrs kh h r) k @ [LF] \<or> e \<noteq> None \<and> pins1 = pins"
proof (cases "fo_open fo")
  case None
  then show ?thesis using assms
    by (auto simp: append_known_host_def clean_write_def)
next
  case (Some x)
  then have "append_known_host kh fo pins h r k = (Some x, pins)" by (simp add: append_known_host_def)
  with assms(2) show ?thesis by auto
qed

lemma kh_law_pin:
  "kh_law kh \<Longrightarrow> ends_line pins \<Longrightarrow> kh_parse kh pins = Inr v \<Longrightarrow> v h r k = KH_Key_Error [] \<Longrightarrow>
   \<exists>v'. kh_parse kh (pins @ kh_line kh (pin_addrs kh h r) k @ [LF]) = Inr v' \<and> kh_le v v' \<and>
     v' h r k = KH_Ok \<and> (\<forall>r' k'. v' h r' k' \<noteq> KH_Key_Error [])"
  unfolding kh_law_def by blast

lemma kh_law_own: "kh_law kh \<Longrightarrow> kh_parse kh pins = Inr v \<Longrightarrow> foreign_errors v"
  unfolding kh_law_def by blast

text \<open>One call on a file of whole lines that knows at least what the callback's own verifier knows.\<close>

lemma tofu_step:
  assumes law: "kh_law kh" and fv: "foreign_errors v"
    and "foreign_errors verify"
    and "clean_write kh (fo, h, r, k)" "ends_line pins" "kh_parse kh pins = Inr v" "kh_le verify v"
    and t: "tofu_check kh verify confirm fo pins h r k = (e, pins1, asked)"
  shows "\<exists>v'. ends_line pins1 \<and> kh_parse kh pins1 = Inr v' \<and> kh_le v v' \<and> (e = None \<longrightarrow> v' h r k = KH_Ok) \<and>
    (asked \<longrightarrow> v h r k = KH_Key_Error []) \<and> (asked \<and> e = None \<longrightarrow> (\<forall>r' k'. v' h r' k' \<noteq> KH_Key_Error []))"
proof (cases "strict_check kh verify h r k")
  case None
  then have "v h r k = KH_Ok" using assms(7) by (simp add: strict_check_cases kh_le_def)
  with None t assms(5,6) show ?thesis by (auto simp: tofu_check_def)
next
  case (Some err)
  note first = Some
  show ?thesis
  proof (cases "err_has is_unknown_host err \<and> confirm \<noteq> None")
    case False
    then have "tofu_check kh verify confirm fo pins h r k = (Some err, pins, False)"
      by (cases confirm) (simp_all add: tofu_check_def Some)
    with t assms(5,6) show ?thesis by auto
  next
    case True
    then obtain ask where ask: "confirm = Some ask" by auto
    show ?thesis
    proof (cases "strict_check kh v h r k")
      case None
      then have "v h r k = KH_Ok" by (simp add: strict_check_cases)
      with t first True ask None assms(5,6) show ?thesis by (auto simp: tofu_check_def)
    next
      case (Some rerr)
      show ?thesis
      proof (cases "err_has is_unknown_host rerr")
        case False
        then have "tofu_check kh verify confirm fo pins h r k = (Some rerr, pins, False)"
          using first True ask Some assms(6) by (simp add: tofu_check_def)
        with t assms(5,6) show ?thesis by auto
      next
        case u: True
        then have unk: "v h r k = KH_Key_Error []" using unknown_iff [OF fv Some] by simp
        show ?thesis
        proof (cases "ask h r k")
          case (Inl x)
          then have "tofu_check kh verify confirm fo pins h r k = (Some x, pins, True)"
            using first True ask Some u assms(6) by (simp add: tofu_check_def)
          with t unk assms(5,6) show ?thesis by auto
        next
          case (Inr b)
          show ?thesis
          proof (cases b)
            case False
            then have "tofu_check kh verify confirm fo pins h r k = (Some err, pins, True)"
              using first True ask Some u Inr assms(6) by (simp add: tofu_check_def)
            with t unk assms(5,6) show ?thesis by auto
          next
            case b: True
            then have a: "append_known_host kh fo pins h r k = (e, pins1)" and asked
              using t first True ask Some u Inr assms(6) by (auto simp: tofu_check_def split: prod.splits)
            obtain v' where v': "kh_parse kh (pins @ kh_line kh (pin_addrs kh h r) k @ [LF]) = Inr v'" "kh_le v v'"
                "v' h r k = KH_Ok" "\<forall>r' k'. v' h r' k' \<noteq> KH_Key_Error []"
              using kh_law_pin [OF law, of pins v h r k] unk assms(5,6) by blast
            from append_clean [OF assms(4) a] show ?thesis
            proof
              assume "e = None \<and> pins1 = pins @ kh_line kh (pin_addrs kh h r) k @ [LF]"
              with v' unk show ?thesis by (intro exI [of _ v']) (simp add: ends_line_def)
            next
              assume "e \<noteq> None \<and> pins1 = pins"
              with unk assms(5,6) show ?thesis by (intro exI [of _ v]) auto
            qed
          qed
        qed
      qed
    qed
  qed
qed

lemma tofu_run_keeps:
  assumes "kh_law kh" "foreign_errors verify"
  shows "list_all (clean_write kh) calls \<Longrightarrow> ends_line pins \<Longrightarrow> kh_parse kh pins = Inr v \<Longrightarrow> kh_le verify v \<Longrightarrow>
    tofu_run kh verify confirm calls pins = (rs, pins1) \<Longrightarrow>
    \<exists>v'. kh_parse kh pins1 = Inr v' \<and> kh_le v v' \<and> length rs = length calls \<and>
      (\<forall>i < length calls. case calls ! i of (fo, h, r, k) \<Rightarrow>
         (fst (rs ! i) = None \<longrightarrow> v' h r k = KH_Ok) \<and>
         (snd (rs ! i) \<longrightarrow> v h r k = KH_Key_Error []) \<and>
         (\<forall>j < i. fst (snd (calls ! j)) = h \<and> snd (rs ! j) \<and> fst (rs ! j) = None \<longrightarrow> \<not> snd (rs ! i)))"
proof (induction calls arbitrary: pins v rs)
  case (Cons c calls)
  obtain fo h r k where c: "c = (fo, h, r, k)" by (cases c)
  obtain e f1 asked where t: "tofu_check kh verify confirm fo pins h r k = (e, f1, asked)"
    by (cases "tofu_check kh verify confirm fo pins h r k")
  obtain rs1 where r: "tofu_run kh verify confirm calls f1 = (rs1, pins1)" "rs = (e, asked) # rs1"
    using Cons.prems(5) unfolding c by (auto simp: t split: prod.splits)
  have "clean_write kh (fo, h, r, k)" using Cons.prems(1) by (simp add: c)
  from tofu_step [OF assms(1) kh_law_own [OF assms(1) Cons.prems(3)] assms(2) this Cons.prems(2-4) t] obtain v1 where v1: "ends_line f1" "kh_parse kh f1 = Inr v1" "kh_le v v1"
      "e = None \<longrightarrow> v1 h r k = KH_Ok" "asked \<longrightarrow> v h r k = KH_Key_Error []"
      "asked \<and> e = None \<longrightarrow> (\<forall>r' k'. v1 h r' k' \<noteq> KH_Key_Error [])" by blast
  have "kh_le verify v1" using Cons.prems(4) v1(3) by (rule kh_le_trans)
  from Cons.IH [OF _ v1(1,2) this r(1)] Cons.prems(1) obtain v' where v': "kh_parse kh pins1 = Inr v'" "kh_le v1 v'"
      "length rs1 = length calls"
      "\<forall>i < length calls. case calls ! i of (fo, h, r, k) \<Rightarrow>
         (fst (rs1 ! i) = None \<longrightarrow> v' h r k = KH_Ok) \<and> (snd (rs1 ! i) \<longrightarrow> v1 h r k = KH_Key_Error []) \<and>
         (\<forall>j < i. fst (snd (calls ! j)) = h \<and> snd (rs1 ! j) \<and> fst (rs1 ! j) = None \<longrightarrow> \<not> snd (rs1 ! i))"
    by auto
  have unk: "v1 h r k = KH_Key_Error [] \<Longrightarrow> v h r k = KH_Key_Error []" for h r k
    using v1(3) unfolding kh_le_def by metis
  show ?case
  proof (intro exI [of _ v'] conjI allI impI)
    show "kh_parse kh pins1 = Inr v'" by (rule v'(1))
    show "kh_le v v'" using v1(3) v'(2) by (rule kh_le_trans)
    show "length rs = length (c # calls)" using v'(3) by (simp add: r(2))
    fix i
    assume i: "i < length (c # calls)"
    show "case (c # calls) ! i of (fo, h, r, k) \<Rightarrow>
         (fst (rs ! i) = None \<longrightarrow> v' h r k = KH_Ok) \<and> (snd (rs ! i) \<longrightarrow> v h r k = KH_Key_Error []) \<and>
         (\<forall>j < i. fst (snd ((c # calls) ! j)) = h \<and> snd (rs ! j) \<and> fst (rs ! j) = None \<longrightarrow> \<not> snd (rs ! i))"
    proof (cases i)
      case 0
      then show ?thesis using v1(4,5) v'(2) by (auto simp: c r(2) kh_le_def)
    next
      case (Suc m)
      obtain fo' h' r' k' where m: "calls ! m = (fo', h', r', k')" by (cases "calls ! m")
      have a: "fst (rs1 ! m) = None \<longrightarrow> v' h' r' k' = KH_Ok" "snd (rs1 ! m) \<longrightarrow> v1 h' r' k' = KH_Key_Error []"
        "\<forall>j < m. fst (snd (calls ! j)) = h' \<and> snd (rs1 ! j) \<and> fst (rs1 ! j) = None \<longrightarrow> \<not> snd (rs1 ! m)"
        using v'(4) i m Suc by auto
      have "\<not> snd (rs1 ! m)" if "j < Suc m" "fst (snd ((c # calls) ! j)) = h'" "snd (rs ! j)" "fst (rs ! j) = None" for j
      proof (cases j)
        case 0
        with that have "h = h'" asked "e = None" by (simp_all add: c r(2))
        with v1(6) a(2) show ?thesis by auto
      next
        case (Suc l)
        with that a(3) show ?thesis by (auto simp: r(2))
      qed
      with a(1,2) show ?thesis by (auto simp: Suc m r(2) unk)
    qed
  qed
qed auto


text \<open>A verifier that knows every host once a line is in the file.\<close>

definition toy_kh :: "nat known_hosts_ops" where
  "toy_kh = \<lparr>kh_parse = (\<lambda>pins. Inr (\<lambda>h r k. if length pins = 0 then KH_Key_Error [] else KH_Ok)),
     kh_normalize = (\<lambda>h. h), kh_line = (\<lambda>as k. concat as), kh_key_type = (\<lambda>k. []), kh_fingerprint = (\<lambda>k. [])\<rparr>"


text \<open>
  Nothing puts a line break before the pin: on a file whose last line is not ended, the pin
  becomes the tail of that line.
\<close>

lemma pin_joins_open_line:
  assumes "clean_write kh (fo, h, r, k)" "append_known_host kh fo (pins @ open_line) h r k = (None, pins')"
  shows "pins' = pins @ (open_line @ kh_line kh (pin_addrs kh h r) k) @ [LF]"
  using append_clean [OF assms] by simp

section \<open>What a dial reports\<close>

text \<open>The stage of a failed dial, and that a refusal by the policy is never taken for an authentication failure.\<close>

lemma recorded_None: "recorded cb keys = None \<longleftrightarrow> (\<forall>k\<in>set keys. cb k = None)"
proof -
  have "fold (\<lambda>k r. case cb k of Some e \<Rightarrow> Some e | None \<Rightarrow> r) keys r = None \<longleftrightarrow> r = None \<and> (\<forall>k\<in>set keys. cb k = None)" for r
    by (induction keys arbitrary: r) (auto split: option.splits)
  then show ?thesis by (simp add: recorded_def)
qed

lemma dial_stages:
  assumes "dial_conn (Some cb) (a # as) addr tcp handshake ctx_err = Inl e"
  obtains te where "tcp = Some te" "e = Dial_Error stage_network addr te"
  | keys he hk where "tcp = None" "handshake cb = (keys, Inl he)" "\<exists>k\<in>set keys. cb k = Some hk" "e = Dial_Error stage_hostkey addr hk"
  | keys he where "tcp = None" "handshake cb = (keys, Inl he)" "\<forall>k\<in>set keys. cb k = None"
      "e = Dial_Error stage_handshake addr (case ctx_err of Some ce \<Rightarrow> Join he ce | None \<Rightarrow> he)"
proof -
  have rec: "\<exists>k\<in>set keys. cb k = Some hk" if "recorded cb keys = Some hk" for keys hk
  proof -
    have "fold (\<lambda>k r. case cb k of Some e \<Rightarrow> Some e | None \<Rightarrow> r) ks r = Some hk \<Longrightarrow>
        r = Some hk \<or> (\<exists>k\<in>set ks. cb k = Some hk)" for ks r
      by (induction ks arbitrary: r) (auto split: option.splits)
    from this [of keys None] that show ?thesis by (simp add: recorded_def)
  qed
  from assms that show ?thesis
    by (auto simp: dial_conn_def recorded_None split: option.splits prod.splits sum.splits dest!: rec)
qed

lemma stages_differ: "stage_hostkey \<noteq> stage_handshake" "stage_network \<noteq> stage_handshake"
  by (simp_all add: stage_hostkey_def stage_handshake_def stage_network_def)

lemma policy_refusal_is_no_auth_failure:
  "stage \<noteq> stage_handshake \<Longrightarrow> \<not> is_auth_failure text (Some (Dial_Error stage addr e))"
  by (simp add: is_auth_failure_def err_find.simps is_dial_error_def)

section \<open>Keys\<close>

datatype key_err = Rsa_Too_Weak int | Unsupported_Algorithm string | Invalid_Comment | Passphrase_Required | Key_Failure string

record pair =
  pr_private_pem :: string
  pr_public_authorized :: string
  pr_fingerprint :: string

definition min_rsa_bits :: int where "min_rsa_bits = 2048"
definition default_rsa_bits :: int where "default_rsa_bits = 3072"

text \<open>The key functions of \<^verbatim>\<open>crypto\<close> and \<^verbatim>\<open>ssh\<close>: \<open>'p\<close> is a private key.\<close>

record 'p key_ops =
  ko_ed25519 :: "key_err + 'p"
  ko_rsa :: "int \<Rightarrow> key_err + 'p"
  ko_signer :: "'p \<Rightarrow> key_err option"
  ko_marshal :: "'p \<Rightarrow> string \<Rightarrow> key_err + string"
  ko_authorized :: "'p \<Rightarrow> string"  \<comment> \<open>\<^verbatim>\<open>MarshalAuthorizedKey\<close> of its public key, ending in a line feed\<close>
  ko_fingerprint :: "'p \<Rightarrow> string"

definition encode_pair :: "'p key_ops \<Rightarrow> 'p \<Rightarrow> string \<Rightarrow> key_err + pair" where
  "encode_pair ko priv comment =
     (case ko_signer ko priv of
        Some e \<Rightarrow> Inl e
      | None \<Rightarrow>
          (case ko_marshal ko priv comment of
             Inl e \<Rightarrow> Inl e
           | Inr pem \<Rightarrow>
               (let authorized = ko_authorized ko priv in
                Inr \<lparr>pr_private_pem = pem,
                     pr_public_authorized =
                       (if comment \<noteq> [] then take (length authorized - 1) authorized @ '' '' @ comment @ [LF]
                        else authorized),
                     pr_fingerprint = ko_fingerprint ko priv\<rparr>)))"

definition generate_key :: "'p key_ops \<Rightarrow> string \<Rightarrow> int \<Rightarrow> string \<Rightarrow> key_err + pair" where
  "generate_key ko alg bits comment =
     (if CR \<in> set comment \<or> LF \<in> set comment \<or> comment \<noteq> trim_space comment then Inl Invalid_Comment
      else if alg = ''ed25519'' then
        (case ko_ed25519 ko of Inl e \<Rightarrow> Inl e | Inr priv \<Rightarrow> encode_pair ko priv comment)
      else if alg = ''rsa'' then
        (let bits = or_default bits default_rsa_bits in
         if bits < min_rsa_bits then Inl (Rsa_Too_Weak bits)
         else (case ko_rsa ko bits of Inl e \<Rightarrow> Inl e | Inr priv \<Rightarrow> encode_pair ko priv comment))
      else Inl (Unsupported_Algorithm alg))"

definition parse_private :: "(string \<Rightarrow> (bool \<times> key_err) + 'p) \<Rightarrow> string \<Rightarrow> key_err + 'p" where
  \<comment> \<open>the parser says with the error whether it is a \<^verbatim>\<open>PassphraseMissingError\<close>\<close>
  "parse_private parse pem =
     (case parse pem of
        Inr p \<Rightarrow> Inr p
      | Inl (missing, e) \<Rightarrow> Inl (if missing then Passphrase_Required else e))"

definition load_key :: "(string \<Rightarrow> key_err + string) \<Rightarrow> (string \<Rightarrow> (bool \<times> key_err) + 'p) \<Rightarrow> (string \<Rightarrow> string \<Rightarrow> key_err + 'p) \<Rightarrow>
    (string \<Rightarrow> key_err + string) option \<Rightarrow> string \<Rightarrow> key_err + 'p" where
  "load_key read_file parse parse_with path_prompt path =
     (case read_file path of
        Inl e \<Rightarrow> Inl e
      | Inr data \<Rightarrow>
          (case parse_private parse data of
             Inr p \<Rightarrow> Inr p
           | Inl e \<Rightarrow>
               if e \<noteq> Passphrase_Required then Inl e
               else case path_prompt of
                 None \<Rightarrow> Inl e
               | Some prompt \<Rightarrow>
                   (case prompt path of Inl e' \<Rightarrow> Inl e' | Inr passphrase \<Rightarrow> parse_with data passphrase)))"

text \<open>A generated public key is one line, whatever the comment; RSA keys have at least 2048 bits.\<close>

lemma generated_one_line:
  assumes "generate_key ko alg bits comment = Inr p"
    and "\<And>priv. \<exists>l. ko_authorized ko priv = l @ [LF] \<and> LF \<notin> set l"
  shows "\<exists>l. pr_public_authorized p = l @ [LF] \<and> LF \<notin> set l"
proof -
  obtain priv where e: "encode_pair ko priv comment = Inr p" and c: "LF \<notin> set comment"
    using assms(1) by (auto simp: generate_key_def Let_def split: if_splits sum.splits)
  obtain l where "ko_authorized ko priv = l @ [LF]" "LF \<notin> set l" using assms(2) by blast
  with e c show ?thesis
    by (auto simp: encode_pair_def Let_def split: option.splits sum.splits if_splits)
qed

lemma generated_rsa_strong:
  assumes "generate_key ko ''rsa'' bits comment = Inr p"
  shows "\<exists>priv. ko_rsa ko (or_default bits default_rsa_bits) = Inr priv \<and> 2048 \<le> or_default bits default_rsa_bits"
  using assms by (auto simp: generate_key_def Let_def min_rsa_bits_def split: if_splits sum.splits)

end
