(* ===== verification/SshPool.thy ===== *)
theory SshPool
  imports Ssh "HOL-Library.Multiset"
begin

text \<open>
  The pool of self-healing SSH connections, \<^verbatim>\<open>src/x/sshx/pool.go\<close>, as a step relation. One
  step is one critical section of a lock, one channel operation or one call out; steps of the
  maintenance loop, of the callers and of the closers interleave freely. The program counter of
  the loop is a \<open>mgr\<close>, a caller between two of its steps is a \<open>caller\<close>, and a connection is a
  number that a dial draws fresh. \<open>mg_log\<close> lists the calls of \<^verbatim>\<open>OnStateChange\<close>.
\<close>

section \<open>State\<close>

datatype conn_state = Connecting | Ready | Broken | Closed

fun state_string :: "conn_state \<Rightarrow> string" where
  "state_string Ready = ''ready''"
| "state_string Broken = ''broken''"
| "state_string Closed = ''closed''"
| "state_string Connecting = ''connecting''"

lemma state_string_inj: "state_string s = state_string t \<longleftrightarrow> s = t"
  by (cases s; cases t) simp_all

type_synonym conn = nat

datatype mgr =
    M_Acquire  \<comment> \<open>in \<^verbatim>\<open>dial\<close>, before the semaphore\<close>
  | M_Dial  \<comment> \<open>holding a slot, in \<^verbatim>\<open>dialFn\<close>\<close>
  | M_Failed ssh_err
  | M_Wait
  | M_Drain conn
  | M_Up conn
  | M_Serve conn
  | M_Token conn  \<comment> \<open>a redial request taken, before \<^verbatim>\<open>m.Err()\<close>\<close>
  | M_Down conn "ssh_err option"
  | M_Close conn bool  \<comment> \<open>in \<^verbatim>\<open>teardown\<close>, before \<^verbatim>\<open>c.Close()\<close>; whether to redial\<close>
  | M_Clear conn bool
  | M_Notify conn_state "ssh_err option" mgr
  | M_Done

datatype caller = K_Run conn | K_Failed conn ssh_err | K_Send

datatype closer = C_Open | C_Cancel | C_Notify | C_Done

record managed =
  mg_state :: conn_state
  mg_client :: "conn option"
  mg_err :: "ssh_err option"
  mg_closed :: bool
  mg_cancelled :: bool
  mg_token :: bool
  mg_attempt :: nat
  mg_pc :: mgr
  mg_callers :: "caller multiset"
  mg_closer :: closer
  mg_torn :: "conn set"
  mg_seen :: "conn set"
  mg_log :: "(conn_state \<times> ssh_err option) list"

definition new_managed :: managed where
  "new_managed = \<lparr>mg_state = Connecting, mg_client = None, mg_err = None, mg_closed = False, mg_cancelled = False,
     mg_token = False, mg_attempt = 0, mg_pc = M_Acquire, mg_callers = {#}, mg_closer = C_Open, mg_torn = {},
     mg_seen = {}, mg_log = []\<rparr>"

section \<open>Critical sections\<close>

definition set_locked :: "conn_state \<Rightarrow> conn option \<Rightarrow> ssh_err option \<Rightarrow> mgr \<Rightarrow> managed \<Rightarrow> managed" where
  \<comment> \<open>\<^verbatim>\<open>set\<close>, with the callback still to come, then \<open>k\<close>\<close>
  "set_locked st c err k m =
     (if mg_closed m then m\<lparr>mg_pc := k\<rparr>
      else m\<lparr>mg_state := st, mg_client := (if c \<noteq> None \<or> st = Ready then c else mg_client m), mg_err := err,
             mg_pc := M_Notify st err k\<rparr>)"

definition ready_client :: "managed \<Rightarrow> ssh_err + conn" where
  "ready_client m =
     (if mg_closed m then Inl Err_Closed
      else case (mg_state m, mg_client m) of (Ready, Some c) \<Rightarrow> Inr c | _ \<Rightarrow> Inl Not_Ready)"

definition live_client :: "managed \<Rightarrow> conn option" where
  \<comment> \<open>\<^verbatim>\<open>Client\<close>\<close>
  "live_client m = (if mg_state m \<noteq> Ready then None else mg_client m)"

definition signal_locked :: "conn \<Rightarrow> ssh_err \<Rightarrow> managed \<Rightarrow> managed" where
  \<comment> \<open>the locked part of \<^verbatim>\<open>signalReconnect\<close>, by a caller that is then about to send or done\<close>
  "signal_locked c err m =
     (let m' = m\<lparr>mg_callers := mg_callers m - {#K_Failed c err#}\<rparr> in
      if \<not> mg_closed m \<and> mg_state m = Ready \<and> mg_client m = Some c
      then m'\<lparr>mg_state := Broken, mg_err := Some err, mg_callers := add_mset K_Send (mg_callers m')\<rparr>
      else m')"

definition clear_client :: "conn \<Rightarrow> managed \<Rightarrow> managed" where
  "clear_client c m = (if mg_client m = Some c then m\<lparr>mg_client := None\<rparr> else m)"

definition close_locked :: "managed \<Rightarrow> managed" where
  "close_locked m = m\<lparr>mg_closed := True, mg_state := Closed, mg_closer := C_Cancel\<rparr>"

section \<open>Steps of one connection\<close>

datatype slot = Take | Give | Keep  \<comment> \<open>what a step does to the dial semaphore\<close>

inductive mstep :: "managed \<Rightarrow> slot \<Rightarrow> managed \<Rightarrow> bool" where
  acquire: "mg_pc m = M_Acquire \<Longrightarrow> mstep m Take (m\<lparr>mg_pc := M_Dial\<rparr>)"
| acquire_cancelled: "mg_pc m = M_Acquire \<Longrightarrow> mg_cancelled m \<Longrightarrow> mstep m Keep (m\<lparr>mg_pc := M_Done\<rparr>)"
| dial_ok: "mg_pc m = M_Dial \<Longrightarrow> c \<notin> mg_seen m \<Longrightarrow>
    mstep m Give (m\<lparr>mg_pc := M_Drain c, mg_attempt := 0, mg_seen := insert c (mg_seen m)\<rparr>)"
| dial_cancelled: "mg_pc m = M_Dial \<Longrightarrow> mg_cancelled m \<Longrightarrow> err_has (\<lambda>x. x = Ctx_Canceled) e \<Longrightarrow>
    mstep m Give (m\<lparr>mg_pc := M_Done\<rparr>)"
| dial_failed: "mg_pc m = M_Dial \<Longrightarrow> \<not> (mg_cancelled m \<and> err_has (\<lambda>x. x = Ctx_Canceled) e) \<Longrightarrow>
    mstep m Give (m\<lparr>mg_pc := M_Failed e, mg_attempt := mg_attempt m + 1\<rparr>)"
| failed: "mg_pc m = M_Failed e \<Longrightarrow> mstep m Keep (set_locked Broken None (Some e) M_Wait m)"
| waited: "mg_pc m = M_Wait \<Longrightarrow> mstep m Keep (m\<lparr>mg_pc := M_Acquire\<rparr>)"
| wait_cancelled: "mg_pc m = M_Wait \<Longrightarrow> mg_cancelled m \<Longrightarrow> mstep m Keep (m\<lparr>mg_pc := M_Done\<rparr>)"
| drain: "mg_pc m = M_Drain c \<Longrightarrow> mstep m Keep (m\<lparr>mg_token := False, mg_pc := M_Up c\<rparr>)"
| up: "mg_pc m = M_Up c \<Longrightarrow> mstep m Keep (set_locked Ready (Some c) None (M_Serve c) m)"
| serve_cancelled: "mg_pc m = M_Serve c \<Longrightarrow> mg_cancelled m \<Longrightarrow> mstep m Keep (m\<lparr>mg_pc := M_Close c False\<rparr>)"
| serve_token: "mg_pc m = M_Serve c \<Longrightarrow> mg_token m \<Longrightarrow> mstep m Keep (m\<lparr>mg_token := False, mg_pc := M_Token c\<rparr>)"
| serve_ping_failed: "mg_pc m = M_Serve c \<Longrightarrow> mstep m Keep (m\<lparr>mg_pc := M_Down c (Some e)\<rparr>)"
| token_err: "mg_pc m = M_Token c \<Longrightarrow> mstep m Keep (m\<lparr>mg_pc := M_Down c (mg_err m)\<rparr>)"
| down: "mg_pc m = M_Down c err \<Longrightarrow> mstep m Keep (set_locked Broken None err (M_Close c True) m)"
| torn: "mg_pc m = M_Close c redial \<Longrightarrow> mstep m Keep (m\<lparr>mg_torn := insert c (mg_torn m), mg_pc := M_Clear c redial\<rparr>)"
| clear: "mg_pc m = M_Clear c redial \<Longrightarrow>
    mstep m Keep ((clear_client c m)\<lparr>mg_pc := (if redial then M_Acquire else M_Done)\<rparr>)"
| notify: "mg_pc m = M_Notify st err k \<Longrightarrow> mstep m Keep (m\<lparr>mg_log := mg_log m @ [(st, err)], mg_pc := k\<rparr>)"
| call: "ready_client m = Inr c \<Longrightarrow> mstep m Keep (m\<lparr>mg_callers := add_mset (K_Run c) (mg_callers m)\<rparr>)"
| returned: "K_Run c \<in># mg_callers m \<Longrightarrow> \<not> fatal_conn_err err \<Longrightarrow>
    mstep m Keep (m\<lparr>mg_callers := mg_callers m - {#K_Run c#}\<rparr>)"
| call_failed: "K_Run c \<in># mg_callers m \<Longrightarrow> fatal_conn_err (Some e) \<Longrightarrow>
    mstep m Keep (m\<lparr>mg_callers := add_mset (K_Failed c e) (mg_callers m - {#K_Run c#})\<rparr>)"
| signal: "K_Failed c e \<in># mg_callers m \<Longrightarrow> mstep m Keep (signal_locked c e m)"
| send: "K_Send \<in># mg_callers m \<Longrightarrow> mstep m Keep (m\<lparr>mg_callers := mg_callers m - {#K_Send#}, mg_token := True\<rparr>)"
| close: "mg_closer m = C_Open \<Longrightarrow> mstep m Keep (close_locked m)"
| cancel: "mg_closer m = C_Cancel \<Longrightarrow> mstep m Keep (m\<lparr>mg_cancelled := True, mg_closer := C_Notify\<rparr>)"
| notify_closed: "mg_closer m = C_Notify \<Longrightarrow>
    mstep m Keep (m\<lparr>mg_log := mg_log m @ [(Closed, None)], mg_closer := C_Done\<rparr>)"

section \<open>Steps of the pool\<close>

record pool =
  pl_max :: nat
  pl_used :: nat  \<comment> \<open>elements in the channel \<^verbatim>\<open>sem\<close>\<close>
  pl_conns :: "nat list"
  pl_dead :: bool
  pl_all :: "managed list"  \<comment> \<open>every connection \<^verbatim>\<open>Add\<close> has made\<close>
  pl_closing :: "nat multiset"  \<comment> \<open>calls of \<^verbatim>\<open>m.Close()\<close> to come, by \<^verbatim>\<open>Pool.Close\<close> and by \<^verbatim>\<open>Add\<close> on a closed pool\<close>

definition default_max_dials :: int where "default_max_dials = 16"

definition new_pool :: "int \<Rightarrow> pool" where
  "new_pool n = \<lparr>pl_max = nat (pos_or_default n default_max_dials), pl_used = 0, pl_conns = [], pl_dead = False,
     pl_all = [], pl_closing = {#}\<rparr>"

definition pool_add :: "pool \<Rightarrow> pool" where
  "pool_add p =
     (if pl_dead p
      then p\<lparr>pl_all := pl_all p @ [new_managed\<lparr>mg_pc := M_Done\<rparr>], pl_closing := add_mset (length (pl_all p)) (pl_closing p)\<rparr>
      else p\<lparr>pl_all := pl_all p @ [new_managed], pl_conns := pl_conns p @ [length (pl_all p)]\<rparr>)"

definition pool_close :: "pool \<Rightarrow> pool" where
  "pool_close p =
     (if pl_dead p then p
      else p\<lparr>pl_dead := True, pl_conns := [], pl_closing := pl_closing p + mset (pl_conns p)\<rparr>)"

definition managed_close :: "managed \<Rightarrow> managed" where
  \<comment> \<open>\<^verbatim>\<open>closeOnce\<close>: only the first call runs\<close>
  "managed_close m = (if mg_closer m = C_Open then close_locked m else m)"

inductive pstep :: "pool \<Rightarrow> pool \<Rightarrow> bool" where
  add: "pstep p (pool_add p)"
| shut: "pstep p (pool_close p)"
| close_one: "i \<in># pl_closing p \<Longrightarrow>
    pstep p (p\<lparr>pl_all := (pl_all p)[i := managed_close (pl_all p ! i)], pl_closing := pl_closing p - {#i#}\<rparr>)"
| keep: "i < length (pl_all p) \<Longrightarrow> mstep (pl_all p ! i) Keep m \<Longrightarrow> pstep p (p\<lparr>pl_all := (pl_all p)[i := m]\<rparr>)"
| take: "i < length (pl_all p) \<Longrightarrow> mstep (pl_all p ! i) Take m \<Longrightarrow> pl_used p < pl_max p \<Longrightarrow>
    pstep p (p\<lparr>pl_all := (pl_all p)[i := m], pl_used := pl_used p + 1\<rparr>)"
| give: "i < length (pl_all p) \<Longrightarrow> mstep (pl_all p ! i) Give m \<Longrightarrow> 0 < pl_used p \<Longrightarrow>
    pstep p (p\<lparr>pl_all := (pl_all p)[i := m], pl_used := pl_used p - 1\<rparr>)"

inductive reach :: "int \<Rightarrow> pool \<Rightarrow> bool" for n where
  init: "reach n (new_pool n)"
| step: "reach n p \<Longrightarrow> pstep p q \<Longrightarrow> reach n q"

section \<open>Invariants of a connection\<close>

inductive_cases mstepE: "mstep m s m'"

text \<open>The flags: closed means closed for good.\<close>

definition flags_inv :: "managed \<Rightarrow> bool" where
  "flags_inv m \<longleftrightarrow> (mg_closed m \<longleftrightarrow> mg_closer m \<noteq> C_Open) \<and> (mg_closed m \<longleftrightarrow> mg_state m = Closed) \<and>
     (mg_cancelled m \<longrightarrow> mg_closed m)"

lemmas section_defs = set_locked_def signal_locked_def clear_client_def close_locked_def Let_def

lemma mstep_flags: "mstep m s m' \<Longrightarrow> flags_inv m \<Longrightarrow> flags_inv m'"
  by (induction rule: mstep.induct) (auto simp: flags_inv_def section_defs)

lemma mstep_closed: "mstep m s m' \<Longrightarrow> mg_closed m \<Longrightarrow> mg_closed m'"
  by (induction rule: mstep.induct) (auto simp: section_defs)

text \<open>Where the loop stands: the connection it holds open, and the callbacks it owes.\<close>

fun holds :: "mgr \<Rightarrow> conn option" where
  "holds (M_Drain c) = Some c"
| "holds (M_Up c) = Some c"
| "holds (M_Serve c) = Some c"
| "holds (M_Token c) = Some c"
| "holds (M_Down c e) = Some c"
| "holds (M_Close c r) = Some c"
| "holds (M_Notify st e k) = holds k"
| "holds _ = None"

fun serving :: "mgr \<Rightarrow> conn option" where
  "serving (M_Serve c) = Some c"
| "serving (M_Token c) = Some c"
| "serving (M_Down c e) = Some c"
| "serving (M_Notify st e (M_Serve c)) = Some c"
| "serving _ = None"

fun pc_ok :: "mgr \<Rightarrow> bool" where
  "pc_ok (M_Notify Ready e (M_Serve c)) \<longleftrightarrow> e = None"
| "pc_ok (M_Notify Broken e M_Wait) \<longleftrightarrow> True"
| "pc_ok (M_Notify Broken e (M_Close c r)) \<longleftrightarrow> True"
| "pc_ok (M_Notify st e k) \<longleftrightarrow> False"
| "pc_ok _ \<longleftrightarrow> True"

lemma pc_ok_notify:
  "pc_ok (M_Notify st e k) \<longleftrightarrow> st = Ready \<and> e = None \<and> (\<exists>c. k = M_Serve c) \<or> st = Broken \<and> (k = M_Wait \<or> (\<exists>c r. k = M_Close c r))"
  by (cases st; cases k) auto

lemma mstep_pc_ok: "mstep m s m' \<Longrightarrow> pc_ok (mg_pc m) \<Longrightarrow> pc_ok (mg_pc m')"
  by (induction rule: mstep.induct) (auto simp: section_defs pc_ok_notify)

text \<open>
  A connection that is handed out is the one the loop is serving, and no connection the loop
  holds has been torn down.
\<close>

definition conn_inv :: "managed \<Rightarrow> bool" where
  "conn_inv m \<longleftrightarrow> mg_torn m \<subseteq> mg_seen m \<and>
     (\<forall>c. holds (mg_pc m) = Some c \<longrightarrow> c \<in> mg_seen m \<and> c \<notin> mg_torn m) \<and>
     (mg_state m = Ready \<longrightarrow> mg_client m \<noteq> None \<and> serving (mg_pc m) = mg_client m)"

lemma serving_holds: "serving pc = Some c \<Longrightarrow> holds pc = Some c"
  by (cases pc rule: serving.cases) auto

lemma mstep_conn: "mstep m s m' \<Longrightarrow> flags_inv m \<Longrightarrow> pc_ok (mg_pc m) \<Longrightarrow> conn_inv m \<Longrightarrow> conn_inv m'"
proof (induction rule: mstep.induct)
  case (notify m st err k)
  then show ?case by (auto simp: conn_inv_def pc_ok_notify)
qed (auto simp: conn_inv_def flags_inv_def section_defs)

section \<open>The order of the notifications\<close>

definition loop_log :: "managed \<Rightarrow> (conn_state \<times> ssh_err option) list" where
  "loop_log m = filter (\<lambda>x. fst x \<noteq> Closed) (mg_log m)"

definition up_last :: "managed \<Rightarrow> bool" where
  "up_last m \<longleftrightarrow> loop_log m \<noteq> [] \<and> fst (last (loop_log m)) = Ready"

definition no_repeat :: "conn_state \<times> ssh_err option \<Rightarrow> conn_state \<times> ssh_err option \<Rightarrow> bool" where
  "no_repeat x y \<longleftrightarrow> \<not> (fst x = Ready \<and> fst y = Ready)"

fun going_down :: "mgr \<Rightarrow> bool" where
  "going_down (M_Serve c) \<longleftrightarrow> True"
| "going_down (M_Token c) \<longleftrightarrow> True"
| "going_down (M_Down c e) \<longleftrightarrow> True"
| "going_down (M_Notify Broken e (M_Close c r)) \<longleftrightarrow> True"
| "going_down _ \<longleftrightarrow> False"

definition log_inv :: "managed \<Rightarrow> bool" where
  "log_inv m \<longleftrightarrow> successively no_repeat (loop_log m) \<and>
     (\<forall>x \<in> set (mg_log m). fst x \<noteq> Connecting \<and> (fst x = Broken \<or> snd x = None)) \<and>
     (up_last m \<longrightarrow> mg_closed m \<or> going_down (mg_pc m)) \<and>
     (\<forall>e k. mg_pc m = M_Notify Ready e k \<longrightarrow> \<not> up_last m)"

lemma loop_log_same:
  "mg_log m' = mg_log m \<Longrightarrow> loop_log m' = loop_log m"
  "mg_log m' = mg_log m \<Longrightarrow> up_last m' = up_last m"
  by (simp_all add: loop_log_def up_last_def)

lemma log_same:
  "mg_log m' = mg_log m \<Longrightarrow> (mg_closed m \<longrightarrow> mg_closed m') \<Longrightarrow>
   (\<not> mg_closed m' \<and> up_last m \<and> going_down (mg_pc m) \<longrightarrow> going_down (mg_pc m')) \<Longrightarrow>
   (\<forall>e k. mg_pc m' = M_Notify Ready e k \<longrightarrow> mg_pc m = M_Notify Ready e k \<or> \<not> up_last m) \<Longrightarrow>
   log_inv m \<Longrightarrow> log_inv m'"
proof -
  assume l: "mg_log m' = mg_log m"
  note same = loop_log_same [OF l]
  show "(mg_closed m \<longrightarrow> mg_closed m') \<Longrightarrow>
      (\<not> mg_closed m' \<and> up_last m \<and> going_down (mg_pc m) \<longrightarrow> going_down (mg_pc m')) \<Longrightarrow>
      (\<forall>e k. mg_pc m' = M_Notify Ready e k \<longrightarrow> mg_pc m = M_Notify Ready e k \<or> \<not> up_last m) \<Longrightarrow>
      log_inv m \<Longrightarrow> log_inv m'"
    unfolding log_inv_def same l by (elim conjE, intro conjI) auto
qed

lemma log_append:
  assumes "mg_log m' = mg_log m @ [(st, err)]" "st \<noteq> Closed"
  shows "loop_log m' = loop_log m @ [(st, err)]" "up_last m' \<longleftrightarrow> st = Ready"
  using assms by (simp_all add: loop_log_def up_last_def)

lemma log_closed:
  assumes "mg_log m' = mg_log m @ [(Closed, None)]"
  shows "loop_log m' = loop_log m" "up_last m' \<longleftrightarrow> up_last m"
  using assms by (simp_all add: loop_log_def up_last_def)

lemma mstep_log: "mstep m s m' \<Longrightarrow> flags_inv m \<Longrightarrow> pc_ok (mg_pc m) \<Longrightarrow> log_inv m \<Longrightarrow> log_inv m'"
proof (induction rule: mstep.induct)
  case (notify m st err k)
  let ?m = "m\<lparr>mg_log := mg_log m @ [(st, err)], mg_pc := k\<rparr>"
  have p: "st = Ready \<and> err = None \<and> (\<exists>c. k = M_Serve c) \<or> st = Broken \<and> (k = M_Wait \<or> (\<exists>c r. k = M_Close c r))"
    using notify by (simp add: pc_ok_notify)
  then have "st \<noteq> Closed" by auto
  then have l: "loop_log ?m = loop_log m @ [(st, err)]" "up_last ?m \<longleftrightarrow> st = Ready"
    by (intro log_append; simp)+
  have "no_repeat (last (loop_log m)) (st, err)" if "loop_log m \<noteq> []"
    using notify that by (auto simp: log_inv_def no_repeat_def up_last_def)
  then have "successively no_repeat (loop_log ?m)"
    using notify(4) unfolding l by (auto simp: log_inv_def successively_append_iff)
  with p l(2) notify(4) show ?case by (auto simp: log_inv_def)
next
  case (notify_closed m)
  let ?m = "m\<lparr>mg_log := mg_log m @ [(Closed, None)], mg_closer := C_Done\<rparr>"
  have "loop_log ?m = loop_log m" "up_last ?m \<longleftrightarrow> up_last m" by (intro log_closed; simp)+
  with notify_closed(4) show ?case by (simp add: log_inv_def)
next
  case (up m c)
  show ?case
  proof (rule log_same [OF _ _ _ _ up(4)])
    show "\<forall>e k. mg_pc (set_locked Ready (Some c) None (M_Serve c) m) = M_Notify Ready e k \<longrightarrow>
        mg_pc m = M_Notify Ready e k \<or> \<not> up_last m"
      using up by (auto simp: log_inv_def set_locked_def)
  qed (auto simp: set_locked_def up)
qed (erule log_same [rotated 4]; auto simp: section_defs flags_inv_def)+

text \<open>All of it together.\<close>

definition managed_ok :: "managed \<Rightarrow> bool" where
  "managed_ok m \<longleftrightarrow> flags_inv m \<and> pc_ok (mg_pc m) \<and> conn_inv m \<and> log_inv m"

lemma mstep_ok: "mstep m s m' \<Longrightarrow> managed_ok m \<Longrightarrow> managed_ok m'"
  unfolding managed_ok_def using mstep_flags mstep_pc_ok mstep_conn mstep_log by blast

lemma new_managed_ok: "managed_ok new_managed" "managed_ok (new_managed\<lparr>mg_pc := M_Done\<rparr>)"
  by (auto simp: managed_ok_def new_managed_def flags_inv_def conn_inv_def log_inv_def loop_log_def up_last_def)

lemma managed_close_ok: "managed_ok m \<Longrightarrow> managed_ok (managed_close m)"
  using mstep.close mstep_ok by (auto simp: managed_close_def)

lemma managed_close_closed: "managed_ok m \<Longrightarrow> mg_closed (managed_close m)"
  by (auto simp: managed_close_def managed_ok_def flags_inv_def close_locked_def)

section \<open>Invariants of the pool\<close>

definition dialing :: "managed \<Rightarrow> bool" where
  "dialing m \<longleftrightarrow> mg_pc m = M_Dial"

definition in_flight :: "pool \<Rightarrow> nat" where
  "in_flight p = length (filter dialing (pl_all p))"

lemma mstep_dialing:
  "mstep m s m' \<Longrightarrow> pc_ok (mg_pc m) \<Longrightarrow>
   (s = Take \<longrightarrow> \<not> dialing m \<and> dialing m') \<and> (s = Give \<longrightarrow> dialing m \<and> \<not> dialing m') \<and>
   (s = Keep \<longrightarrow> (dialing m' \<longleftrightarrow> dialing m))"
  by (induction rule: mstep.induct) (auto simp: dialing_def section_defs pc_ok_notify)

lemma filter_update:
  "i < length xs \<Longrightarrow> length (filter P (xs[i := x])) + (if P (xs ! i) then 1 else 0) =
     length (filter P xs) + (if P x then 1 else 0)"
proof (induction xs arbitrary: i)
  case (Cons y ys)
  then show ?case by (cases i) auto
qed simp

definition all_ok :: "pool \<Rightarrow> bool" where
  "all_ok p \<longleftrightarrow> (\<forall>i < length (pl_all p). managed_ok (pl_all p ! i))"

definition slots_ok :: "pool \<Rightarrow> bool" where
  "slots_ok p \<longleftrightarrow> pl_used p = in_flight p \<and> pl_used p \<le> pl_max p"

definition closing_ok :: "pool \<Rightarrow> bool" where
  "closing_ok p \<longleftrightarrow> (\<forall>i\<in>#pl_closing p. i < length (pl_all p)) \<and>
     (\<not> pl_dead p \<longrightarrow> pl_conns p = [0 ..< length (pl_all p)]) \<and>
     (pl_dead p \<longrightarrow> (\<forall>i < length (pl_all p). mg_closed (pl_all p ! i) \<or> i \<in># pl_closing p))"

lemma pstep_all_ok: "pstep p q \<Longrightarrow> all_ok p \<Longrightarrow> all_ok q"
proof (induction rule: pstep.induct)
  case (add p)
  then show ?case
    by (auto simp: all_ok_def pool_add_def nth_append new_managed_ok less_Suc_eq)
next
  case (close_one i p)
  then show ?case
    by (cases "i < length (pl_all p)") (auto simp: all_ok_def nth_list_update managed_close_ok)
qed (auto simp: all_ok_def pool_close_def nth_list_update intro: mstep_ok)

lemma pstep_slots: "pstep p q \<Longrightarrow> all_ok p \<Longrightarrow> slots_ok p \<Longrightarrow> slots_ok q"
proof (induction rule: pstep.induct)
  case (add p)
  then show ?case by (simp add: slots_ok_def in_flight_def pool_add_def dialing_def new_managed_def)
next
  case (shut p)
  then show ?case by (simp add: slots_ok_def in_flight_def pool_close_def)
next
  case (close_one i p)
  have "dialing (managed_close m) = dialing m" for m by (simp add: dialing_def managed_close_def close_locked_def)
  with close_one show ?case using filter_update [of i "pl_all p" dialing "managed_close (pl_all p ! i)"]
    by (cases "i < length (pl_all p)") (auto simp: slots_ok_def in_flight_def list_update_beyond)
next
  case (keep i p m)
  then have "dialing m = dialing (pl_all p ! i)"
    using mstep_dialing [OF keep(2)] by (simp add: all_ok_def managed_ok_def)
  with keep show ?case using filter_update [of i "pl_all p" dialing m] by (auto simp: slots_ok_def in_flight_def)
next
  case (take i p m)
  then have "dialing m" "\<not> dialing (pl_all p ! i)"
    using mstep_dialing [OF take(2)] by (simp_all add: all_ok_def managed_ok_def)
  with take show ?case using filter_update [of i "pl_all p" dialing m] by (auto simp: slots_ok_def in_flight_def)
next
  case (give i p m)
  then have "\<not> dialing m" "dialing (pl_all p ! i)"
    using mstep_dialing [OF give(2)] by (simp_all add: all_ok_def managed_ok_def)
  with give show ?case using filter_update [of i "pl_all p" dialing m] by (auto simp: slots_ok_def in_flight_def)
qed

lemma closing_step:
  assumes "closing_ok p" "i < length (pl_all p)" "mg_closed (pl_all p ! i) \<longrightarrow> mg_closed m"
  shows "closing_ok (p\<lparr>pl_all := (pl_all p)[i := m], pl_used := u\<rparr>)" "closing_ok (p\<lparr>pl_all := (pl_all p)[i := m]\<rparr>)"
  using assms by (auto simp: closing_ok_def nth_list_update)

lemma pstep_closing: "pstep p q \<Longrightarrow> all_ok p \<Longrightarrow> closing_ok p \<Longrightarrow> closing_ok q"
proof (induction rule: pstep.induct)
  case (add p)
  then show ?case by (auto simp: closing_ok_def pool_add_def nth_append less_Suc_eq)
next
  case (shut p)
  then show ?case by (auto simp: closing_ok_def pool_close_def)
next
  case (close_one i p)
  then have i: "i < length (pl_all p)" by (simp add: closing_ok_def)
  then have "mg_closed (managed_close (pl_all p ! i))"
    using close_one(2) by (simp add: all_ok_def managed_close_closed)
  with close_one i show ?case
    by (auto simp: closing_ok_def nth_list_update dest: in_diffD) (metis insert_DiffM insert_noteq_member)+
qed (auto intro!: closing_step dest: mstep_closed)

lemma reach_ok: "reach n p \<Longrightarrow> all_ok p \<and> slots_ok p \<and> closing_ok p"
proof (induction rule: reach.induct)
  case init
  then show ?case by (simp add: all_ok_def slots_ok_def closing_ok_def in_flight_def new_pool_def)
next
  case (step p q)
  then show ?case using pstep_all_ok pstep_slots pstep_closing by blast
qed

lemma pstep_max: "pstep p q \<Longrightarrow> pl_max q = pl_max p"
  by (induction rule: pstep.induct) (simp_all add: pool_add_def pool_close_def)

lemma reach_max: "reach n p \<Longrightarrow> pl_max p = nat (if n \<le> 0 then 16 else n)"
  by (induction rule: reach.induct) (simp_all add: new_pool_def pos_or_default_def default_max_dials_def pstep_max)

section \<open>Properties\<close>

text \<open>C35: The cap on dials and the closing of the pool. In every state the pool can get into, the
  connections that are dialing are exactly as many as the semaphore has elements, so no slot is
  leaked and a dial that ends can always give its slot back, and they are never more than the
  cap (16 when the cap given is not positive). Once the pool is closed, every connection it ever
  made, those added after the close included, is closed or has its \<^verbatim>\<open>Close\<close> still under way, and
  a closed connection stays closed, refuses with \<^verbatim>\<open>ErrClosed\<close> and hands out nothing.\<close>

theorem pool_bounds_dials:
  assumes "reach n p"
  shows "in_flight p = pl_used p \<and> pl_used p \<le> nat (if n \<le> 0 then 16 else n) \<and>
    (\<forall>i < length (pl_all p). pl_dead p \<longrightarrow> mg_closed (pl_all p ! i) \<or> i \<in># pl_closing p) \<and>
    (\<forall>i < length (pl_all p). mg_closed (pl_all p ! i) \<longrightarrow>
       ready_client (pl_all p ! i) = Inl Err_Closed \<and> live_client (pl_all p ! i) = None \<and>
       (\<forall>q. pstep p q \<longrightarrow> mg_closed (pl_all q ! i)))"
proof -
  note ok = reach_ok [OF assms]
  have "mg_closed (pl_all q ! i)" if i: "i < length (pl_all p)" "mg_closed (pl_all p ! i)" and "pstep p q" for i q
    using that(3)
  proof cases
    case add
    with i show ?thesis by (simp add: pool_add_def nth_append)
  next
    case shut
    with i show ?thesis by (simp add: pool_close_def)
  next
    case (close_one j)
    with i show ?thesis by (cases "j = i") (auto simp: managed_close_def close_locked_def)
  next
    case (keep j m)
    with i show ?thesis using mstep_closed by (cases "j = i") auto
  next
    case (take j m)
    with i show ?thesis using mstep_closed by (cases "j = i") auto
  next
    case (give j m)
    with i show ?thesis using mstep_closed by (cases "j = i") auto
  qed
  moreover have "live_client (pl_all p ! i) = None" if "i < length (pl_all p)" "mg_closed (pl_all p ! i)" for i
    using ok that by (auto simp: all_ok_def managed_ok_def flags_inv_def live_client_def)
  ultimately show ?thesis using ok reach_max [OF assms]
    by (auto simp: slots_ok_def closing_ok_def ready_client_def)
qed


section \<open>Runs of a single connection\<close>

definition solo :: "managed \<Rightarrow> bool" where
  "solo m \<longleftrightarrow> (\<exists>p. reach 0 p \<and> pl_all p = [m])"

lemma solo_new: "solo new_managed"
proof -
  have "reach 0 (pool_add (new_pool 0))" by (intro reach.step [OF reach.init] pstep.add)
  then show ?thesis unfolding solo_def by (intro exI [of _ "pool_add (new_pool 0)"]) (simp add: pool_add_def new_pool_def)
qed

lemma solo_step: "solo m \<Longrightarrow> mstep m s m' \<Longrightarrow> m' = m'' \<Longrightarrow> solo m''"
proof -
  assume "solo m" and st: "mstep m s m'" and eq: "m' = m''"
  then obtain p where p: "reach 0 p" "pl_all p = [m]" by (auto simp: solo_def)
  have ok: "pl_used p = (if dialing m then 1 else 0)" "pl_max p = 16" "pc_ok (mg_pc m)"
    using reach_ok [OF p(1)] reach_max [OF p(1)] by (simp_all add: p(2) slots_ok_def in_flight_def all_ok_def managed_ok_def)
  have i: "0 < length (pl_all p)" "pl_all p ! 0 = m" by (simp_all add: p(2))
  note d = mstep_dialing [OF st ok(3)]
  have "\<exists>q. pstep p q \<and> pl_all q = [m']"
  proof (cases s)
    case Keep
    with st i pstep.keep [of 0 p m'] p(2) show ?thesis by auto
  next
    case Take
    with st i pstep.take [of 0 p m'] p(2) ok d show ?thesis by auto
  next
    case Give
    with st i pstep.give [of 0 p m'] p(2) ok d show ?thesis by auto
  qed
  then show "solo m''" using p(1) reach.step eq unfolding solo_def by blast
qed

text \<open>The first dial succeeds.\<close>

definition up_once :: managed where
  "up_once = new_managed\<lparr>mg_pc := M_Serve 1, mg_state := Ready, mg_client := Some 1, mg_seen := {1},
     mg_log := [(Ready, None)]\<rparr>"

lemma solo_up_once: "solo up_once"
proof -
  have 1: "solo (new_managed\<lparr>mg_pc := M_Dial\<rparr>)"
    by (rule solo_step [OF solo_new mstep.acquire]) (simp_all add: new_managed_def)
  have 2: "solo (new_managed\<lparr>mg_pc := M_Drain 1, mg_seen := {1}\<rparr>)"
    by (rule solo_step [OF 1 mstep.dial_ok [where c = 1]]) (simp_all add: new_managed_def)
  have 3: "solo (new_managed\<lparr>mg_pc := M_Up 1, mg_seen := {1}\<rparr>)"
    by (rule solo_step [OF 2 mstep.drain [where c = 1]]) (simp_all add: new_managed_def)
  have 4: "solo (new_managed\<lparr>mg_pc := M_Notify Ready None (M_Serve 1), mg_state := Ready, mg_client := Some 1, mg_seen := {1}\<rparr>)"
    by (rule solo_step [OF 3 mstep.up [where c = 1]]) (simp_all add: new_managed_def set_locked_def)
  show ?thesis
    by (rule solo_step [OF 4 mstep.notify [where st = Ready and err = None and k = "M_Serve 1"]])
      (simp_all add: new_managed_def up_once_def)
qed

lemma pool_bounds_dials_witness:
  "\<exists>p. reach 0 p \<and> pl_dead p \<and> pl_all p = [up_once] \<and> 0 \<in># pl_closing p \<and> in_flight p = 0"
proof -
  obtain p where p: "reach 0 p" "pl_all p = [up_once]" using solo_up_once by (auto simp: solo_def)
  have q: "reach 0 (pool_close p)" by (rule reach.step [OF p(1) pstep.shut])
  have a: "pl_all (pool_close p) = [up_once]" "pl_dead (pool_close p)" using p(2) by (simp_all add: pool_close_def)
  have "\<not> mg_closed up_once" by (simp add: up_once_def new_managed_def)
  moreover have "in_flight (pool_close p) = 0"
    by (simp add: in_flight_def a dialing_def up_once_def)
  ultimately show ?thesis using pool_bounds_dials [OF q] q a by force
qed


section \<open>A stale redial request\<close>

text \<open>
  A caller that found the connection dead records it under the lock and sends the redial request
  after releasing it. If the loop meanwhile notices the failure by itself and reconnects, the
  request arrives after the drain and brings down the healthy successor, with no error to report.
\<close>

definition stale_end :: managed where
  "stale_end = new_managed\<lparr>mg_pc := M_Clear 2 True, mg_state := Broken, mg_client := Some 2, mg_seen := {1, 2},
     mg_torn := {1, 2}, mg_log := [(Ready, None), (Broken, Some Exit_Missing), (Ready, None), (Broken, None)]\<rparr>"

lemma stale_token: "solo stale_end"
proof -
  let ?e = "Other_Error ''reset''" and ?x = Exit_Missing
  have fatal: "fatal_conn_err (Some ?e)" by (simp add: fatal_conn_err_def err_has_def err_find.simps is_exit_def)
  have 1: "solo (up_once\<lparr>mg_callers := {#K_Run 1#}\<rparr>)"
    by (rule solo_step [OF solo_up_once mstep.call [where c = 1]])
      (simp_all add: ready_client_def up_once_def new_managed_def)
  have 2: "solo (up_once\<lparr>mg_callers := {#K_Failed 1 ?e#}\<rparr>)"
    by (rule solo_step [OF 1 mstep.call_failed [where c = 1 and e = ?e]])
      (simp_all add: fatal up_once_def new_managed_def)
  have 3: "solo (up_once\<lparr>mg_callers := {#K_Send#}, mg_state := Broken, mg_err := Some ?e\<rparr>)"
    by (rule solo_step [OF 2 mstep.signal [where c = 1 and e = ?e]])
      (simp_all add: signal_locked_def Let_def up_once_def new_managed_def)
  have 4: "solo (up_once\<lparr>mg_callers := {#K_Send#}, mg_state := Broken, mg_err := Some ?e, mg_pc := M_Down 1 (Some ?x)\<rparr>)"
    by (rule solo_step [OF 3 mstep.serve_ping_failed [where c = 1 and e = ?x]])
      (simp_all add: up_once_def new_managed_def)
  have 5: "solo (up_once\<lparr>mg_callers := {#K_Send#}, mg_state := Broken, mg_err := Some ?x,
      mg_pc := M_Notify Broken (Some ?x) (M_Close 1 True)\<rparr>)"
    by (rule solo_step [OF 4 mstep.down [where c = 1 and err = "Some ?x"]])
      (simp_all add: up_once_def new_managed_def set_locked_def)
  have 6: "solo (up_once\<lparr>mg_callers := {#K_Send#}, mg_state := Broken, mg_err := Some ?x,
      mg_log := [(Ready, None), (Broken, Some ?x)], mg_pc := M_Close 1 True\<rparr>)"
    by (rule solo_step [OF 5 mstep.notify [where st = Broken and err = "Some ?x" and k = "M_Close 1 True"]])
      (simp_all add: up_once_def new_managed_def)
  have 7: "solo (up_once\<lparr>mg_callers := {#K_Send#}, mg_state := Broken, mg_err := Some ?x,
      mg_log := [(Ready, None), (Broken, Some ?x)], mg_torn := {1}, mg_pc := M_Clear 1 True\<rparr>)"
    by (rule solo_step [OF 6 mstep.torn [where c = 1 and redial = True]]) (simp_all add: up_once_def new_managed_def)
  have 8: "solo (up_once\<lparr>mg_callers := {#K_Send#}, mg_state := Broken, mg_err := Some ?x, mg_client := None,
      mg_log := [(Ready, None), (Broken, Some ?x)], mg_torn := {1}, mg_pc := M_Acquire\<rparr>)"
    by (rule solo_step [OF 7 mstep.clear [where c = 1 and redial = True]])
      (simp_all add: up_once_def new_managed_def clear_client_def)
  have 9: "solo (up_once\<lparr>mg_callers := {#K_Send#}, mg_state := Broken, mg_err := Some ?x, mg_client := None,
      mg_log := [(Ready, None), (Broken, Some ?x)], mg_torn := {1}, mg_pc := M_Dial\<rparr>)"
    by (rule solo_step [OF 8 mstep.acquire]) (simp_all add: up_once_def new_managed_def)
  have 10: "solo (up_once\<lparr>mg_callers := {#K_Send#}, mg_state := Broken, mg_err := Some ?x, mg_client := None,
      mg_log := [(Ready, None), (Broken, Some ?x)], mg_torn := {1}, mg_seen := {1, 2}, mg_pc := M_Drain 2\<rparr>)"
    by (rule solo_step [OF 9 mstep.dial_ok [where c = 2]]) (auto simp add: up_once_def new_managed_def)
  have 11: "solo (up_once\<lparr>mg_callers := {#K_Send#}, mg_state := Broken, mg_err := Some ?x, mg_client := None,
      mg_log := [(Ready, None), (Broken, Some ?x)], mg_torn := {1}, mg_seen := {1, 2}, mg_pc := M_Up 2\<rparr>)"
    by (rule solo_step [OF 10 mstep.drain [where c = 2]]) (simp_all add: up_once_def new_managed_def)
  have 12: "solo (up_once\<lparr>mg_callers := {#K_Send#}, mg_client := Some 2, mg_log := [(Ready, None), (Broken, Some ?x)],
      mg_torn := {1}, mg_seen := {1, 2}, mg_pc := M_Notify Ready None (M_Serve 2)\<rparr>)"
    by (rule solo_step [OF 11 mstep.up [where c = 2]]) (simp_all add: up_once_def new_managed_def set_locked_def)
  have 13: "solo (up_once\<lparr>mg_callers := {#K_Send#}, mg_client := Some 2,
      mg_log := [(Ready, None), (Broken, Some ?x), (Ready, None)], mg_torn := {1}, mg_seen := {1, 2}, mg_pc := M_Serve 2\<rparr>)"
    by (rule solo_step [OF 12 mstep.notify [where st = Ready and err = None and k = "M_Serve 2"]])
      (simp_all add: up_once_def new_managed_def)
  have 14: "solo (up_once\<lparr>mg_token := True, mg_client := Some 2,
      mg_log := [(Ready, None), (Broken, Some ?x), (Ready, None)], mg_torn := {1}, mg_seen := {1, 2}, mg_pc := M_Serve 2\<rparr>)"
    by (rule solo_step [OF 13 mstep.send]) (simp_all add: up_once_def new_managed_def)
  have 15: "solo (up_once\<lparr>mg_client := Some 2, mg_log := [(Ready, None), (Broken, Some ?x), (Ready, None)],
      mg_torn := {1}, mg_seen := {1, 2}, mg_pc := M_Token 2\<rparr>)"
    by (rule solo_step [OF 14 mstep.serve_token [where c = 2]]) (simp_all add: up_once_def new_managed_def)
  have 16: "solo (up_once\<lparr>mg_client := Some 2, mg_log := [(Ready, None), (Broken, Some ?x), (Ready, None)],
      mg_torn := {1}, mg_seen := {1, 2}, mg_pc := M_Down 2 None\<rparr>)"
    by (rule solo_step [OF 15 mstep.token_err [where c = 2]]) (simp_all add: up_once_def new_managed_def)
  have 17: "solo (up_once\<lparr>mg_state := Broken, mg_client := Some 2,
      mg_log := [(Ready, None), (Broken, Some ?x), (Ready, None)], mg_torn := {1}, mg_seen := {1, 2},
      mg_pc := M_Notify Broken None (M_Close 2 True)\<rparr>)"
    by (rule solo_step [OF 16 mstep.down [where c = 2 and err = None]])
      (simp_all add: up_once_def new_managed_def set_locked_def)
  have 18: "solo (up_once\<lparr>mg_state := Broken, mg_client := Some 2,
      mg_log := [(Ready, None), (Broken, Some ?x), (Ready, None), (Broken, None)], mg_torn := {1}, mg_seen := {1, 2},
      mg_pc := M_Close 2 True\<rparr>)"
    by (rule solo_step [OF 17 mstep.notify [where st = Broken and err = None and k = "M_Close 2 True"]])
      (simp_all add: up_once_def new_managed_def)
  show ?thesis
    by (rule solo_step [OF 18 mstep.torn [where c = 2 and redial = True]])
      (auto simp add: up_once_def new_managed_def stale_end_def)
qed

section \<open>Backoff\<close>

definition backoff_base :: duration where "backoff_base = 500000000"
definition backoff_cap :: duration where "backoff_cap = 30000000000"

definition backoff :: "duration \<Rightarrow> duration \<Rightarrow> (int \<Rightarrow> int) \<Rightarrow> int \<Rightarrow> duration option" where
  \<comment> \<open>\<open>rnd n\<close> is \<^verbatim>\<open>rand.Int64N(n)\<close>, which panics (\<open>None\<close>) unless \<open>n\<close> is positive\<close>
  "backoff base max_delay rnd attempt =
     (let attempt = max attempt 1;
          shift = min (attempt - 1) 6;
          d = wrap64 (base * 2 ^ nat shift);
          d = (if max_delay < d \<or> d \<le> 0 then max_delay else d)
      in if d \<le> 0 then None else Some (rnd d + 1))"

text \<open>The delay is positive and within the cap, whatever the attempt; a shift that overflows falls back to the cap.\<close>

lemma backoff_bounds:
  assumes "0 < max_delay" "\<And>n. 0 < n \<Longrightarrow> 0 \<le> rnd n \<and> rnd n < n"
  shows "\<exists>d. backoff base max_delay rnd attempt = Some d \<and> 0 < d \<and> d \<le> max_delay"
proof -
  let ?d = "wrap64 (base * 2 ^ nat (min (max attempt 1 - 1) 6))"
  let ?e = "if max_delay < ?d \<or> ?d \<le> 0 then max_delay else ?d"
  have e: "0 < ?e" "?e \<le> max_delay" using assms(1) by auto
  with assms(2) [OF e(1)] show ?thesis by (auto simp: backoff_def Let_def)
qed

lemma backoff_grows:
  "map (backoff backoff_base backoff_cap (\<lambda>n. n - 1)) [0, 1, 2, 3, 4, 5, 6, 7, 8, 1000] =
   map (\<lambda>s. Some (s * 500000000)) [1, 1, 2, 4, 8, 16, 32, 60, 60, 60]"
  by code_simp

end
