(* ===== verification/CliFlags.thy ===== *)
theory CliFlags
  imports GoStrings GoRunes "HOL-Library.AList" "HOL-Library.Char_ord" "HOL-Library.List_Lexorder"
begin

text \<open>
  The flags of \<^verbatim>\<open>src/cli\<close>: flag sets and their typed declarations and list values
  (\<^verbatim>\<open>flags.go\<close>), the struct binding (\<^verbatim>\<open>bind.go\<close>), environment names (\<^verbatim>\<open>dispatch.go\<close>) and dotenv files
  (\<^verbatim>\<open>dotenv.go\<close>). A flag is its \<open>flag_decl\<close>: the current value and the \<^verbatim>\<open>Set\<close> and \<^verbatim>\<open>String\<close> of
  its \<^verbatim>\<open>flag.Value\<close>. \<open>None\<close> is a panic at declaration. Number, duration and prefix parsers of the
  standard library are fields of \<open>value_ops\<close>.
\<close>

section \<open>Flag sets\<close>

record 'v flag_decl =
  fd_usage :: string
  fd_type_name :: string  \<comment> \<open>what \<^verbatim>\<open>flag.UnquoteUsage\<close> calls the value\<close>
  fd_default :: string  \<comment> \<open>\<^verbatim>\<open>DefValue\<close>\<close>
  fd_zero :: bool
  fd_bool :: bool  \<comment> \<open>\<^verbatim>\<open>IsBoolFlag\<close>\<close>
  fd_set :: "'v \<Rightarrow> string \<Rightarrow> string + 'v"
  fd_string :: "'v \<Rightarrow> string"
  fd_value :: 'v

record 'v flag_set =
  fs_flags :: "(string \<times> 'v flag_decl) list"
  fs_secret :: "string list"
  fs_required :: "string list"

definition new_flag_set :: "'v flag_set" where
  "new_flag_set = \<lparr>fs_flags = [], fs_secret = [], fs_required = []\<rparr>"

definition lookup_flag :: "'v flag_set \<Rightarrow> string \<Rightarrow> 'v flag_decl option" where
  "lookup_flag fs name = map_of (fs_flags fs) name"

definition declare_flag :: "string \<Rightarrow> 'v flag_decl \<Rightarrow> 'v flag_set \<Rightarrow> 'v flag_set option" where
  \<comment> \<open>\<^verbatim>\<open>flag.FlagSet.Var\<close>, which panics on a name that starts with a dash, contains an equals sign or is taken\<close>
  "declare_flag name d fs =
     (if has_prefix name ''-'' \<or> CHR ''='' \<in> set name \<or> lookup_flag fs name \<noteq> None then None
      else Some (fs\<lparr>fs_flags := fs_flags fs @ [(name, d)]\<rparr>))"

definition mark_secret :: "string \<Rightarrow> 'v flag_set \<Rightarrow> 'v flag_set option" where
  "mark_secret name fs =
     (if lookup_flag fs name = None then None else Some (fs\<lparr>fs_secret := List.insert name (fs_secret fs)\<rparr>))"

definition mark_required :: "string \<Rightarrow> 'v flag_set \<Rightarrow> 'v flag_set option" where
  "mark_required name fs =
     (case lookup_flag fs name of
        None \<Rightarrow> None
      | Some d \<Rightarrow> if \<not> fd_zero d then None else Some (fs\<lparr>fs_required := List.insert name (fs_required fs)\<rparr>))"

definition visit_all :: "'v flag_set \<Rightarrow> (string \<times> 'v flag_decl) list" where
  \<comment> \<open>\<^verbatim>\<open>VisitAll\<close>: in lexicographical order\<close>
  "visit_all fs = sort_key fst (fs_flags fs)"

section \<open>List values\<close>

definition split_list :: "string \<Rightarrow> string list option" where
  \<comment> \<open>\<open>None\<close> is \<^verbatim>\<open>errEmptyListEntry\<close>\<close>
  "split_list s =
     (if trim_space s = [] then Some []
      else let entries = map trim_space (split_on (CHR '','') s)
           in if [] \<in> set entries then None else Some entries)"

section \<open>Typed values\<close>

datatype ('f, 'p, 'c) fval =
    V_String string | V_Bool bool | V_Int int | V_Int64 int | V_Float 'f | V_Duration int
  | V_List "string list" | V_Prefixes "'p list" | V_Custom 'c

text \<open>
  The parsers: \<open>vo_int0\<close> is \<^verbatim>\<open>strconv.ParseInt(s, 0, 64)\<close> as \<^verbatim>\<open>flag\<close> uses it. A custom \<^verbatim>\<open>flag.Value\<close> brings
  its own \<^verbatim>\<open>Set\<close> and \<^verbatim>\<open>String\<close>. An error is its text.
\<close>

record ('f, 'p, 'c) value_ops =
  vo_int0 :: "string \<Rightarrow> string + int"
  vo_float :: "string \<Rightarrow> string + 'f"
  vo_duration :: "string \<Rightarrow> string + int"
  vo_prefix :: "string \<Rightarrow> string + 'p"
  vo_custom :: "'c \<Rightarrow> string \<Rightarrow> string + 'c"
  vo_format_float :: "'f \<Rightarrow> string"
  vo_format_duration :: "int \<Rightarrow> string"
  vo_format_prefix :: "'p \<Rightarrow> string"
  vo_format_custom :: "'c \<Rightarrow> string"

definition parse_bool :: "string \<Rightarrow> bool option" where
  \<comment> \<open>\<^verbatim>\<open>strconv.ParseBool\<close>\<close>
  "parse_bool s =
     (if s \<in> {''1'', ''t'', ''T'', ''TRUE'', ''true'', ''True''} then Some True
      else if s \<in> {''0'', ''f'', ''F'', ''FALSE'', ''false'', ''False''} then Some False else None)"

fun parse_prefixes :: "(string \<Rightarrow> string + 'p) \<Rightarrow> string list \<Rightarrow> string + 'p list" where
  "parse_prefixes parse [] = Inr []"
| "parse_prefixes parse (e # es) =
     (case parse e of
        Inl err \<Rightarrow> Inl err
      | Inr p \<Rightarrow> (case parse_prefixes parse es of Inl err \<Rightarrow> Inl err | Inr ps \<Rightarrow> Inr (p # ps)))"

definition parse_error :: string where "parse_error = ''parse error''"
definition empty_entry :: string where "empty_entry = ''empty list entry''"

fun set_value :: "('f, 'p, 'c) value_ops \<Rightarrow> ('f, 'p, 'c) fval \<Rightarrow> string \<Rightarrow> string + ('f, 'p, 'c) fval" where
  \<comment> \<open>\<^verbatim>\<open>flag.Value.Set\<close> of a value of the constructor's type\<close>
  "set_value vo (V_String _) s = Inr (V_String s)"
| "set_value vo (V_Bool _) s = (case parse_bool s of None \<Rightarrow> Inl parse_error | Some b \<Rightarrow> Inr (V_Bool b))"
| "set_value vo (V_Int _) s = (case vo_int0 vo s of Inl e \<Rightarrow> Inl e | Inr n \<Rightarrow> Inr (V_Int n))"
| "set_value vo (V_Int64 _) s = (case vo_int0 vo s of Inl e \<Rightarrow> Inl e | Inr n \<Rightarrow> Inr (V_Int64 n))"
| "set_value vo (V_Float _) s = (case vo_float vo s of Inl e \<Rightarrow> Inl e | Inr x \<Rightarrow> Inr (V_Float x))"
| "set_value vo (V_Duration _) s = (case vo_duration vo s of Inl e \<Rightarrow> Inl e | Inr n \<Rightarrow> Inr (V_Duration n))"
| "set_value vo (V_List _) s = (case split_list s of None \<Rightarrow> Inl empty_entry | Some es \<Rightarrow> Inr (V_List es))"
| "set_value vo (V_Prefixes _) s =
     (case split_list s of
        None \<Rightarrow> Inl empty_entry
      | Some es \<Rightarrow> (case parse_prefixes (vo_prefix vo) es of Inl e \<Rightarrow> Inl e | Inr ps \<Rightarrow> Inr (V_Prefixes ps)))"
| "set_value vo (V_Custom c) s = (case vo_custom vo c s of Inl e \<Rightarrow> Inl e | Inr c' \<Rightarrow> Inr (V_Custom c'))"

fun show_value :: "('f, 'p, 'c) value_ops \<Rightarrow> ('f, 'p, 'c) fval \<Rightarrow> string" where
  "show_value vo (V_String s) = s"
| "show_value vo (V_Bool b) = (if b then ''true'' else ''false'')"
| "show_value vo (V_Int n) = format_int n"
| "show_value vo (V_Int64 n) = format_int n"
| "show_value vo (V_Float x) = vo_format_float vo x"
| "show_value vo (V_Duration n) = vo_format_duration vo n"
| "show_value vo (V_List es) = join '','' es"
| "show_value vo (V_Prefixes ps) = join '','' (map (vo_format_prefix vo) ps)"
| "show_value vo (V_Custom c) = vo_format_custom vo c"

fun type_name :: "('f, 'p, 'c) fval \<Rightarrow> string" where
  "type_name (V_String _) = ''string''"
| "type_name (V_Bool _) = []"
| "type_name (V_Int _) = ''int''"
| "type_name (V_Int64 _) = ''int''"
| "type_name (V_Float _) = ''float''"
| "type_name (V_Duration _) = ''duration''"
| "type_name _ = ''value''"

definition is_zero_value :: "('f::zero, 'p, 'c) value_ops \<Rightarrow> ('f, 'p, 'c) fval \<Rightarrow> bool" where
  "is_zero_value vo v =
     (case v of
        V_String s \<Rightarrow> s = [] | V_Bool b \<Rightarrow> \<not> b | V_Int n \<Rightarrow> n = 0 | V_Int64 n \<Rightarrow> n = 0
      | V_Float x \<Rightarrow> x = 0 | V_Duration n \<Rightarrow> n = 0 | _ \<Rightarrow> show_value vo v = [])"

definition typed_flag :: "('f::zero, 'p, 'c) value_ops \<Rightarrow> ('f, 'p, 'c) fval \<Rightarrow> string \<Rightarrow> ('f, 'p, 'c) fval flag_decl" where
  \<comment> \<open>\<^verbatim>\<open>StringVar\<close>, \<^verbatim>\<open>BoolVar\<close>, \<^verbatim>\<open>IntVar\<close>, \<dots>, \<^verbatim>\<open>StringListVar\<close>, \<^verbatim>\<open>PrefixListVar\<close>, \<^verbatim>\<open>Var\<close>\<close>
  "typed_flag vo v usage =
     \<lparr>fd_usage = usage, fd_type_name = type_name v, fd_default = show_value vo v, fd_zero = is_zero_value vo v,
      fd_bool = (case v of V_Bool _ \<Rightarrow> True | _ \<Rightarrow> False), fd_set = set_value vo, fd_string = show_value vo,
      fd_value = v\<rparr>"

section \<open>Struct binding\<close>

datatype ('f, 'p, 'c) bind_field =
  Bind_Field (bf_name: string) (bf_exported: bool) (bf_cli: "string option") (bf_default: "string option")
    (bf_usage: string) (bf_shape: "('f, 'p, 'c) bind_shape")
and ('f, 'p, 'c) bind_shape =
    B_Leaf "('f, 'p, 'c) fval"  \<comment> \<open>of a supported type, with its current value\<close>
  | B_Other  \<comment> \<open>of another type\<close>
  | B_Struct bool "('f, 'p, 'c) bind_field list"
      \<comment> \<open>a struct whose pointer is no \<^verbatim>\<open>flag.Value\<close>, and whether it is a \<^verbatim>\<open>TextUnmarshaler\<close>\<close>

record bind_tag =
  bt_name :: string
  bt_secret :: bool
  bt_required :: bool

lemma cut_shorter: "(opt, opts', found) = cut c opts \<Longrightarrow> opts \<noteq> [] \<Longrightarrow> length opts' < length opts"
proof -
  assume "(opt, opts', found) = cut c opts" "opts \<noteq> []"
  then have "length opts' = length (dropWhile (\<lambda>x. x \<noteq> c) opts) - 1" "0 < length opts" by (auto simp: cut_def)
  moreover have "length (dropWhile (\<lambda>x. x \<noteq> c) opts) \<le> length opts" by (rule length_dropWhile_le)
  ultimately show ?thesis by linarith
qed

function bind_options :: "string \<Rightarrow> bind_tag \<Rightarrow> bind_tag option" where
  "bind_options opts tag =
     (if opts = [] then Some tag
      else case cut (CHR '','') opts of
        (opt, opts', found) \<Rightarrow>
          if opt = ''secret'' then bind_options opts' (tag\<lparr>bt_secret := True\<rparr>)
          else if opt = ''required'' then bind_options opts' (tag\<lparr>bt_required := True\<rparr>)
          else None)"
  by pat_completeness auto
termination
  by (relation "measure (\<lambda>(opts, tag). length opts)") (auto intro: cut_shorter)

declare bind_options.simps [simp del]

text \<open>Unicode's classes and lower case, as \<^verbatim>\<open>kebab\<close> uses them.\<close>

record rune_ops =
  ro_upper :: "nat \<Rightarrow> bool"
  ro_lower :: "nat \<Rightarrow> bool"
  ro_to_lower :: "nat \<Rightarrow> nat"

definition kebab :: "rune_ops \<Rightarrow> string \<Rightarrow> string" where
  "kebab ro field =
     (let r = runes field in
      concat (map (\<lambda>i.
        if ro_upper ro (r ! i) then
          (if 0 < i \<and> (ro_lower ro (r ! (i - 1)) \<or> (i + 1 < length r \<and> ro_lower ro (r ! (i + 1)))) then ''-'' else [])
            @ encode_rune (ro_to_lower ro (r ! i))
        else encode_rune (r ! i)) [0 ..< length r]))"

definition parse_bind_tag :: "rune_ops \<Rightarrow> string \<Rightarrow> string option \<Rightarrow> bind_tag option" where
  "parse_bind_tag ro field_name tag =
     (case cut (CHR '','') (case tag of None \<Rightarrow> [] | Some t \<Rightarrow> t) of
        (name, opts, found) \<Rightarrow>
          bind_options opts
            \<lparr>bt_name = (if name = [] then kebab ro field_name else name), bt_secret = False, bt_required = False\<rparr>)"

definition is_section :: "string option \<Rightarrow> ('f, 'p, 'c) bind_shape \<Rightarrow> bool" where
  "is_section tag shape \<longleftrightarrow> (case shape of B_Struct text members \<Rightarrow> tag = None \<and> \<not> text | _ \<Rightarrow> False)"

fun apply_default :: "('f, 'p, 'c) value_ops \<Rightarrow> ('f, 'p, 'c) fval \<Rightarrow> string \<Rightarrow> ('f, 'p, 'c) fval option" where
  "apply_default vo (V_Int n) s = map_option V_Int (parse_int64 s)"
| "apply_default vo (V_Int64 n) s = map_option V_Int64 (parse_int64 s)"
| "apply_default vo v s = (case set_value vo v s of Inl e \<Rightarrow> None | Inr v' \<Rightarrow> Some v')"

definition declare_field :: "('f::zero, 'p, 'c) value_ops \<Rightarrow> ('f, 'p, 'c) bind_shape \<Rightarrow> string \<Rightarrow> string option \<Rightarrow> string \<Rightarrow>
    ('f, 'p, 'c) fval flag_set \<Rightarrow> ('f, 'p, 'c) fval flag_set option" where
  "declare_field vo shape name def usage fs =
     (if lookup_flag fs name \<noteq> None then None
      else case shape of
        B_Leaf v \<Rightarrow>
          (case (case def of None \<Rightarrow> Some v | Some d \<Rightarrow> apply_default vo v d) of
             None \<Rightarrow> None
           | Some v' \<Rightarrow> declare_flag name (typed_flag vo v' usage) fs)
      | _ \<Rightarrow> None)"

definition bind_leaf :: "rune_ops \<Rightarrow> ('f::zero, 'p, 'c) value_ops \<Rightarrow> string \<Rightarrow> string option \<Rightarrow> string option \<Rightarrow> string \<Rightarrow>
    ('f, 'p, 'c) bind_shape \<Rightarrow> ('f, 'p, 'c) fval flag_set \<Rightarrow> ('f, 'p, 'c) fval flag_set option" where
  "bind_leaf ro vo name cli def usage shape fs =
     (case parse_bind_tag ro name cli of
        None \<Rightarrow> None
      | Some tag \<Rightarrow>
          if bt_name tag = ''-'' then Some fs
          else if def \<noteq> None \<and> bt_required tag then None
          else (case declare_field vo shape (bt_name tag) def usage fs of
            None \<Rightarrow> None
          | Some fs1 \<Rightarrow>
              (case (if bt_secret tag then mark_secret (bt_name tag) fs1 else Some fs1) of
                 None \<Rightarrow> None
               | Some fs2 \<Rightarrow> if bt_required tag then mark_required (bt_name tag) fs2 else Some fs2)))"

fun bind_one :: "rune_ops \<Rightarrow> ('f::zero, 'p, 'c) value_ops \<Rightarrow> ('f, 'p, 'c) bind_field \<Rightarrow> ('f, 'p, 'c) fval flag_set \<Rightarrow>
    ('f, 'p, 'c) fval flag_set option"
  and bind_struct :: "rune_ops \<Rightarrow> ('f, 'p, 'c) value_ops \<Rightarrow> ('f, 'p, 'c) bind_field list \<Rightarrow> ('f, 'p, 'c) fval flag_set \<Rightarrow>
    ('f, 'p, 'c) fval flag_set option" where
  "bind_one ro vo (Bind_Field name exported cli def usage (B_Struct text members)) fs =
     (if \<not> exported then Some fs
      else if is_section cli (B_Struct text members) then bind_struct ro vo members fs
      else bind_leaf ro vo name cli def usage (B_Struct text members) fs)"
| "bind_one ro vo (Bind_Field name exported cli def usage shape) fs =
     (if \<not> exported then Some fs else bind_leaf ro vo name cli def usage shape fs)"
| "bind_struct ro vo [] fs = Some fs"
| "bind_struct ro vo (f # members) fs =
     (case bind_one ro vo f fs of None \<Rightarrow> None | Some fs' \<Rightarrow> bind_struct ro vo members fs')"

section \<open>Environment names\<close>

definition env_map :: "string \<Rightarrow> string" where
  "env_map s =
     map (\<lambda>r. if 97 \<le> r \<and> r \<le> 122 then char_of (r - 32)
              else if 65 \<le> r \<and> r \<le> 90 \<or> 48 \<le> r \<and> r \<le> 57 then char_of r
              else CHR ''_'') (runes s)"

definition env_name :: "string \<Rightarrow> string \<Rightarrow> string" where
  "env_name prefix flag_name = (if prefix = [] then env_map flag_name else prefix @ ''_'' @ env_map flag_name)"

definition no_prefix :: string where "no_prefix = ''-''"

definition env_prefix :: "string \<Rightarrow> string \<Rightarrow> string" where
  \<comment> \<open>of the root's \<^verbatim>\<open>Name\<close> and \<^verbatim>\<open>EnvPrefix\<close>\<close>
  "env_prefix name prefix =
     (if prefix = no_prefix then [] else if prefix = [] then env_map name else env_map prefix)"

section \<open>Dotenv files\<close>

type_synonym env = "string \<rightharpoonup> string"

definition set_env :: "string \<Rightarrow> string \<Rightarrow> env \<Rightarrow> env option" where
  \<comment> \<open>\<^verbatim>\<open>os.Setenv\<close>\<close>
  "set_env key value e =
     (if key = [] \<or> CHR ''='' \<in> set key \<or> CHR 0x00 \<in> set key \<or> CHR 0x00 \<in> set value then None
      else Some (e(key \<mapsto> value)))"

definition unquote :: "string \<Rightarrow> string" where
  "unquote value =
     (if 2 \<le> length value \<and> (hd value = CHR 0x22 \<or> hd value = CHR 0x27) \<and> last value = hd value
      then butlast (tl value) else value)"

datatype dotenv_line = Blank | Bad_Line | Setting string string

definition parse_dotenv_line :: "string \<Rightarrow> dotenv_line" where
  "parse_dotenv_line line =
     (let trimmed = trim_space (trim_right_char CR line) in
      if trimmed = [] \<or> has_prefix trimmed ''#'' then Blank
      else case cut (CHR ''='') trimmed of
        (k, v, found) \<Rightarrow>
          (let key = trim_space k; value = unquote (trim_space v) in
           if \<not> found \<or> key = [] \<or> list_ex is_space_rune (runes key) \<or> CHR 0x00 \<in> set value then Bad_Line
           else Setting key value))"

fun load_lines :: "nat \<Rightarrow> string list \<Rightarrow> env \<Rightarrow> nat option \<times> env" where
  \<comment> \<open>the number of the line that failed, if one did\<close>
  "load_lines n [] e = (None, e)"
| "load_lines n (line # ls) e =
     (case parse_dotenv_line line of
        Blank \<Rightarrow> load_lines (n + 1) ls e
      | Bad_Line \<Rightarrow> (Some n, e)
      | Setting key value \<Rightarrow>
          if e key \<noteq> None then load_lines (n + 1) ls e
          else (case set_env key value e of None \<Rightarrow> (Some n, e) | Some e' \<Rightarrow> load_lines (n + 1) ls e'))"

definition load_dotenv :: "string + string \<Rightarrow> env \<Rightarrow> (string + nat) option \<times> env" where
  \<comment> \<open>of what reading the file gives; the error is that of the read, or a line number\<close>
  "load_dotenv file_data e =
     (case file_data of
        Inl err \<Rightarrow> (Some (Inl err), e)
      | Inr data \<Rightarrow>
          (case load_lines 1 (split_on LF (trim_prefix data [CHR 0xEF, CHR 0xBB, CHR 0xBF])) e of
             (err, e') \<Rightarrow> (map_option Inr err, e')))"

text \<open>The environment wins over the file, and the first line of a key over a later one.\<close>

fun settings :: "string list \<Rightarrow> (string \<times> string) list" where
  "settings [] = []"
| "settings (line # ls) =
     (case parse_dotenv_line line of Setting key value \<Rightarrow> (key, value) # settings ls | _ \<Rightarrow> settings ls)"

lemma load_lines_env:
  "load_lines n ls e = (None, e') \<Longrightarrow> e' k = (case e k of Some v \<Rightarrow> Some v | None \<Rightarrow> map_of (settings ls) k)"
proof (induction n ls e rule: load_lines.induct)
  case (2 n line ls e)
  note step = 2
  show ?case
  proof (cases "parse_dotenv_line line")
    case (Setting key val)
    show ?thesis
    proof (cases "e key")
      case None
      with 2 Setting obtain e1 where "set_env key val e = Some e1" "load_lines (n + 1) ls e1 = (None, e')"
        by (auto split: option.splits)
      moreover from this(1) have "e1 = e(key \<mapsto> val)" by (auto simp: set_env_def split: if_splits)
      ultimately show ?thesis using 2(3) Setting None by (auto split: option.splits if_splits)
    qed (use step Setting in \<open>auto split: option.splits\<close>)
  qed (use step in \<open>auto split: option.splits\<close>)
qed (simp split: option.splits)

lemma load_lines_keeps: "load_lines n ls e = (err, e') \<Longrightarrow> e k = Some v \<Longrightarrow> e' k = Some v"
proof (induction n ls e rule: load_lines.induct)
  case (2 n line ls e)
  note step = 2
  show ?case
  proof (cases "parse_dotenv_line line")
    case (Setting key val)
    show ?thesis
    proof (cases "e key = None \<and> set_env key val e \<noteq> None")
      case True
      then obtain e1 where e1: "set_env key val e = Some e1" by auto
      then have "e1 k = Some v" using True step(5) by (auto simp: set_env_def split: if_splits)
      with 2 Setting True e1 show ?thesis by auto
    qed (use step Setting in \<open>auto split: if_splits\<close>)
  qed (use step in auto)
qed simp

lemma load_dotenv_keeps: "load_dotenv d e = (err, e') \<Longrightarrow> e k = Some v \<Longrightarrow> e' k = Some v"
  by (auto simp: load_dotenv_def split: sum.splits prod.splits intro: load_lines_keeps)

section \<open>Well-formed flag sets\<close>

definition flag_set_ok :: "'v flag_set \<Rightarrow> bool" where
  "flag_set_ok fs \<longleftrightarrow> distinct (map fst (fs_flags fs)) \<and>
     list_all (\<lambda>n. lookup_flag fs n \<noteq> None) (fs_secret fs) \<and>
     list_all (\<lambda>n. \<exists>d. lookup_flag fs n = Some d \<and> fd_zero d) (fs_required fs)"

lemma new_flag_set_ok: "flag_set_ok new_flag_set"
  by (simp add: flag_set_ok_def new_flag_set_def)

lemma lookup_declared:
  "declare_flag n d fs = Some fs' \<Longrightarrow>
   lookup_flag fs' m = (if m = n then Some d else lookup_flag fs m) \<and> fs_secret fs' = fs_secret fs \<and> fs_required fs' = fs_required fs"
  by (auto simp: declare_flag_def lookup_flag_def map_add_def split: if_splits option.splits)

lemma declare_flag_ok: "declare_flag n d fs = Some fs' \<Longrightarrow> flag_set_ok fs \<Longrightarrow> flag_set_ok fs'"
proof -
  assume a: "declare_flag n d fs = Some fs'" and ok: "flag_set_ok fs"
  note l = lookup_declared [OF a]
  have new: "lookup_flag fs n = None" and f: "fs_flags fs' = fs_flags fs @ [(n, d)]"
    using a by (auto simp: declare_flag_def split: if_splits)
  have "distinct (map fst (fs_flags fs'))"
    using ok new by (auto simp: f flag_set_ok_def lookup_flag_def map_of_eq_None_iff)
  with ok l new show ?thesis by (auto simp: flag_set_ok_def list_all_iff)
qed

lemma mark_secret_ok: "mark_secret n fs = Some fs' \<Longrightarrow> flag_set_ok fs \<Longrightarrow> flag_set_ok fs'"
  by (auto simp: mark_secret_def flag_set_ok_def lookup_flag_def list_all_iff split: if_splits)

lemma mark_required_ok: "mark_required n fs = Some fs' \<Longrightarrow> flag_set_ok fs \<Longrightarrow> flag_set_ok fs'"
  by (auto simp: mark_required_def flag_set_ok_def lookup_flag_def list_all_iff split: if_splits option.splits)

lemma declare_field_ok: "declare_field vo shape n def usage fs = Some fs' \<Longrightarrow> flag_set_ok fs \<Longrightarrow> flag_set_ok fs'"
  by (auto simp: declare_field_def intro: declare_flag_ok split: if_splits option.splits bind_shape.splits)

lemma bind_leaf_ok: "bind_leaf ro vo n cli def usage shape fs = Some fs' \<Longrightarrow> flag_set_ok fs \<Longrightarrow> flag_set_ok fs'"
  by (auto simp: bind_leaf_def split: if_splits option.splits
      dest!: declare_field_ok mark_secret_ok mark_required_ok)

lemma bind_ok:
  "bind_one ro vo f fs = Some fs' \<Longrightarrow> flag_set_ok fs \<Longrightarrow> flag_set_ok fs'"
  "bind_struct ro vo members fs = Some fs' \<Longrightarrow> flag_set_ok fs \<Longrightarrow> flag_set_ok fs'"
proof (induction ro vo f fs and ro vo members fs arbitrary: fs' and fs' rule: bind_one_bind_struct.induct)
qed (auto intro: bind_leaf_ok split: if_splits option.splits)

end
