(* ===== verification/CliBind.thy ===== *)
theory CliBind
  imports CliFlags
begin

text \<open>
  Struct binding of \<^verbatim>\<open>src/cli/bind.go\<close> against a reference: the sections of a struct are flattened to the list of
  its leaf fields, each leaf is read on its own as a flag, a field to skip or an error, and the
  flag set is written down from that list.
\<close>

section \<open>The reference\<close>

record ('f, 'p, 'c) leaf =
  lf_name :: string
  lf_cli :: "string option"
  lf_default :: "string option"
  lf_usage :: string
  lf_shape :: "('f, 'p, 'c) bind_shape"

fun leaves_one :: "('f, 'p, 'c) bind_field \<Rightarrow> ('f, 'p, 'c) leaf list"
  and leaves :: "('f, 'p, 'c) bind_field list \<Rightarrow> ('f, 'p, 'c) leaf list" where
  "leaves_one (Bind_Field name exported cli def usage (B_Struct text members)) =
     (if \<not> exported then []
      else if is_section cli (B_Struct text members) then leaves members
      else [\<lparr>lf_name = name, lf_cli = cli, lf_default = def, lf_usage = usage, lf_shape = B_Struct text members\<rparr>])"
| "leaves_one (Bind_Field name exported cli def usage shape) =
     (if \<not> exported then []
      else [\<lparr>lf_name = name, lf_cli = cli, lf_default = def, lf_usage = usage, lf_shape = shape\<rparr>])"
| "leaves [] = []"
| "leaves (f # members) = leaves_one f @ leaves members"

record ('f, 'p, 'c) bound_flag =
  bo_name :: string
  bo_decl :: "('f, 'p, 'c) fval flag_decl"
  bo_secret :: bool
  bo_required :: bool

definition name_ok :: "string \<Rightarrow> bool" where
  "name_ok n \<longleftrightarrow> \<not> has_prefix n ''-'' \<and> CHR ''='' \<notin> set n"

definition leaf_decl :: "('f::zero, 'p, 'c) value_ops \<Rightarrow> ('f, 'p, 'c) leaf \<Rightarrow> ('f, 'p, 'c) fval flag_decl option" where
  "leaf_decl vo l =
     (case lf_shape l of
        B_Leaf v \<Rightarrow>
          map_option (\<lambda>v'. typed_flag vo v' (lf_usage l))
            (case lf_default l of None \<Rightarrow> Some v | Some d \<Rightarrow> apply_default vo v d)
      | _ \<Rightarrow> None)"

definition read_leaf :: "rune_ops \<Rightarrow> ('f::zero, 'p, 'c) value_ops \<Rightarrow> ('f, 'p, 'c) leaf \<Rightarrow> ('f, 'p, 'c) bound_flag option option" where
  \<comment> \<open>\<open>None\<close> is an error, \<open>Some None\<close> a field that is skipped\<close>
  "read_leaf ro vo l =
     (case parse_bind_tag ro (lf_name l) (lf_cli l) of
        None \<Rightarrow> None
      | Some tag \<Rightarrow>
          if bt_name tag = ''-'' then Some None
          else if bt_required tag \<and> lf_default l \<noteq> None then None
          else (case leaf_decl vo l of
            None \<Rightarrow> None
          | Some d \<Rightarrow>
              if \<not> name_ok (bt_name tag) \<or> (bt_required tag \<and> \<not> fd_zero d) then None
              else Some (Some \<lparr>bo_name = bt_name tag, bo_decl = d, bo_secret = bt_secret tag, bo_required = bt_required tag\<rparr>)))"

fun read_leaves :: "rune_ops \<Rightarrow> ('f::zero, 'p, 'c) value_ops \<Rightarrow> ('f, 'p, 'c) leaf list \<Rightarrow> ('f, 'p, 'c) bound_flag list option" where
  "read_leaves ro vo [] = Some []"
| "read_leaves ro vo (l # ls) =
     (case read_leaf ro vo l of
        None \<Rightarrow> None
      | Some b \<Rightarrow> map_option (\<lambda>bs. (case b of None \<Rightarrow> bs | Some f \<Rightarrow> f # bs)) (read_leaves ro vo ls))"

definition add_bound :: "('f, 'p, 'c) bound_flag \<Rightarrow> ('f, 'p, 'c) fval flag_set \<Rightarrow> ('f, 'p, 'c) fval flag_set" where
  "add_bound b fs =
     \<lparr>fs_flags = fs_flags fs @ [(bo_name b, bo_decl b)],
      fs_secret = (if bo_secret b then List.insert (bo_name b) (fs_secret fs) else fs_secret fs),
      fs_required = (if bo_required b then List.insert (bo_name b) (fs_required fs) else fs_required fs)\<rparr>"

section \<open>One leaf\<close>

lemma declared_lookup: "lookup_flag (fs\<lparr>fs_flags := fs_flags fs @ [(n, d)]\<rparr>) n \<noteq> None"
  by (simp add: lookup_flag_def map_add_def split: option.splits)

lemma declare_field_leaf:
  "declare_field vo (lf_shape l) n (lf_default l) (lf_usage l) fs =
    (if lookup_flag fs n \<noteq> None \<or> \<not> name_ok n then None
     else map_option (\<lambda>d. fs\<lparr>fs_flags := fs_flags fs @ [(n, d)]\<rparr>) (leaf_decl vo l))"
  by (auto simp: declare_field_def declare_flag_def leaf_decl_def name_ok_def split: bind_shape.split option.split)

lemma bind_leaf_read:
  "bind_leaf ro vo (lf_name l) (lf_cli l) (lf_default l) (lf_usage l) (lf_shape l) fs =
    (case read_leaf ro vo l of
       None \<Rightarrow> None
     | Some None \<Rightarrow> Some fs
     | Some (Some b) \<Rightarrow> if lookup_flag fs (bo_name b) \<noteq> None then None else Some (add_bound b fs))"
proof (cases "parse_bind_tag ro (lf_name l) (lf_cli l)")
  case (Some tag)
  show ?thesis
  proof (cases "leaf_decl vo l")
    case None
    with Some show ?thesis by (auto simp: bind_leaf_def read_leaf_def declare_field_leaf)
  next
    case (Some d)
    show ?thesis
    proof (cases "lookup_flag fs (bt_name tag)")
      case None
      from None Some \<open>parse_bind_tag _ _ _ = Some tag\<close> show ?thesis
        by (auto simp: bind_leaf_def read_leaf_def declare_field_leaf mark_secret_def mark_required_def add_bound_def
            lookup_flag_def map_add_def split: option.splits)
    next
      case (Some x)
      with \<open>leaf_decl vo l = Some d\<close> \<open>parse_bind_tag _ _ _ = Some tag\<close> show ?thesis
        by (auto simp: bind_leaf_def read_leaf_def declare_field_leaf)
    qed
  qed
qed (simp add: bind_leaf_def read_leaf_def)

section \<open>Sections only group\<close>

fun bind_leaves :: "rune_ops \<Rightarrow> ('f::zero, 'p, 'c) value_ops \<Rightarrow> ('f, 'p, 'c) leaf list \<Rightarrow> ('f, 'p, 'c) fval flag_set \<Rightarrow>
    ('f, 'p, 'c) fval flag_set option" where
  "bind_leaves ro vo [] fs = Some fs"
| "bind_leaves ro vo (l # ls) fs =
     (case bind_leaf ro vo (lf_name l) (lf_cli l) (lf_default l) (lf_usage l) (lf_shape l) fs of
        None \<Rightarrow> None | Some fs' \<Rightarrow> bind_leaves ro vo ls fs')"

lemma bind_leaves_append:
  "bind_leaves ro vo (ls @ ks) fs = (case bind_leaves ro vo ls fs of None \<Rightarrow> None | Some fs' \<Rightarrow> bind_leaves ro vo ks fs')"
  by (induction ls arbitrary: fs) (auto split: option.splits)

lemma bind_flattened:
  "bind_one ro vo f fs = bind_leaves ro vo (leaves_one f) fs"
  "bind_struct ro vo members fs = bind_leaves ro vo (leaves members) fs"
proof (induction ro vo f fs and ro vo members fs rule: bind_one_bind_struct.induct)
qed (auto simp: bind_leaves_append split: option.splits)

definition add_all :: "('f, 'p, 'c) bound_flag list \<Rightarrow> ('f, 'p, 'c) fval flag_set \<Rightarrow> ('f, 'p, 'c) fval flag_set" where
  "add_all bs fs = fold add_bound bs fs"

lemma lookup_add_bound: "lookup_flag (add_bound b fs) n = (case lookup_flag fs n of Some d \<Rightarrow> Some d | None \<Rightarrow> if n = bo_name b then Some (bo_decl b) else None)"
  by (auto simp: lookup_flag_def add_bound_def map_add_def split: option.splits)

lemma bind_leaves_read:
  "bind_leaves ro vo ls fs =
    (case read_leaves ro vo ls of
       None \<Rightarrow> None
     | Some bs \<Rightarrow>
         if distinct (map bo_name bs) \<and> list_all (\<lambda>b. lookup_flag fs (bo_name b) = None) bs then Some (add_all bs fs) else None)"
proof (induction ls arbitrary: fs)
  case (Cons l ls)
  show ?case
  proof (cases "read_leaf ro vo l")
    case (Some r)
    show ?thesis
    proof (cases r)
      case None
      with Some Cons show ?thesis by (auto simp: bind_leaf_read split: option.splits)
    next
      case (Some b)
      note read = \<open>read_leaf ro vo l = Some r\<close> \<open>r = Some b\<close>
      show ?thesis
      proof (cases "lookup_flag fs (bo_name b)")
        case None
        then have "list_all (\<lambda>x. lookup_flag (add_bound b fs) (bo_name x) = None) bs \<longleftrightarrow>
            bo_name b \<notin> bo_name ` set bs \<and> list_all (\<lambda>x. lookup_flag fs (bo_name x) = None) bs" for bs
          by (force simp: list_all_iff lookup_add_bound split: option.splits if_splits)
        with None read Cons show ?thesis
          by (auto simp: bind_leaf_read add_all_def split: option.splits)
      next
        case (Some d)
        with read show ?thesis by (auto simp: bind_leaf_read split: option.splits)
      qed
    qed
  qed (simp add: bind_leaf_read)
qed (simp add: add_all_def)

section \<open>The flag set, written down\<close>

definition write_flags :: "('f, 'p, 'c) bound_flag list \<Rightarrow> ('f, 'p, 'c) fval flag_set \<Rightarrow> ('f, 'p, 'c) fval flag_set" where
  "write_flags bs fs =
     \<lparr>fs_flags = fs_flags fs @ map (\<lambda>b. (bo_name b, bo_decl b)) bs,
      fs_secret = rev (map bo_name (filter bo_secret bs)) @ fs_secret fs,
      fs_required = rev (map bo_name (filter bo_required bs)) @ fs_required fs\<rparr>"

lemma add_all_written:
  "distinct (map bo_name bs) \<Longrightarrow> list_all (\<lambda>b. bo_name b \<notin> set (fs_secret fs) \<union> set (fs_required fs)) bs \<Longrightarrow>
   add_all bs fs = write_flags bs fs"
proof (induction bs arbitrary: fs)
  case (Cons b bs)
  have "list_all (\<lambda>x. bo_name x \<notin> set (fs_secret (add_bound b fs)) \<union> set (fs_required (add_bound b fs))) bs"
    unfolding list_all_iff
  proof
    fix x assume "x \<in> set bs"
    with Cons.prems have "bo_name x \<noteq> bo_name b" "bo_name x \<notin> set (fs_secret fs) \<union> set (fs_required fs)"
      by (auto simp: list_all_iff) (metis imageI)
    then show "bo_name x \<notin> set (fs_secret (add_bound b fs)) \<union> set (fs_required (add_bound b fs))"
      by (auto simp: add_bound_def)
  qed
  with Cons show ?case by (simp add: add_all_def write_flags_def) (simp add: add_bound_def List.insert_def)
qed (simp add: add_all_def write_flags_def)

lemma untaken_unmarked:
  "flag_set_ok fs \<Longrightarrow> lookup_flag fs n = None \<Longrightarrow> n \<notin> set (fs_secret fs) \<union> set (fs_required fs)"
  by (auto simp: flag_set_ok_def list_all_iff)

text \<open>C13: a struct binds exactly when each of its leaves reads on its own (its tag parses, no default stands
  beside \<^verbatim>\<open>required\<close>, its type and its default are supported, its name is one a flag may have, and a required
  leaf is zero) and the names are new and pairwise distinct; a field tagged with a dash is skipped and a
  section only groups. The flag set then holds the leaves' flags in field order after those that were
  there, and exactly the leaves tagged so are secret and required; anything else is a panic.\<close>
theorem struct_binding:
  assumes "flag_set_ok fs"
  shows "bind_struct ro vo members fs =
    (case read_leaves ro vo (leaves members) of
       None \<Rightarrow> None
     | Some bs \<Rightarrow>
         if distinct (map bo_name bs) \<and> list_all (\<lambda>b. lookup_flag fs (bo_name b) = None) bs
         then Some (write_flags bs fs) else None)"
proof -
  have "add_all bs fs = write_flags bs fs"
    if "distinct (map bo_name bs)" "list_all (\<lambda>b. lookup_flag fs (bo_name b) = None) bs" for bs
    using that untaken_unmarked [OF assms] by (intro add_all_written) (auto simp: list_all_iff)
  then show ?thesis by (auto simp: bind_flattened bind_leaves_read split: option.splits)
qed

text \<open>\<^verbatim>\<open>Bind\<close> itself takes any value; only a non-nil pointer to a struct is bound.\<close>

datatype ('f, 'p, 'c) bind_target = No_Pointer | Nil_Pointer | Pointer_To_Other | Struct_At "('f, 'p, 'c) bind_field list"

definition bind_value :: "rune_ops \<Rightarrow> ('f::zero, 'p, 'c) value_ops \<Rightarrow> ('f, 'p, 'c) bind_target \<Rightarrow>
    ('f, 'p, 'c) fval flag_set \<Rightarrow> ('f, 'p, 'c) fval flag_set option" where
  "bind_value ro vo target fs = (case target of Struct_At members \<Rightarrow> bind_struct ro vo members fs | _ \<Rightarrow> None)"

lemma bind_value_ok: "bind_value ro vo target fs = Some fs' \<Longrightarrow> flag_set_ok fs \<Longrightarrow> flag_set_ok fs'"
  by (auto simp: bind_value_def intro: bind_ok(2) split: bind_target.splits)

definition sample_runes :: rune_ops where
  "sample_runes = \<lparr>ro_upper = (\<lambda>r. 65 \<le> r \<and> r \<le> 90), ro_lower = (\<lambda>r. 97 \<le> r \<and> r \<le> 122), ro_to_lower = (\<lambda>r. r + 32)\<rparr>"

definition sample_values :: "(int, string, string) value_ops" where
  "sample_values =
     \<lparr>vo_int0 = (\<lambda>s. Inl parse_error), vo_float = (\<lambda>s. Inl parse_error), vo_duration = (\<lambda>s. Inl parse_error), vo_prefix = Inr,
      vo_custom = (\<lambda>c. Inr), vo_format_float = (\<lambda>x. []), vo_format_duration = (\<lambda>d. []), vo_format_prefix = (\<lambda>p. p),
      vo_format_custom = (\<lambda>c. c)\<rparr>"

definition sample_members :: "(int, string, string) bind_field list" where
  "sample_members =
     [Bind_Field ''DB'' True None None [] (B_Struct False
        [Bind_Field ''Pass'' True (Some ''pw,secret,required'') None ''u'' (B_Leaf (V_String [])),
         Bind_Field ''Skip'' True (Some ''-'') None [] B_Other]),
      Bind_Field ''Port'' True (Some ''port'') (Some ''80'') ''u'' (B_Leaf (V_Int 0)),
      Bind_Field ''hidden'' False None None [] B_Other]"

theorem struct_binding_witness:
  "case bind_struct sample_runes sample_values sample_members new_flag_set of
     None \<Rightarrow> False
   | Some fs \<Rightarrow> map fst (fs_flags fs) = [''pw'', ''port''] \<and> map (\<lambda>(n, d). fd_value d) (fs_flags fs) = [V_String [], V_Int 80] \<and>
       fs_secret fs = [''pw''] \<and> fs_required fs = [''pw'']"
  unfolding struct_binding [OF new_flag_set_ok]
  by code_simp

end
