(* ===== verification/CliRun.thy ===== *)
theory CliRun
  imports CliFlags
begin

text \<open>
  The command tree of \<^verbatim>\<open>src/cli\<close>: dispatch and exit codes (\<^verbatim>\<open>cli.go\<close>), the merged flag set
  and the layers of configuration (\<^verbatim>\<open>dispatch.go\<close>, \<^verbatim>\<open>config.go\<close>) and the help text (\<^verbatim>\<open>help.go\<close>). \<open>parse_args\<close> is
  \<^verbatim>\<open>flag.FlagSet.Parse\<close> of the standard library. A command holds the flag set its \<^verbatim>\<open>Flags\<close> function
  declares; \<^verbatim>\<open>Run\<close> is a function of the values of the visible flags and the operands. The process
  environment, the file system and \<^verbatim>\<open>strconv.Quote\<close> are fields of \<open>world\<close>.
\<close>

section \<open>Commands\<close>

type_synonym 'v run = "(string \<times> 'v) list \<Rightarrow> string list \<Rightarrow> string option"

datatype 'v command =
  Command (cm_name: string) (cm_short: string) (cm_long: string) (cm_flags: "'v flag_set")
    (cm_run: "'v run option") (cm_commands: "'v command list")

record 'v root_config =
  rt_version :: string
  rt_env_prefix :: string
  rt_config_flag :: string
  rt_config_decl :: "'v flag_decl"  \<comment> \<open>the string flag with an empty default that \<^verbatim>\<open>declared\<close> adds\<close>
  rt_decoder :: "string \<Rightarrow> string + (string \<times> string) list"

record world =
  w_env :: env
  w_read :: "string \<Rightarrow> (bool \<times> string) + string"  \<comment> \<open>an error says whether the file does not exist\<close>
  w_quote :: "string \<Rightarrow> string"

type_synonym 'v path = "('v command \<times> 'v flag_set) list"  \<comment> \<open>root first, with the sets as declared and parsed so far\<close>

definition find_command :: "'v command list \<Rightarrow> string \<Rightarrow> 'v command option" where
  "find_command cmds name = List.find (\<lambda>c. cm_name c = name) cmds"

definition path_name :: "'v path \<Rightarrow> string" where
  "path_name path = join '' '' (map (\<lambda>(c, fs). cm_name c) path)"

section \<open>The merged flag set\<close>

definition declared :: "'v root_config \<Rightarrow> bool \<Rightarrow> 'v command \<Rightarrow> 'v flag_set option" where
  "declared root is_root c =
     (if is_root \<and> rt_config_flag root \<noteq> [] \<and> lookup_flag (cm_flags c) (rt_config_flag root) = None
      then declare_flag (rt_config_flag root) (rt_config_decl root) (cm_flags c)
      else Some (cm_flags c))"

definition visible :: "'v path \<Rightarrow> (bool \<times> bool \<times> string \<times> 'v flag_decl) list" where
  \<comment> \<open>secret, required, name and flag\<close>
  "visible path =
     concat (map (\<lambda>(c, fs). map (\<lambda>(n, d). (n \<in> set (fs_secret fs), n \<in> set (fs_required fs), n, d)) (visit_all fs)) path)"

definition parse_set :: "'v root_config \<Rightarrow> 'v path \<Rightarrow> bool option option" where
  \<comment> \<open>\<open>None\<close> is the panic on a redeclared flag; inside, whether the \<^verbatim>\<open>--version\<close> flag was added\<close>
  "parse_set root path =
     (let names = map (\<lambda>(s, r, n, d). n) (visible path) in
      if \<not> distinct names then None
      else Some (if length path = 1 \<and> rt_version root \<noteq> [] \<and> ''version'' \<notin> set names then Some False else None))"

definition secrets :: "'v path \<Rightarrow> string list" where
  "secrets path = concat (map (\<lambda>(c, fs). fs_secret fs) path)"

section \<open>Parsing arguments\<close>

record 'v parse_state =
  ps_sets :: "'v flag_set list"
  ps_show :: "bool option"
  ps_actual :: "string list"

definition find_decl :: "'v flag_set list \<Rightarrow> string \<Rightarrow> 'v flag_decl option" where
  "find_decl sets n = map_of (concat (map fs_flags sets)) n"

definition update_value :: "string \<Rightarrow> 'v \<Rightarrow> 'v flag_set \<Rightarrow> 'v flag_set" where
  "update_value n v fs =
     fs\<lparr>fs_flags := map (\<lambda>(m, d). (m, if m = n then d\<lparr>fd_value := v\<rparr> else d)) (fs_flags fs)\<rparr>"

definition assign :: "'v flag_set list \<Rightarrow> string \<Rightarrow> string \<Rightarrow> string + 'v flag_set list" where
  \<comment> \<open>\<^verbatim>\<open>f.Value.Set(s)\<close> on the flag of that name, which the merged set shares with its owner\<close>
  "assign sets n s =
     (case find_decl sets n of
        None \<Rightarrow> Inr sets
      | Some d \<Rightarrow> (case fd_set d (fd_value d) s of Inl e \<Rightarrow> Inl e | Inr v \<Rightarrow> Inr (map (update_value n v) sets)))"

datatype 'v parse_step = P_Help | P_Fail string | P_Next "'v parse_state" "string list"

definition mark_actual :: "string \<Rightarrow> 'v parse_state \<Rightarrow> 'v parse_state" where
  "mark_actual n st = st\<lparr>ps_actual := List.insert n (ps_actual st)\<rparr>"

definition bad_bool :: "(string \<Rightarrow> string) \<Rightarrow> string \<Rightarrow> string \<Rightarrow> string \<Rightarrow> string" where
  "bad_bool quote value name e = ''invalid boolean value '' @ quote value @ '' for -'' @ name @ '': '' @ e"

definition bad_value :: "(string \<Rightarrow> string) \<Rightarrow> string \<Rightarrow> string \<Rightarrow> string \<Rightarrow> string" where
  "bad_value quote value name e = ''invalid value '' @ quote value @ '' for flag -'' @ name @ '': '' @ e"

definition parse_flag :: "(string \<Rightarrow> string) \<Rightarrow> 'v parse_state \<Rightarrow> string \<Rightarrow> bool \<Rightarrow> string \<Rightarrow> string list \<Rightarrow> 'v parse_step" where
  "parse_flag quote st name has_value value rest =
     (let set_to = (\<lambda>s fail rest'. case assign (ps_sets st) name s of
            Inl e \<Rightarrow> P_Fail (fail e)
          | Inr sets \<Rightarrow> P_Next (mark_actual name (st\<lparr>ps_sets := sets\<rparr>)) rest') in
      if name = ''version'' \<and> ps_show st \<noteq> None then
        (case parse_bool (if has_value then value else ''true'') of
           None \<Rightarrow> P_Fail (bad_bool quote value name parse_error)
         | Some b \<Rightarrow> P_Next (mark_actual name (st\<lparr>ps_show := Some b\<rparr>)) rest)
      else case find_decl (ps_sets st) name of
        None \<Rightarrow>
          if name = ''help'' \<or> name = ''h'' then P_Help
          else P_Fail (''flag provided but not defined: -'' @ name)
      | Some d \<Rightarrow>
          if fd_bool d then
            set_to (if has_value then value else ''true'')
              (\<lambda>e. if has_value then bad_bool quote value name e else ''invalid boolean flag '' @ name @ '': '' @ e) rest
          else if has_value then set_to value (bad_value quote value name) rest
          else case rest of
            [] \<Rightarrow> P_Fail (''flag needs an argument: -'' @ name)
          | v # rest' \<Rightarrow> set_to v (bad_value quote v name) rest')"

datatype 'v parsed = Parsed "'v parse_state" "string list" | Help_Wanted | Parse_Error string

lemma parse_flag_rest: "parse_flag quote st name has_value value rest = P_Next st' rest' \<Longrightarrow> length rest' \<le> length rest"
  by (auto simp: parse_flag_def Let_def split: if_splits option.splits sum.splits list.splits)

function parse_args :: "(string \<Rightarrow> string) \<Rightarrow> 'v parse_state \<Rightarrow> string list \<Rightarrow> 'v parsed" where
  "parse_args quote st [] = Parsed st []"
| "parse_args quote st (arg # rest) =
     (if length arg < 2 \<or> hd arg \<noteq> CHR ''-'' then Parsed st (arg # rest)
      else if arg = ''--'' then Parsed st rest
      else
        (let name = drop (if arg ! 1 = CHR ''-'' then 2 else 1) arg in
         if name = [] \<or> hd name = CHR ''-'' \<or> hd name = CHR ''='' then Parse_Error (''bad flag syntax: '' @ arg)
         else case cut (CHR ''='') name of
           (n, value, has_value) \<Rightarrow>
             (case parse_flag quote st n has_value value rest of
                P_Help \<Rightarrow> Help_Wanted
              | P_Fail e \<Rightarrow> Parse_Error e
              | P_Next st' rest' \<Rightarrow> parse_args quote st' rest')))"
  by pat_completeness auto
termination
  by (relation "measure (\<lambda>(q, st, args). length args)") (auto dest: parse_flag_rest simp: less_Suc_eq_le)

definition sanitize_parse_error :: "string list \<Rightarrow> string \<Rightarrow> string" where
  "sanitize_parse_error secret_names msg =
     (case List.find (\<lambda>n. contains msg (''for flag -'' @ n @ '':'') \<or> contains msg (''for -'' @ n @ '':'')) secret_names of
        Some n \<Rightarrow> ''invalid value for flag -'' @ n
      | None \<Rightarrow> msg)"

section \<open>Layers of configuration\<close>

definition invalid_value :: string where "invalid_value = ''cli: invalid value''"
definition missing_required :: string where "missing_required = ''cli: missing required configuration''"
definition env_conflict :: string where "env_conflict = ''cli: conflicting environment configuration''"

definition set_value_error :: "(string \<Rightarrow> string) \<Rightarrow> string \<Rightarrow> string \<Rightarrow> string \<Rightarrow> bool \<Rightarrow> string" where
  "set_value_error quote name value source secret =
     (if secret then invalid_value @ '' for flag -'' @ name @ '' from '' @ source
      else invalid_value @ '' '' @ quote value @ '' for flag -'' @ name @ '' from '' @ source)"

definition trim_line_end :: "string \<Rightarrow> string" where
  "trim_line_end s = rev (dropWhile (\<lambda>c. c = CR \<or> c = LF) (rev s))"

definition env_value :: "world \<Rightarrow> string \<Rightarrow> string + string option" where
  \<comment> \<open>the first half of \<^verbatim>\<open>setFromEnv\<close>: the text to set, if the environment has one\<close>
  "env_value w e =
     (case (w_env w e, w_env w (e @ ''_FILE'')) of
        (Some v, Some f) \<Rightarrow> Inl (env_conflict @ '': both '' @ e @ '' and '' @ e @ ''_FILE are set'')
      | (None, Some f) \<Rightarrow>
          (case w_read w f of
             Inl (absent, err) \<Rightarrow> Inl (''cli: reading '' @ e @ ''_FILE: '' @ err)
           | Inr b \<Rightarrow> Inr (Some (trim_line_end b)))
      | (v, None) \<Rightarrow> Inr v)"

definition set_from_env :: "world \<Rightarrow> 'v flag_set list \<Rightarrow> string \<Rightarrow> string \<Rightarrow> bool \<Rightarrow> string + bool \<times> 'v flag_set list" where
  "set_from_env w sets n e secret =
     (case env_value w e of
        Inl err \<Rightarrow> Inl err
      | Inr None \<Rightarrow> Inr (False, sets)
      | Inr (Some v) \<Rightarrow>
          (case assign sets n v of
             Inl err \<Rightarrow> Inl (set_value_error (w_quote w) n v e secret)
           | Inr sets' \<Rightarrow> Inr (True, sets')))"

fun env_layer :: "world \<Rightarrow> string \<Rightarrow> string list \<Rightarrow> (bool \<times> string) list \<Rightarrow> 'v flag_set list \<Rightarrow> string list \<Rightarrow>
    string + 'v flag_set list \<times> string list" where
  "env_layer w pfx explicit [] sets from_env = Inr (sets, from_env)"
| "env_layer w pfx explicit ((secret, n) # ns) sets from_env =
     (if n \<in> set explicit then env_layer w pfx explicit ns sets from_env
      else case set_from_env w sets n (env_name pfx n) secret of
        Inl err \<Rightarrow> Inl err
      | Inr (applied, sets') \<Rightarrow> env_layer w pfx explicit ns sets' (if applied then n # from_env else from_env))"

fun config_layer :: "(string \<Rightarrow> string) \<Rightarrow> (string \<times> string) list \<Rightarrow> string list \<Rightarrow> (bool \<times> string) list \<Rightarrow> 'v flag_set list \<Rightarrow>
    string list \<Rightarrow> string + 'v flag_set list \<times> string list" where
  \<comment> \<open>\<open>higher\<close> are the names the command line or the environment has set\<close>
  "config_layer quote values higher [] sets from_config = Inr (sets, from_config)"
| "config_layer quote values higher ((secret, n) # ns) sets from_config =
     (if n \<in> set higher then config_layer quote values higher ns sets from_config
      else case map_of values n of
        None \<Rightarrow> config_layer quote values higher ns sets from_config
      | Some v \<Rightarrow>
          (case assign sets n v of
             Inl err \<Rightarrow> Inl (set_value_error quote n v ''config file'' secret)
           | Inr sets' \<Rightarrow> config_layer quote values higher ns sets' (n # from_config)))"

definition load_config :: "world \<Rightarrow> 'v root_config \<Rightarrow> 'v flag_set list \<Rightarrow> string list \<Rightarrow> string list \<Rightarrow>
    string + (string \<times> string) list" where
  "load_config w root sets explicit from_env =
     (let name = rt_config_flag root in
      if name = [] then Inr []
      else case find_decl sets name of
        None \<Rightarrow> Inr []
      | Some d \<Rightarrow>
          (let path = fd_string d (fd_value d) in
           if path = [] then Inr []
           else case w_read w path of
             Inl (absent, err) \<Rightarrow>
               if absent \<and> name \<notin> set explicit \<and> name \<notin> set from_env then Inr []
               else Inl (''cli: config file: '' @ err)
           | Inr data \<Rightarrow>
               (case rt_decoder root data of
                  Inl err \<Rightarrow> Inl (''cli: config file '' @ path @ '': '' @ err)
                | Inr values \<Rightarrow>
                    if name \<in> fst ` set values
                    then Inl (''cli: config file '' @ path @ '': key '' @ w_quote w name
                              @ '': the config-path flag cannot be set from the config file'')
                    else Inr values)))"

definition resolve_flags :: "world \<Rightarrow> string \<Rightarrow> 'v root_config \<Rightarrow> 'v path \<Rightarrow> string list \<Rightarrow> string + 'v flag_set list" where
  \<comment> \<open>\<open>pfx\<close> is \<^verbatim>\<open>envPrefix(d.root)\<close>\<close>
  "resolve_flags w pfx root path explicit =
     (let names = map (\<lambda>(s, r, n, d). (s, n)) (visible path) in
      case env_layer w pfx explicit names (map snd path) [] of
        Inl err \<Rightarrow> Inl err
      | Inr (sets1, from_env) \<Rightarrow>
          (case load_config w root sets1 explicit from_env of
             Inl err \<Rightarrow> Inl err
           | Inr values \<Rightarrow>
               (case config_layer (w_quote w) values (explicit @ from_env) names sets1 [] of
                  Inl err \<Rightarrow> Inl err
                | Inr (sets2, from_config) \<Rightarrow>
                    (let missing = map (\<lambda>(s, r, n, d). n)
                           (filter (\<lambda>(s, r, n, d). r \<and> n \<notin> set (explicit @ from_env @ from_config)) (visible path)) in
                     if missing = [] then Inr sets2
                     else Inl (missing_required @ '': ''
                       @ join '', '' (map (\<lambda>n. ''-'' @ n @ '' (env '' @ env_name pfx n @ '')'') missing))))))"

text \<open>The built-in decoder, over the JSON decoder of the standard library.\<close>

datatype json_value = J_String string | J_Number string | J_Bool bool | J_Other

fun flat_values :: "(string \<Rightarrow> string) \<Rightarrow> (string \<times> json_value) list \<Rightarrow> string + (string \<times> string) list" where
  "flat_values quote [] = Inr []"
| "flat_values quote ((k, v) # kvs) =
     (case (case v of J_String s \<Rightarrow> Some s | J_Number s \<Rightarrow> Some s | J_Bool b \<Rightarrow> Some (if b then ''true'' else ''false'') | J_Other \<Rightarrow> None) of
        None \<Rightarrow> Inl (''key '' @ quote k @ '': value must be a string, number, or bool'')
      | Some s \<Rightarrow> (case flat_values quote kvs of Inl e \<Rightarrow> Inl e | Inr vs \<Rightarrow> Inr ((k, s) # vs)))"

definition decode_json :: "(string \<Rightarrow> string) \<Rightarrow> (string \<Rightarrow> string + (string \<times> json_value) list option \<times> bool) \<Rightarrow> string \<Rightarrow>
    string + (string \<times> string) list" where
  \<comment> \<open>the decoder gives the object (\<open>None\<close> for \<^verbatim>\<open>null\<close>) and whether the input ends after it\<close>
  "decode_json quote json data =
     (case json data of
        Inl e \<Rightarrow> Inl e
      | Inr (raw, at_end) \<Rightarrow>
          if \<not> at_end then Inl ''trailing data after config object''
          else case raw of
            None \<Rightarrow> Inl ''config must be a JSON object''
          | Some kvs \<Rightarrow> flat_values quote kvs)"

section \<open>Help\<close>

definition unquote_usage :: "'v flag_decl \<Rightarrow> string \<times> string" where
  \<comment> \<open>\<^verbatim>\<open>flag.UnquoteUsage\<close>: a back-quoted word of the usage names the value\<close>
  "unquote_usage d =
     (case cut (CHR ''`'') (fd_usage d) of
        (before, rest, found) \<Rightarrow>
          if found then
            (case cut (CHR ''`'') rest of
               (name, after, closed) \<Rightarrow>
                 if closed then (name, before @ name @ after) else (fd_type_name d, fd_usage d))
          else (fd_type_name d, fd_usage d))"

definition default_text :: "(string \<Rightarrow> string) \<Rightarrow> bool \<Rightarrow> 'v flag_decl \<Rightarrow> string" where
  "default_text quote secret d =
     (if fd_zero d then [] else if secret then ''<secret>'' else quote (fd_default d))"

definition flag_entry :: "(string \<Rightarrow> string) \<Rightarrow> string \<Rightarrow> bool \<times> bool \<times> string \<times> 'v flag_decl \<Rightarrow> string \<times> string" where
  "flag_entry quote pfx =
     (\<lambda>(secret, required, n, d). case unquote_usage d of
        (typ, usage) \<Rightarrow>
          (let def = default_text quote secret d in
           (''-'' @ n @ (if typ \<noteq> [] then '' '' @ typ else []),
            trim_space (usage @ (if required then '' (required)'' else []) @ '' (env '' @ env_name pfx n @ '')''
              @ (if def \<noteq> [] then '' (default '' @ def @ '')'' else [])))))"

definition command_entries :: "'v root_config \<Rightarrow> 'v path \<Rightarrow> (string \<times> string) list" where
  "command_entries root path =
     (let cmd = fst (last path); cmds = cm_commands cmd in
      map (\<lambda>c. (cm_name c, cm_short c)) cmds @
      (if length path = 1 \<and> cmds \<noteq> [] then
         (if find_command cmds ''help'' = None then [(''help'', ''help for '' @ cm_name cmd @ '' or a command'')] else []) @
         (if rt_version root \<noteq> [] \<and> find_command cmds ''version'' = None then [(''version'', ''print the version'')] else [])
       else []))"

definition write_aligned :: "(string \<times> string) list \<Rightarrow> string" where
  "write_aligned entries =
     (let width = fold max (map (\<lambda>(head, desc). length head) entries) 0 in
      concat (map (\<lambda>(head, desc).
        if desc = [] then ''  '' @ head @ [LF]
        else ''  '' @ head @ replicate (width - length (runes head)) (CHR '' '') @ ''  '' @ desc @ [LF]) entries))"

definition write_help :: "(string \<Rightarrow> string) \<Rightarrow> string \<Rightarrow> 'v root_config \<Rightarrow> 'v path \<Rightarrow> string" where
  "write_help quote pfx root path =
     (let cmd = fst (last path);
          desc = (if cm_long cmd \<noteq> [] then cm_long cmd else cm_short cmd);
          commands = command_entries root path;
          flags = map (flag_entry quote pfx) (visible path) in
      (if desc \<noteq> [] then desc @ [LF, LF] else [])
      @ ''Usage:'' @ [LF] @ ''  '' @ path_name path @ (if cm_commands cmd \<noteq> [] then '' [command]'' else [])
      @ (if visible path \<noteq> [] then '' [flags]'' else []) @ [LF]
      @ (if commands \<noteq> [] then [LF] @ ''Commands:'' @ [LF] @ write_aligned commands else [])
      @ (if flags \<noteq> [] then [LF] @ ''Flags:'' @ [LF] @ write_aligned flags else []))"

section \<open>Executing\<close>

record 'v outcome =
  oc_code :: nat
  oc_out :: string
  oc_err :: string
  oc_ran :: "((string \<times> 'v) list \<times> string list) option"  \<comment> \<open>the call of \<^verbatim>\<open>Run\<close>: values of the flags, operands\<close>

definition printed :: "string \<Rightarrow> 'v outcome" where
  "printed s = \<lparr>oc_code = 0, oc_out = s, oc_err = [], oc_ran = None\<rparr>"

definition refused :: "string \<Rightarrow> 'v outcome" where
  "refused s = \<lparr>oc_code = 2, oc_out = [], oc_err = s, oc_ran = None\<rparr>"

definition usage_hint :: "string \<Rightarrow> string" where
  "usage_hint name = ''Run '' @ [CHR 0x27] @ name @ '' --help'' @ [CHR 0x27] @ '' for usage.'' @ [LF]"

definition values_of :: "'v flag_set list \<Rightarrow> (string \<times> 'v) list" where
  "values_of sets = map (\<lambda>(n, d). (n, fd_value d)) (concat (map fs_flags sets))"

definition finish :: "world \<Rightarrow> string \<Rightarrow> 'v root_config \<Rightarrow> 'v path \<Rightarrow> string list \<Rightarrow> string list \<Rightarrow> 'v outcome" where
  \<comment> \<open>the part of \<^verbatim>\<open>execute\<close> after its loop\<close>
  "finish w pfx root path explicit rest =
     (case cm_run (fst (last path)) of
        None \<Rightarrow>
          if rest \<noteq> [] then
            refused (path_name path @ '': unknown command: '' @ hd rest @ [LF] @ usage_hint (path_name path))
          else printed (write_help (w_quote w) pfx root path)
      | Some run \<Rightarrow>
          (case resolve_flags w pfx root path explicit of
             Inl err \<Rightarrow> refused (err @ [LF])
           | Inr sets \<Rightarrow>
               (case run (values_of sets) rest of
                  Some err \<Rightarrow> \<lparr>oc_code = 1, oc_out = [], oc_err = err @ [LF], oc_ran = Some (values_of sets, rest)\<rparr>
                | None \<Rightarrow> \<lparr>oc_code = 0, oc_out = [], oc_err = [], oc_ran = Some (values_of sets, rest)\<rparr>)))"

fun help_path :: "'v root_config \<Rightarrow> 'v path \<Rightarrow> string list \<Rightarrow> 'v path option" where
  \<comment> \<open>\<open>None\<close> when a name is no command\<close>
  "help_path root path [] = Some path"
| "help_path root path (n # ns) =
     (case find_command (cm_commands (fst (last path))) n of
        None \<Rightarrow> None
      | Some c \<Rightarrow> help_path root (path @ [(c, cm_flags c)]) ns)"

definition help_command :: "world \<Rightarrow> string \<Rightarrow> 'v root_config \<Rightarrow> 'v path \<Rightarrow> string list \<Rightarrow> 'v outcome" where
  "help_command w pfx root path names =
     (case help_path root path names of
        None \<Rightarrow> refused (path_name path @ '': unknown command: '' @ join '' '' names @ [LF] @ usage_hint (path_name path))
      | Some p \<Rightarrow> printed (write_help (w_quote w) pfx root p))"

definition version_line :: "'v root_config \<Rightarrow> 'v path \<Rightarrow> string" where
  "version_line root path = cm_name (fst (hd path)) @ '' '' @ rt_version root @ [LF]"

definition terminated :: "string list \<Rightarrow> string list \<Rightarrow> bool" where
  "terminated rest operands \<longleftrightarrow>
     (let consumed = length rest - length operands in 0 < consumed \<and> rest ! (consumed - 1) = ''--'')"

lemma parse_args_cases:
  assumes "parse_args quote st (arg # rest) = Parsed st' operands"
  obtains (stop) "st' = st" "operands = arg # rest \<or> operands = rest"
  | (flag) n has v st1 rest1 where "parse_flag quote st n has v rest = P_Next st1 rest1"
      "parse_args quote st1 rest1 = Parsed st' operands"
proof -
  define name where "name = drop (if arg ! 1 = CHR ''-'' then 2 else 1) arg"
  obtain n v has where c: "cut (CHR ''='') name = (n, v, has)" by (cases "cut (CHR ''='') name")
  note eq = assms [unfolded parse_args.simps(2) Let_def, folded name_def, unfolded c prod.case]
  show ?thesis
  proof (cases "parse_flag quote st n has v rest")
    case (P_Next st1 rest1)
    with eq show ?thesis by (auto split: if_splits intro: stop flag)
  qed (use eq in \<open>auto split: if_splits intro: stop\<close>)
qed

lemma parse_args_shorter: "parse_args quote st args = Parsed st' operands \<Longrightarrow> length operands \<le> length args"
proof (induction "length args" arbitrary: st args rule: less_induct)
  case less
  show ?case
  proof (cases args)
    case (Cons arg rest)
    from less(2) [unfolded Cons] show ?thesis
    proof (cases rule: parse_args_cases)
      case (flag n has v st1 rest1)
      then have "length rest1 \<le> length rest" by (blast dest: parse_flag_rest)
      moreover from this have "length operands \<le> length rest1" using less(1) flag(2) by (simp add: Cons)
      ultimately show ?thesis by (simp add: Cons)
    qed (auto simp: Cons)
  qed (use less(2) in simp)
qed

function execute_from :: "world \<Rightarrow> string \<Rightarrow> 'v root_config \<Rightarrow> 'v path \<Rightarrow> string list \<Rightarrow> string list \<Rightarrow> 'v outcome option" where
  \<comment> \<open>the loop of \<^verbatim>\<open>execute\<close>; \<open>None\<close> is the panic on a redeclared flag\<close>
  "execute_from w pfx root path explicit rest =
     (case parse_set root path of
        None \<Rightarrow> None
      | Some show \<Rightarrow>
          (case parse_args (w_quote w) \<lparr>ps_sets = map snd path, ps_show = show, ps_actual = []\<rparr> rest of
             Help_Wanted \<Rightarrow> Some (printed (write_help (w_quote w) pfx root path))
           | Parse_Error e \<Rightarrow>
               Some (refused (sanitize_parse_error (secrets path) e @ [LF] @ usage_hint (path_name path)))
           | Parsed st operands \<Rightarrow>
               (let path' = zip (map fst path) (ps_sets st); explicit' = ps_actual st @ explicit in
                if ps_show st = Some True then Some (printed (version_line root path))
                else if operands = [] \<or> terminated rest operands then Some (finish w pfx root path' explicit' operands)
                else case find_command (cm_commands (fst (last path))) (hd operands) of
                  Some c \<Rightarrow> execute_from w pfx root (path' @ [(c, cm_flags c)]) explicit' (tl operands)
                | None \<Rightarrow>
                    if length path = 1 \<and> cm_commands (fst (hd path)) \<noteq> [] \<and> hd operands = ''help'' then
                      Some (help_command w pfx root path' (tl operands))
                    else if length path = 1 \<and> cm_commands (fst (hd path)) \<noteq> [] \<and> hd operands = ''version'' \<and> rt_version root \<noteq> []
                    then Some (printed (version_line root path))
                    else Some (finish w pfx root path' explicit' operands))))"
  by pat_completeness auto
termination
proof (relation "measure (\<lambda>(w, p, r, path, e, rest). length rest)")
qed (auto dest!: parse_args_shorter simp: neq_Nil_conv)

declare execute_from.simps [simp del]

definition execute :: "world \<Rightarrow> 'v root_config \<Rightarrow> 'v command \<Rightarrow> string list \<Rightarrow> 'v outcome option" where
  "execute w root c args =
     (case declared root True c of
        None \<Rightarrow> None
      | Some fs \<Rightarrow> execute_from w (env_prefix (cm_name c) (rt_env_prefix root)) root [(c, fs)] [] args)"

end
