(* ===== verification/CliSpec.thy ===== *)
theory CliSpec
  imports CliRun "HOL-Library.Multiset" "HOL-Library.Sublist"
begin

text \<open>
  What \<^verbatim>\<open>src/cli\<close> promises of its command tree: the precedence of the layers of configuration, rejected
  secrets that stay hidden, and the outcomes of an execution.
\<close>

section \<open>Lookup and assignment\<close>

lemma map_of_entries:
  "map_of (map (\<lambda>(k, d). (k, f k d)) xs) m = map_option (f m) (map_of xs m)"
  by (induction xs) auto

lemma find_decl_update:
  "find_decl (map (update_value n v) sets) m =
    map_option (\<lambda>d. if m = n then d\<lparr>fd_value := v\<rparr> else d) (find_decl sets m)"
proof -
  have "concat (map fs_flags (map (update_value n v) sets)) =
      map (\<lambda>(k, d). (k, if k = n then d\<lparr>fd_value := v\<rparr> else d)) (concat (map fs_flags sets))"
    by (induction sets) (auto simp: update_value_def)
  then show ?thesis by (simp add: find_decl_def map_of_entries)
qed

definition applied :: "'v flag_decl \<Rightarrow> string \<Rightarrow> 'v flag_decl \<Rightarrow> bool" where
  "applied d t d' \<longleftrightarrow> (\<exists>v. fd_set d (fd_value d) t = Inr v \<and> d' = d\<lparr>fd_value := v\<rparr>)"

lemma assign_find:
  assumes "assign sets n t = Inr sets'" "find_decl sets n = Some d"
  shows "\<exists>d'. find_decl sets' n = Some d' \<and> applied d t d'" "m \<noteq> n \<Longrightarrow> find_decl sets' m = find_decl sets m"
  using assms by (auto simp: assign_def find_decl_update applied_def option.map_ident split: sum.splits)

section \<open>What the layers do to each flag\<close>

definition env_text :: "world \<Rightarrow> string \<Rightarrow> string list \<Rightarrow> string \<Rightarrow> string option" where
  \<comment> \<open>the text the environment holds for a flag the command line has not set\<close>
  "env_text w pfx explicit n =
     (if n \<in> set explicit then None
      else case env_value w (env_name pfx n) of Inr (Some t) \<Rightarrow> Some t | _ \<Rightarrow> None)"

definition layer_text :: "world \<Rightarrow> string \<Rightarrow> string list \<Rightarrow> (string \<times> string) list \<Rightarrow> string \<Rightarrow> string option" where
  \<comment> \<open>the text of the strongest layer below the command line that has one\<close>
  "layer_text w pfx explicit values n =
     (if n \<in> set explicit then None
      else case env_text w pfx explicit n of Some t \<Rightarrow> Some t | None \<Rightarrow> map_of values n)"

definition by_text :: "string option \<Rightarrow> 'v flag_decl \<Rightarrow> 'v flag_decl \<Rightarrow> bool" where
  "by_text t d d' \<longleftrightarrow> (case t of None \<Rightarrow> d' = d | Some s \<Rightarrow> applied d s d')"

lemma env_layer_decls:
  "env_layer w pfx explicit ns sets fe = Inr (sets', fe') \<Longrightarrow> distinct (map snd ns) \<Longrightarrow>
   (\<forall>m\<in>snd ` set ns. find_decl sets m \<noteq> None) \<Longrightarrow>
   (\<forall>m. m \<notin> snd ` set ns \<longrightarrow> find_decl sets' m = find_decl sets m) \<and>
   (\<forall>m\<in>snd ` set ns. \<exists>d'. find_decl sets' m = Some d' \<and> by_text (env_text w pfx explicit m) (the (find_decl sets m)) d') \<and>
   set fe' = set fe \<union> {m \<in> snd ` set ns. env_text w pfx explicit m \<noteq> None}"
proof (induction ns arbitrary: sets fe)
  case (Cons p ns)
  obtain secret n where p: "p = (secret, n)" by (cases p)
  have fresh: "n \<notin> snd ` set ns" and dist: "distinct (map snd ns)" using Cons.prems(2) by (auto simp: p)
  obtain d where d: "find_decl sets n = Some d" using Cons.prems(3) by (auto simp: p)
  show ?case
  proof (cases "env_text w pfx explicit n")
    case None
    then have "env_layer w pfx explicit ns sets fe = Inr (sets', fe')"
      using Cons.prems(1) by (auto simp: p env_text_def set_from_env_def split: if_splits sum.splits option.splits)
    from Cons.IH [OF this dist] Cons.prems(3) fresh None d show ?thesis
      by (auto simp: p by_text_def)
  next
    case (Some t)
    then have ne: "n \<notin> set explicit" and ev: "env_value w (env_name pfx n) = Inr (Some t)"
      by (auto simp: env_text_def split: if_splits sum.splits option.splits)
    then obtain sets1 where a: "assign sets n t = Inr sets1"
        and l: "env_layer w pfx explicit ns sets1 (n # fe) = Inr (sets', fe')"
      using Cons.prems(1) by (auto simp: p set_from_env_def split: sum.splits)
    note found = assign_find [OF a d]
    have keep: "\<forall>m\<in>snd ` set ns. find_decl sets1 m = find_decl sets m"
      using fresh by (metis found(2))
    then have "\<forall>m\<in>snd ` set ns. find_decl sets1 m \<noteq> None" using Cons.prems(3) by (simp add: p)
    note IH = Cons.IH [OF l dist this]
    have "\<exists>d'. find_decl sets' n = Some d' \<and> by_text (Some t) d d'"
      using IH fresh found(1) by (simp add: by_text_def)
    with IH keep found(2) Some d show ?thesis by (auto simp: p)
  qed
qed simp

lemma config_layer_decls:
  "config_layer quote values higher ns sets fc = Inr (sets', fc') \<Longrightarrow> distinct (map snd ns) \<Longrightarrow>
   (\<forall>m\<in>snd ` set ns. find_decl sets m \<noteq> None) \<Longrightarrow>
   (\<forall>m. m \<notin> snd ` set ns \<longrightarrow> find_decl sets' m = find_decl sets m) \<and>
   (\<forall>m\<in>snd ` set ns. \<exists>d'. find_decl sets' m = Some d' \<and>
      by_text (if m \<in> set higher then None else map_of values m) (the (find_decl sets m)) d') \<and>
   set fc' = set fc \<union> {m \<in> snd ` set ns. m \<notin> set higher \<and> map_of values m \<noteq> None}"
proof (induction ns arbitrary: sets fc)
  case (Cons p ns)
  obtain secret n where p: "p = (secret, n)" by (cases p)
  have fresh: "n \<notin> snd ` set ns" and dist: "distinct (map snd ns)" using Cons.prems(2) by (auto simp: p)
  obtain d where d: "find_decl sets n = Some d" using Cons.prems(3) by (auto simp: p)
  show ?case
  proof (cases "if n \<in> set higher then None else map_of values n")
    case None
    then have "config_layer quote values higher ns sets fc = Inr (sets', fc')"
      using Cons.prems(1) by (auto simp: p split: if_splits)
    from Cons.IH [OF this dist] Cons.prems(3) fresh None d show ?thesis
      by (auto simp: p by_text_def split: if_splits)
  next
    case (Some t)
    then have t: "n \<notin> set higher" "map_of values n = Some t" by (auto split: if_splits)
    then obtain sets1 where a: "assign sets n t = Inr sets1"
        and l: "config_layer quote values higher ns sets1 (n # fc) = Inr (sets', fc')"
      using Cons.prems(1) by (auto simp: p split: sum.splits)
    note found = assign_find [OF a d]
    have keep: "\<forall>m\<in>snd ` set ns. find_decl sets1 m = find_decl sets m"
      using fresh by (metis found(2))
    then have "\<forall>m\<in>snd ` set ns. find_decl sets1 m \<noteq> None" using Cons.prems(3) by (simp add: p)
    note IH = Cons.IH [OF l dist this]
    have "\<exists>d'. find_decl sets' n = Some d' \<and> by_text (Some t) d d'"
      using IH fresh found(1) by (simp add: by_text_def)
    with IH keep found(2) t d show ?thesis by (auto simp: p)
  qed
qed simp

lemma visible_entries:
  fixes path :: "'v path"
  shows "mset (map (\<lambda>(s, r, n, d). (n, d)) (visible path)) = mset (concat (map fs_flags (map snd path)))"
proof (induction path)
  case (Cons cf path)
  obtain c fs where "cf = (c, fs)" by (cases cf)
  moreover have "(\<lambda>(s, r, x). x) \<circ> (\<lambda>(n, d :: 'v flag_decl). (n \<in> S, n \<in> R, n, d)) = id" for S R :: "string set"
    by auto
  ultimately show ?case using Cons by (simp add: visible_def visit_all_def id_def)
qed (simp add: visible_def)

lemma visible_names:
  "mset (map (\<lambda>(s, r, n, d). n) (visible path)) = mset (map fst (concat (map fs_flags (map snd path))))"
proof -
  have "image_mset fst (mset (map (\<lambda>(s, r, n, d). (n, d)) (visible path))) =
      image_mset fst (mset (concat (map fs_flags (map snd path))))"
    by (simp only: visible_entries)
  then show ?thesis by (simp add: multiset.map_comp comp_def split_def)
qed

lemma parse_set_distinct:
  "parse_set root path \<noteq> None \<longleftrightarrow> distinct (map (\<lambda>(s, r, n, d). n) (visible path))"
  by (simp add: parse_set_def Let_def)

lemma visible_decl:
  assumes "parse_set root path \<noteq> None"
  shows "(s, r, n, d) \<in> set (visible path) \<Longrightarrow> find_decl (map snd path) n = Some d"
proof -
  assume "(s, r, n, d) \<in> set (visible path)"
  then have "(n, d) \<in> set (map (\<lambda>(s, r, n, d). (n, d)) (visible path))" by force
  then have m: "(n, d) \<in> set (concat (map fs_flags (map snd path)))"
    by (metis set_mset_mset visible_entries)
  have "distinct (map fst (concat (map fs_flags (map snd path))))"
    using assms unfolding parse_set_distinct by (rule mset_eq_imp_distinct_iff [OF visible_names, THEN iffD1])
  then show ?thesis using m by (simp add: find_decl_def)
qed

lemma load_config_cong:
  assumes "find_decl sets (rt_config_flag root) = find_decl sets' (rt_config_flag root)"
  shows "load_config w root sets explicit fe = load_config w root sets' explicit fe"
  by (simp add: load_config_def Let_def assms)

lemma load_config_self:
  "load_config w root sets explicit fe = Inr values \<Longrightarrow> rt_config_flag root \<noteq> [] \<Longrightarrow>
    map_of values (rt_config_flag root) = None"
  by (auto simp: load_config_def Let_def map_of_eq_None_iff split: option.splits if_splits sum.splits prod.splits)

section \<open>Precedence of the layers\<close>


definition demo_flag :: "string \<Rightarrow> string flag_decl" where
  \<comment> \<open>a string flag that rejects the text \<^verbatim>\<open>bad\<close> and texts longer than five bytes\<close>
  "demo_flag v =
     \<lparr>fd_usage = ''usage'', fd_type_name = ''string'', fd_default = v, fd_zero = (v = []), fd_bool = False,
      fd_set = (\<lambda>old s. if s = ''bad'' \<or> 5 < length s then Inl ''parse error'' else Inr s), fd_string = (\<lambda>s. s), fd_value = v\<rparr>"

definition demo_set :: "string flag_set" where
  "demo_set = \<lparr>fs_flags = [(''name'', demo_flag ''n0''), (''addr'', demo_flag []), (''conf'', demo_flag ''c.js'')],
     fs_secret = [''addr''], fs_required = [''addr'']\<rparr>"

definition demo_root :: "string root_config" where
  "demo_root = \<lparr>rt_version = ''1'', rt_env_prefix = [], rt_config_flag = ''conf'', rt_config_decl = demo_flag [],
     rt_decoder = (\<lambda>data. Inr [(''addr'', data)])\<rparr>"

definition demo_command :: "string command" where
  "demo_command = Command ''app'' ''short'' [] demo_set
     (Some (\<lambda>vals operands. if operands = [''fail''] then Some ''failed'' else None))
     [Command ''sub'' ''a verb'' [] new_flag_set None []]"

definition demo_world :: "string \<Rightarrow> world" where
  "demo_world secret =
     \<lparr>w_env = (if secret = [] then [''APP_NAME'' \<mapsto> ''n1''] else [''APP_NAME'' \<mapsto> ''n1'', ''APP_ADDR'' \<mapsto> secret]),
      w_read = (\<lambda>f. if f = ''c.js'' then Inr ''a1'' else Inl (True, ''missing'')), w_quote = (\<lambda>s. CHR 0x22 # s @ [CHR 0x22])\<rparr>"


section \<open>Secrets\<close>

lemma assign_other: "assign sets n t = Inr sets' \<Longrightarrow> m \<noteq> n \<Longrightarrow> find_decl sets' m = find_decl sets m"
  by (auto simp: assign_def find_decl_update option.map_ident split: sum.splits option.splits)

lemma env_layer_rejected:
  assumes "w_quote w' = w_quote w" "n \<notin> set explicit"
    and "env_value w (env_name pfx n) = Inr (Some v)" "env_value w' (env_name pfx n) = Inr (Some v')"
    and "\<forall>x. isl (fd_set d x v) \<and> isl (fd_set d x v')"
  shows "n \<in> snd ` set ns \<Longrightarrow> \<forall>(s, m)\<in>set ns. if m = n then s else env_value w' (env_name pfx m) = env_value w (env_name pfx m) \<Longrightarrow>
    find_decl sets n = Some d \<Longrightarrow>
    \<exists>err. env_layer w pfx explicit ns sets fe = Inl err \<and> env_layer w' pfx explicit ns sets fe = Inl err"
proof (induction ns arbitrary: sets fe)
  case (Cons p ns)
  obtain s m where p: "p = (s, m)" by (cases p)
  show ?case
  proof (cases "m = n")
    case True
    from assms(5) obtain e e' where "fd_set d (fd_value d) v = Inl e" "fd_set d (fd_value d) v' = Inl e'"
      by (meson isl_def)
    with True Cons.prems assms(1-4) show ?thesis
      by (simp add: p set_from_env_def assign_def set_value_error_def)
  next
    case False
    then have same: "set_from_env w' sets m (env_name pfx m) s = set_from_env w sets m (env_name pfx m) s"
      using Cons.prems(2) unfolding p set_from_env_def assms(1) by simp
    have next': "n \<in> snd ` set ns"
      "\<forall>(s, m)\<in>set ns. if m = n then s else env_value w' (env_name pfx m) = env_value w (env_name pfx m)"
      using Cons.prems(1,2) False by (auto simp: p)
    have "find_decl sets1 n = Some d" if "set_from_env w sets m (env_name pfx m) s = Inr (b, sets1)" for b sets1
      using that Cons.prems(3) False assign_other [of sets m _ sets1 n]
      by (auto simp: set_from_env_def split: sum.splits option.splits)
    then show ?thesis using Cons.IH [OF next'] Cons.prems(3)
      by (auto simp: p same split: sum.splits)
  qed
qed simp

lemma sanitize_secret:
  assumes "n \<in> set secret_names" "contains msg (''for flag -'' @ n @ '':'') \<or> contains msg (''for -'' @ n @ '':'')"
  shows "sanitize_parse_error secret_names msg \<in> (\<lambda>m. ''invalid value for flag -'' @ m) ` set secret_names"
proof -
  have "List.find (\<lambda>n. contains msg (''for flag -'' @ n @ '':'') \<or> contains msg (''for -'' @ n @ '':'')) secret_names \<noteq> None"
    using assms by (subst find_None_iff) blast
  then obtain m where m: "List.find (\<lambda>n. contains msg (''for flag -'' @ n @ '':'') \<or> contains msg (''for -'' @ n @ '':''))
      secret_names = Some m" by blast
  then have "m \<in> set secret_names" by (subst (asm) find_Some_iff) auto
  with m show ?thesis by (simp add: sanitize_parse_error_def)
qed

lemma parse_flag_rejected:
  assumes "parse_flag quote st n has_value v rest = P_Fail e" "find_decl (ps_sets st) n = Some d"
    and "has_value \<or> \<not> fd_bool d \<and> rest \<noteq> []"
  shows "contains e (''for flag -'' @ n @ '':'') \<or> contains e (''for -'' @ n @ '':'')"
proof -
  have "(\<exists>val err. e = bad_value quote val n err) \<or> (\<exists>val err. e = bad_bool quote val n err)"
    using assms by (auto simp: parse_flag_def Let_def split: if_splits option.splits sum.splits list.splits)
  moreover have "contains (bad_value quote val n err) (''for flag -'' @ n @ '':'')" for val err
    unfolding contains_iff bad_value_def
    by (intro exI [of _ "''invalid value '' @ quote val @ '' ''"] exI [of _ "'' '' @ err"]) simp
  moreover have "contains (bad_bool quote val n err) (''for -'' @ n @ '':'')" for val err
    unfolding contains_iff bad_bool_def
    by (intro exI [of _ "''invalid boolean value '' @ quote val @ '' ''"] exI [of _ "'' '' @ err"]) simp
  ultimately show ?thesis by blast
qed



text \<open>A value that has the shape of a bad flag is echoed, secret or not.\<close>

lemma bad_syntax_echoes:
  "parse_args quote st [''---password='' @ v] = Parse_Error (''bad flag syntax: ---password='' @ v)"
  by simp

section \<open>Outcomes\<close>

definition flag_names :: "'v flag_set \<Rightarrow> string list" where
  "flag_names fs = map fst (fs_flags fs)"

lemma update_value_names [simp]: "flag_names (update_value n v fs) = flag_names fs"
  by (simp add: flag_names_def update_value_def case_prod_beta comp_def)

lemma assign_names: "assign sets n t = Inr sets' \<Longrightarrow> map flag_names sets' = map flag_names sets"
  by (auto simp: assign_def comp_def split: option.splits sum.splits)

lemma parse_flag_next:
  assumes "parse_flag quote st n has_value v rest = P_Next st' rest'"
  shows "map flag_names (ps_sets st') = map flag_names (ps_sets st) \<and> suffix rest' rest"
proof -
  have "rest' = rest \<or> (\<exists>x. rest = x # rest')"
    using assms by (auto simp: parse_flag_def Let_def split: if_splits option.splits sum.splits list.splits)
  moreover have "ps_sets st' = ps_sets st \<or> (\<exists>t. assign (ps_sets st) n t = Inr (ps_sets st'))"
    using assms by (auto simp: parse_flag_def Let_def mark_actual_def split: if_splits option.splits sum.splits list.splits)
  ultimately show ?thesis by (auto dest: assign_names intro: suffix_ConsI)
qed

lemma parse_args_parsed:
  "parse_args quote st args = Parsed st' operands \<Longrightarrow>
    map flag_names (ps_sets st') = map flag_names (ps_sets st) \<and> suffix operands args"
proof (induction "length args" arbitrary: st args rule: less_induct)
  case less
  show ?case
  proof (cases args)
    case (Cons arg rest)
    from less(2) [unfolded Cons] show ?thesis
    proof (cases rule: parse_args_cases)
      case (flag n has v st1 rest1)
      note next1 = parse_flag_next [OF flag(1)]
      then have "length rest1 < length args" by (auto simp: Cons dest: suffix_length_le)
      from less(1) [OF this flag(2)] next1 show ?thesis
        by (auto simp: Cons intro: suffix_ConsI suffix_order.trans)
    qed (auto simp: Cons intro: suffix_ConsI)
  qed (use less(2) in simp)
qed

fun chain :: "'v command list \<Rightarrow> bool" where
  \<comment> \<open>each command is a subcommand of the one before\<close>
  "chain [] = False"
| "chain [c] = True"
| "chain (c # d # cs) = (d \<in> set (cm_commands c) \<and> chain (d # cs))"

lemma chain_snoc: "chain cs \<Longrightarrow> d \<in> set (cm_commands (last cs)) \<Longrightarrow> chain (cs @ [d])"
  by (induction cs rule: chain.induct) auto

lemma find_command_mem: "find_command cs n = Some c \<Longrightarrow> c \<in> set cs \<and> cm_name c = n"
  by (auto simp: find_command_def find_Some_iff)

definition outcome_ok :: "world \<Rightarrow> string \<Rightarrow> 'v root_config \<Rightarrow> 'v command \<Rightarrow> string list \<Rightarrow> 'v outcome \<Rightarrow> bool" where
  "outcome_ok w pfx root c args oc \<longleftrightarrow>
     (case oc_ran oc of
        None \<Rightarrow> oc_code oc = 0 \<and> oc_err oc = [] \<or> oc_code oc = 2 \<and> oc_out oc = [] \<and> oc_err oc \<noteq> []
      | Some (vals, operands) \<Rightarrow> oc_out oc = [] \<and>
          (\<exists>path explicit sets run. chain (map fst path) \<and> fst (hd path) = c \<and>
             subseq (map cm_name (tl (map fst path)) @ operands) args \<and>
             cm_run (fst (last path)) = Some run \<and>
             resolve_flags w pfx root path explicit = Inr sets \<and> vals = values_of sets \<and>
             (case run vals operands of
                None \<Rightarrow> oc_code oc = 0 \<and> oc_err oc = []
              | Some err \<Rightarrow> oc_code oc = 1 \<and> oc_err oc = err @ [LF])))"

lemma printed_ok: "outcome_ok w pfx root c args (printed s)"
  by (simp add: outcome_ok_def printed_def)

lemma refused_ok: "s \<noteq> [] \<Longrightarrow> outcome_ok w pfx root c args (refused s)"
  by (simp add: outcome_ok_def refused_def)

lemma finish_ok:
  assumes "chain (map fst path)" "fst (hd path) = c" "subseq (map cm_name (tl (map fst path)) @ rest) args"
  shows "outcome_ok w pfx root c args (finish w pfx root path explicit rest)"
proof (cases "cm_run (fst (last path))")
  case (Some run)
  show ?thesis
  proof (cases "resolve_flags w pfx root path explicit")
    case (Inr sets)
    define oc where "oc = finish w pfx root path explicit rest"
    have "oc_ran oc = Some (values_of sets, rest)" "oc_out oc = []"
      and "case run (values_of sets) rest of None \<Rightarrow> oc_code oc = 0 \<and> oc_err oc = []
        | Some err \<Rightarrow> oc_code oc = 1 \<and> oc_err oc = err @ [LF]"
      by (simp_all add: oc_def finish_def Some Inr split: option.split)
    with Some Inr assms show ?thesis unfolding outcome_ok_def oc_def [symmetric]
      by (simp only: option.case prod.case) blast
  qed (simp add: Some finish_def refused_ok)
qed (simp add: finish_def printed_ok refused_ok usage_hint_def)

lemma help_ok: "outcome_ok w pfx root c args (help_command w pfx root path names)"
  by (simp add: help_command_def printed_ok refused_ok usage_hint_def split: option.splits)

lemma reparsed_path:
  assumes "parse_args quote \<lparr>ps_sets = map snd path, ps_show = show, ps_actual = []\<rparr> rest = Parsed st operands"
  shows "map fst (zip (map fst path) (ps_sets st)) = map fst path"
    and "map flag_names (map snd (zip (map fst path) (ps_sets st))) = map flag_names (map snd path)"
    and "suffix operands rest"
proof -
  note p = parse_args_parsed [OF assms]
  then have "length (ps_sets st) = length path" by (auto dest: map_eq_imp_length_eq)
  then show "map fst (zip (map fst path) (ps_sets st)) = map fst path"
    "map flag_names (map snd (zip (map fst path) (ps_sets st))) = map flag_names (map snd path)"
    using p by simp_all
  show "suffix operands rest" using p by simp
qed

lemma execute_from_outcome:
  "execute_from w pfx root path explicit rest = Some oc \<Longrightarrow> path \<noteq> [] \<Longrightarrow> chain (map fst path) \<Longrightarrow> fst (hd path) = c \<Longrightarrow>
    subseq (map cm_name (tl (map fst path)) @ rest) args \<Longrightarrow> outcome_ok w pfx root c args oc"
proof (induction "length rest" arbitrary: path explicit rest rule: less_induct)
  case less
  obtain shown where s: "parse_set root path = Some shown"
    using less.prems(1) by (subst (asm) execute_from.simps) (auto split: option.splits)
  note run = less.prems(1) [unfolded execute_from.simps [of w pfx root path] s option.case]
  show ?case
  proof (cases "parse_args (w_quote w) \<lparr>ps_sets = map snd path, ps_show = shown, ps_actual = []\<rparr> rest")
    case (Parsed st operands)
    define path1 where "path1 = zip (map fst path) (ps_sets st)"
    define explicit1 where "explicit1 = ps_actual st @ explicit"
    note p = reparsed_path [OF Parsed, folded path1_def]
    have path1: "chain (map fst path1)" "fst (hd path1) = c" "path1 \<noteq> []" "fst (last path1) = fst (last path)"
      using less.prems(2-4) p(1) by (metis list.map_sel(1) map_is_Nil_conv last_map)+
    have args: "subseq (map cm_name (tl (map fst path1)) @ operands) args"
      using less.prems(5) p(1,3) by (metis list_emb_append_mono subseq_order.order_refl subseq_order.order_trans suffix_imp_subseq)
    note run1 = run [unfolded Parsed parsed.case Let_def, folded path1_def explicit1_def]
    show ?thesis
    proof (cases "ps_show st = Some True \<or> operands = [] \<or> terminated rest operands \<or>
        find_command (cm_commands (fst (last path))) (hd operands) = None")
      case True
      then show ?thesis using run1 finish_ok [OF path1(1,2) args, of w pfx root explicit1]
        by (auto simp: printed_ok help_ok split: if_splits option.splits)
    next
      case False
      then obtain d where d: "find_command (cm_commands (fst (last path))) (hd operands) = Some d" by auto
      with False run1 have rec: "execute_from w pfx root (path1 @ [(d, cm_flags d)]) explicit1 (tl operands) = Some oc"
        by (auto split: if_splits)
      have "length (tl operands) < length rest"
        using False p(3) by (cases operands) (auto dest: suffix_length_le)
      moreover have "chain (map fst (path1 @ [(d, cm_flags d)]))"
        using chain_snoc [OF path1(1)] find_command_mem [OF d] path1(3,4) by (simp add: last_map)
      moreover have "subseq (map cm_name (tl (map fst (path1 @ [(d, cm_flags d)]))) @ tl operands) args"
        using args False path1(3) find_command_mem [OF d] by (cases operands; cases path1) auto
      ultimately show ?thesis using less.hyps [OF _ rec] path1(2,3) by simp
    qed
  qed (use run in \<open>auto simp: printed_ok refused_ok usage_hint_def\<close>)
qed

fun tree_ok :: "string list \<Rightarrow> 'v command \<Rightarrow> bool" where
  \<comment> \<open>no flag name is declared twice on a path, given the names declared above\<close>
  "tree_ok seen (Command name short long fs run cs) =
     (distinct (seen @ flag_names fs) \<and> (\<forall>c\<in>set cs. tree_ok (seen @ flag_names fs) c))"

lemma tree_ok_unfold:
  "tree_ok seen c \<longleftrightarrow> distinct (seen @ flag_names (cm_flags c)) \<and>
    (\<forall>d\<in>set (cm_commands c). tree_ok (seen @ flag_names (cm_flags c)) d)"
  by (cases c) simp

lemma parse_set_total:
  "distinct (concat (map flag_names (map snd path))) \<Longrightarrow> parse_set root path \<noteq> None"
proof -
  assume "distinct (concat (map flag_names (map snd path)))"
  moreover have "map fst (concat (map fs_flags (map snd path))) = concat (map flag_names (map snd path))"
    by (induction path) (auto simp: flag_names_def)
  ultimately show ?thesis unfolding parse_set_distinct
    by (metis mset_eq_imp_distinct_iff visible_names)
qed

lemma execute_from_total:
  "path \<noteq> [] \<Longrightarrow> distinct (concat (map flag_names (map snd path))) \<Longrightarrow>
    \<forall>d\<in>set (cm_commands (fst (last path))). tree_ok (concat (map flag_names (map snd path))) d \<Longrightarrow>
    execute_from w pfx root path explicit rest \<noteq> None"
proof (induction "length rest" arbitrary: path explicit rest rule: less_induct)
  case less
  obtain shown where s: "parse_set root path = Some shown" using parse_set_total [OF less.prems(2), of root] by auto
  show ?case
  proof (cases "parse_args (w_quote w) \<lparr>ps_sets = map snd path, ps_show = shown, ps_actual = []\<rparr> rest")
    case (Parsed st operands)
    define path1 where "path1 = zip (map fst path) (ps_sets st)"
    note p = reparsed_path [OF Parsed, folded path1_def]
    have path1: "path1 \<noteq> []" "fst (last path1) = fst (last path)"
      using less.prems(1) p(1) by (metis map_is_Nil_conv last_map)+
    have "execute_from w pfx root (path1 @ [(d, cm_flags d)]) e (tl operands) \<noteq> None"
      if "operands \<noteq> []" "find_command (cm_commands (fst (last path))) (hd operands) = Some d" for d e
    proof (rule less.hyps)
      show "length (tl operands) < length rest" using that(1) p(3) by (cases operands) (auto dest: suffix_length_le)
      have "tree_ok (concat (map flag_names (map snd path))) d" using less.prems(3) find_command_mem [OF that(2)] by blast
      then show "distinct (concat (map flag_names (map snd (path1 @ [(d, cm_flags d)]))))"
        "\<forall>x\<in>set (cm_commands (fst (last (path1 @ [(d, cm_flags d)])))).
           tree_ok (concat (map flag_names (map snd (path1 @ [(d, cm_flags d)])))) x"
        using p(2) by (subst (asm) tree_ok_unfold; simp)+
    qed simp
    then show ?thesis
      by (subst execute_from.simps) (auto simp: s Parsed Let_def path1_def [symmetric] split: option.split)
  qed (subst execute_from.simps; simp add: s)+
qed



text \<open>A flag value \<^verbatim>\<open>--\<close> is taken for the terminator: the subcommand after it is not dispatched.\<close>

lemma dash_value_terminates:
  "terminated [''-name'', ''--'', ''sub''] [''sub'']"
  "case parse_args (\<lambda>s. s) \<lparr>ps_sets = [demo_set], ps_show = None, ps_actual = []\<rparr> [''-name'', ''--'', ''sub''] of
     Parsed st operands \<Rightarrow> operands = [''sub''] \<and> map_option fd_value (find_decl (ps_sets st) ''name'') = Some ''--''
   | _ \<Rightarrow> False"
  by code_simp+

end
