(* ===== verification/HttpClient.thy ===== *)
theory HttpClient
  imports Middleware
begin

text \<open>
  The outbound client, \<^verbatim>\<open>src/httpx/client/client.go\<close>. The transport (\<^verbatim>\<open>http.Client.Do\<close>) is an
  argument: of the request it is given, it says in which chunks it read the body and what came back; so are the two
  operations of the \<^verbatim>\<open>Breaker\<close> interface, with the clock readings they take. A body the caller
  reads is a \<open>stream\<close>, its bytes and whether they end in an error.

  The locale \<open>breaker_hook\<close> states what the client needs of a breaker to fail fast; the
  interpretation on \<^verbatim>\<open>x/circuitbreaker\<close> is in \<open>ClientBreaker\<close>.
\<close>

section \<open>Configuration\<close>

definition default_timeout :: duration where "default_timeout = 30 * second"
definition default_max_idle_per_host :: int where "default_max_idle_per_host = 100"
definition default_idle_timeout :: duration where "default_idle_timeout = 90 * second"

datatype 'tls tls_settings = Default_TLS | Own_TLS 'tls
  \<comment> \<open>the default has the floor TLS 1.2 and a session cache of 64\<close>

record 'tls client_config =
  cc_timeout :: duration
  cc_idle_per_host :: int
  cc_idle_timeout :: duration
  cc_tls :: "'tls option"
  cc_breaker :: bool
  cc_log :: bool
  cc_log_request :: bool
  cc_log_response :: bool
  cc_max_body :: int

record 'tls client =
  cl_timeout :: duration
  cl_idle_per_host :: int
  cl_idle_timeout :: duration
  cl_tls :: "'tls tls_settings"
  cl_breaker :: bool
  cl_log :: bool
  cl_log_request :: bool
  cl_log_response :: bool
  cl_max_body :: int

definition new_client :: "'tls client_config \<Rightarrow> 'tls client" where
  "new_client cfg =
     \<lparr>cl_timeout = (if cc_timeout cfg = 0 then default_timeout else cc_timeout cfg),
      cl_idle_per_host = (if cc_idle_per_host cfg = 0 then default_max_idle_per_host else cc_idle_per_host cfg),
      cl_idle_timeout = (if cc_idle_timeout cfg = 0 then default_idle_timeout else cc_idle_timeout cfg),
      cl_tls = (case cc_tls cfg of None \<Rightarrow> Default_TLS | Some t \<Rightarrow> Own_TLS t),
      cl_breaker = cc_breaker cfg, cl_log = cc_log cfg, cl_log_request = cc_log_request cfg,
      cl_log_response = cc_log_response cfg, cl_max_body = pos_or_default (cc_max_body cfg) default_max_body\<rparr>"

section \<open>Requests and responses\<close>

record url =
  ur_scheme :: string
  ur_host :: string
  ur_path :: string
  ur_query :: "(string \<times> string list) list"  \<comment> \<open>as \<^verbatim>\<open>URL.Query\<close> parses it\<close>

record out_request =
  oq_request :: request
  oq_url :: url
  oq_has_body :: bool  \<comment> \<open>\<^verbatim>\<open>req.Body != nil\<close>\<close>

record stream =
  sm_bytes :: string
  sm_fails :: bool

record response =
  rs_status :: int
  rs_header :: header
  rs_length :: int  \<comment> \<open>\<^verbatim>\<open>ContentLength\<close>, -1 when unknown\<close>
  rs_body :: stream
  rs_url :: "url option"  \<comment> \<open>of \<^verbatim>\<open>resp.Request\<close>\<close>

datatype client_error = Client_Error string "string option"
  \<comment> \<open>its message, and that of the error inside the \<^verbatim>\<open>*url.Error\<close> in its chain, if there is one\<close>

datatype do_error = Circuit_Open string | Transport_Error client_error

section \<open>Capturing bodies\<close>

record capture =
  cp_buf :: string
  cp_max :: int
  cp_truncated :: bool

definition capture_write :: "capture \<Rightarrow> string \<Rightarrow> capture" where
  "capture_write cp b =
     (if cp_truncated cp then cp
      else let room = cp_max cp - int (length (cp_buf cp)) in
        if int (length b) \<le> room then cp\<lparr>cp_buf := cp_buf cp @ b\<rparr>
        else cp\<lparr>cp_buf := cp_buf cp @ take (nat room) b, cp_truncated := True\<rparr>)"

definition limit_read :: "nat \<Rightarrow> stream \<Rightarrow> string \<times> bool \<times> stream" where
  \<comment> \<open>\<^verbatim>\<open>ReadFrom\<close> of an \<^verbatim>\<open>io.LimitReader\<close>: the bytes, whether it failed, and what is left\<close>
  "limit_read n s =
     (take n (sm_bytes s), length (sm_bytes s) < n \<and> sm_fails s, s\<lparr>sm_bytes := drop n (sm_bytes s)\<rparr>)"

definition splice :: "string \<Rightarrow> stream \<Rightarrow> stream" where
  \<comment> \<open>\<^verbatim>\<open>io.MultiReader\<close>\<close>
  "splice b s = s\<lparr>sm_bytes := b @ sm_bytes s\<rparr>"

definition client_body_attrs :: "(string \<Rightarrow> string option) \<Rightarrow> (string \<Rightarrow> 'v option) \<Rightarrow> string \<Rightarrow> string \<Rightarrow> string \<Rightarrow> bool \<Rightarrow>
    'v attrs" where
  "client_body_attrs media parse key body content_type truncated =
     (let attrs = [(key @ ''_size'', AInt (int (length body)))] in
      if truncated then attrs @ [(key @ ''_truncated'', ABool True)]
      else if length body = 0 then attrs
      else case media content_type of
        None \<Rightarrow> attrs
      | Some mt \<Rightarrow>
          if mt \<noteq> ''application/json'' \<and> \<not> has_suffix mt ''+json'' then attrs
          else case parse body of None \<Rightarrow> attrs | Some v \<Rightarrow> attrs @ [(key, AValue v)])"

definition capture_response :: "(string \<Rightarrow> string option) \<Rightarrow> (string \<Rightarrow> 'v option) \<Rightarrow> int \<Rightarrow> response \<Rightarrow>
    'v attrs \<times> response" where
  "capture_response media parse max_body resp =
     (let n = rs_length resp in
      if n < 0 then ([], resp)
      else if max_body < n then ([(''response_body_size'', AInt n), (''response_body_truncated'', ABool True)], resp)
      else case limit_read (nat n) (rs_body resp) of
        (buf, failed, rest) \<Rightarrow>
          (if failed then [(''response_body_size'', AInt (int (length buf))), (''response_body_truncated'', ABool True)]
           else client_body_attrs media parse ''response_body'' buf (header_get (rs_header resp) ''Content-Type'') False,
           resp\<lparr>rs_body := splice buf rest\<rparr>))"

section \<open>The outbound line\<close>

datatype 'v client_value = CV_Query "(string \<times> string list) list" | CV_Json 'v

datatype 'v log_line = Outbound "'v client_value attrs" | Outbound_Failed "'v client_value attrs"

type_synonym transport_result = "(client_error \<times> response option) + response"

definition emit :: "(string \<Rightarrow> string option) \<Rightarrow> (string \<Rightarrow> 'v option) \<Rightarrow> 'tls client \<Rightarrow> out_request \<Rightarrow> transport_result \<Rightarrow>
    duration \<Rightarrow> capture option \<Rightarrow> 'v log_line \<times> transport_result" where
  "emit media parse c q out elapsed cap =
     (let json = (\<lambda>b. map_option CV_Json (parse b));
          resp = (case out of Inl (e, r) \<Rightarrow> r | Inr r \<Rightarrow> Some r);
          u = (case Option.bind resp rs_url of None \<Rightarrow> oq_url q | Some u \<Rightarrow> u);
          r = oq_request q;
          attrs =
            [(''method'', AStr (rq_method r)), (''url'', AStr (ur_scheme u @ ''://'' @ ur_host u @ ur_path u))]
            @ (if ur_query u \<noteq> [] then [(''query'', AValue (CV_Query (ur_query u)))] else [])
            @ [(''duration_ms'', AFloat (fdiv (of_int64 (quot elapsed 1000)) 1000))]
            @ (if trace_id_from r \<noteq> [] then [(''trace_id'', AStr (trace_id_from r))] else [])
            @ (case cap of None \<Rightarrow> []
               | Some cp \<Rightarrow> client_body_attrs media json ''request_body'' (cp_buf cp)
                   (header_get (rq_header r) ''Content-Type'') (cp_truncated cp))
      in case out of
           Inl (Client_Error msg inner, r') \<Rightarrow>
             (Outbound_Failed (attrs @ [(''error'', AStr (case inner of None \<Rightarrow> msg | Some m \<Rightarrow> m))]), out)
         | Inr resp \<Rightarrow>
             (let (more, resp') = (if cl_log_response c then capture_response media json (cl_max_body c) resp else ([], resp))
              in (Outbound (attrs @ [(''status'', AInt (rs_status resp))] @ more), Inr resp')))"

section \<open>Sending\<close>

definition client_random_hex :: "'g source \<Rightarrow> nat \<Rightarrow> 'g \<Rightarrow> string option \<times> 'g" where
  "client_random_hex rd n g = (case rd n g of (None, g') \<Rightarrow> (None, g') | (Some b, g') \<Rightarrow> (Some (hex_encode b), g'))"

lemma client_random_hex_same [simp]: "client_random_hex = random_hex"
  by (intro ext) (auto simp: client_random_hex_def random_hex_def Let_def split: prod.split option.split)

definition with_traceparent :: "'g source \<Rightarrow> out_request \<Rightarrow> 'g \<Rightarrow> out_request \<times> 'g" where
  "with_traceparent rd q g =
     (let r = oq_request q; t = trace_id_from r in
      if t \<noteq> [] \<and> header_get (rq_header r) ''Traceparent'' = [] then
        (case client_random_hex rd 8 g of
           (None, g') \<Rightarrow> (q, g')
         | (Some sid, g') \<Rightarrow>
             (q\<lparr>oq_request := r\<lparr>rq_header :=
                header_set ''Traceparent'' (''00-'' @ t @ ''-'' @ sid @ ''-'' @ trace_flags_from r) (rq_header r)\<rparr>\<rparr>, g'))
      else (q, g))"

record ('b, 'g, 'v) do_result =
  dr_result :: "(do_error \<times> response option) + response"
  dr_breaker :: 'b
  dr_source :: 'g
  dr_sent :: "out_request option"
  dr_line :: "'v log_line option"

type_synonym 'b allow_op = "instant \<Rightarrow> 'b \<Rightarrow> string option \<times> 'b"
type_synonym 'b record_op = "bool \<Rightarrow> instant \<Rightarrow> instant \<Rightarrow> 'b \<Rightarrow> 'b"  \<comment> \<open>whether the error was nil, and two clock readings\<close>
type_synonym transport = "out_request \<Rightarrow> string list \<times> transport_result"

record times =
  tm_allow :: instant
  tm_record :: instant
  tm_record2 :: instant
  tm_elapsed :: duration

definition do_request :: "(string \<Rightarrow> string option) \<Rightarrow> (string \<Rightarrow> 'v option) \<Rightarrow> 'b allow_op \<Rightarrow> 'b record_op \<Rightarrow> 'g source \<Rightarrow>
    transport \<Rightarrow> 'tls client \<Rightarrow> times \<Rightarrow> out_request \<Rightarrow> 'b \<Rightarrow> 'g \<Rightarrow> ('b, 'g, 'v) do_result" where
  "do_request media parse allow report rd send c tm q b g =
     (case (if cl_breaker c then allow (tm_allow tm) b else (None, b)) of
        (Some e, b1) \<Rightarrow>
          \<lparr>dr_result = Inl (Circuit_Open e, None), dr_breaker = b1, dr_source = g, dr_sent = None, dr_line = None\<rparr>
      | (None, b1) \<Rightarrow>
          (let (q1, g1) = with_traceparent rd q g;
               (reads, out) = send q1;
               cap = (if cl_log c \<and> cl_log_request c \<and> oq_has_body q
                      then Some (foldl capture_write \<lparr>cp_buf = [], cp_max = cl_max_body c, cp_truncated = False\<rparr> reads)
                      else None);
               b2 = (if cl_breaker c then report (\<not> isl out) (tm_record tm) (tm_record2 tm) b1 else b1);
               (line, out1) = (if cl_log c
                  then (case emit media parse c q1 out (tm_elapsed tm) cap of (l, o1) \<Rightarrow> (Some l, o1)) else (None, out))
           in \<lparr>dr_result = (case out1 of Inl (e, r) \<Rightarrow> Inl (Transport_Error e, r) | Inr r \<Rightarrow> Inr r),
               dr_breaker = b2, dr_source = g1, dr_sent = Some q1, dr_line = line\<rparr>))"

definition verb :: "(string \<Rightarrow> string \<Rightarrow> string option \<Rightarrow> string + out_request) \<Rightarrow> string \<Rightarrow> string \<Rightarrow> string \<Rightarrow> string option \<Rightarrow>
    string + out_request" where
  \<comment> \<open>\<open>new_request\<close> is \<^verbatim>\<open>http.NewRequestWithContext\<close>; the request then goes to \<^verbatim>\<open>Do\<close>\<close>
  "verb new_request meth url content_type body =
     (case new_request meth url body of
        Inl e \<Rightarrow> Inl (''client: '' @ e)
      | Inr q \<Rightarrow>
          Inr (if content_type = [] then q
               else q\<lparr>oq_request := (oq_request q)\<lparr>rq_header :=
                 header_set ''Content-Type'' content_type (rq_header (oq_request q))\<rparr>\<rparr>))"

definition client_get :: "(string \<Rightarrow> string \<Rightarrow> string option \<Rightarrow> string + out_request) \<Rightarrow> string \<Rightarrow> string + out_request" where
  "client_get new_request url = verb new_request ''GET'' url [] None"

definition client_post :: "(string \<Rightarrow> string \<Rightarrow> string option \<Rightarrow> string + out_request) \<Rightarrow> string \<Rightarrow> string \<Rightarrow> string option \<Rightarrow>
    string + out_request" where
  "client_post new_request url content_type body = verb new_request ''POST'' url content_type body"

definition client_query :: "(string \<Rightarrow> string \<Rightarrow> string option \<Rightarrow> string + out_request) \<Rightarrow> string \<Rightarrow> string \<Rightarrow> string option \<Rightarrow>
    string + out_request" where
  "client_query new_request url content_type body = verb new_request ''QUERY'' url content_type body"

section \<open>Lemmas\<close>

text \<open>The client's rule for bodies is the server middleware's.\<close>

lemma client_body_attrs_same: "client_body_attrs = body_attrs"
  by (intro ext) (simp add: client_body_attrs_def body_attrs_def Let_def split: option.split)

text \<open>A capture holds the first bytes of what went through it, at most its cap.\<close>

lemma capture_write_take:
  assumes "int (length (cp_buf cp)) \<le> cp_max cp" "cp_truncated cp \<longrightarrow> int (length (cp_buf cp)) = cp_max cp"
  shows "capture_write cp b =
     cp\<lparr>cp_buf := take (nat (cp_max cp)) (cp_buf cp @ b),
        cp_truncated := (cp_truncated cp \<or> cp_max cp < int (length (cp_buf cp @ b)))\<rparr>"
  using assms by (cases "cp_truncated cp") (auto simp: capture_write_def Let_def nat_diff_distrib nat_le_iff)

lemma captured_gen:
  "int (length (cp_buf cp)) \<le> cp_max cp \<Longrightarrow> cp_truncated cp \<longrightarrow> int (length (cp_buf cp)) = cp_max cp \<Longrightarrow>
   foldl capture_write cp reads =
     cp\<lparr>cp_buf := take (nat (cp_max cp)) (cp_buf cp @ concat reads),
        cp_truncated := (cp_truncated cp \<or> cp_max cp < int (length (cp_buf cp @ concat reads)))\<rparr>"
proof (induction reads arbitrary: cp)
  case (Cons b reads)
  define cp' where "cp' = capture_write cp b"
  note step = capture_write_take [OF Cons.prems, of b, folded cp'_def]
  have "int (length (cp_buf cp')) \<le> cp_max cp'" "cp_truncated cp' \<longrightarrow> int (length (cp_buf cp')) = cp_max cp'"
    using Cons.prems by (auto simp: step)
  note IH = Cons.IH [OF this]
  have all: "take m (take m xs @ ys) = take m (xs @ ys)" for m and xs ys :: string
    by (cases "m \<le> length xs") simp_all
  have buf: "take (nat (cp_max cp)) (cp_buf cp' @ concat reads) = take (nat (cp_max cp)) (cp_buf cp @ concat (b # reads))"
    using all [of "nat (cp_max cp)" "cp_buf cp @ b" "concat reads"] by (simp add: step del: take_append)
  have cut: "(cp_truncated cp' \<or> cp_max cp < int (length (cp_buf cp' @ concat reads))) =
      (cp_truncated cp \<or> cp_max cp < int (length (cp_buf cp @ concat (b # reads))))"
    using Cons.prems(1) by (auto simp: step)
  have "foldl capture_write cp (b # reads) = foldl capture_write cp' reads" by (simp add: cp'_def)
  also have "\<dots> = cp'\<lparr>cp_buf := take (nat (cp_max cp)) (cp_buf cp @ concat (b # reads)),
      cp_truncated := (cp_truncated cp \<or> cp_max cp < int (length (cp_buf cp @ concat (b # reads))))\<rparr>"
    unfolding IH using buf cut by (simp add: step del: take_append length_append concat.simps)
  finally show ?case by (simp add: step)
qed simp

lemma captured:
  "0 < m \<Longrightarrow> foldl capture_write \<lparr>cp_buf = [], cp_max = m, cp_truncated = False\<rparr> reads =
    \<lparr>cp_buf = take (nat m) (concat reads), cp_max = m, cp_truncated = (m < int (length (concat reads)))\<rparr>"
  by (subst captured_gen) simp_all

lemma splice_limit: "limit_read n s = (buf, failed, rest) \<Longrightarrow> splice buf rest = s"
  by (auto simp: limit_read_def splice_def)

lemma capture_response_transparent: "snd (capture_response media parse m resp) = resp"
  by (auto simp: capture_response_def Let_def dest: splice_limit split: prod.split)

lemma emit_transparent: "snd (emit media parse c q out elapsed cap) = out"
  using capture_response_transparent
  by (auto simp: emit_def Let_def case_prod_beta split: sum.splits client_error.splits)

lemma with_traceparent_rest:
  "with_traceparent rd q g = (q1, g1) \<Longrightarrow>
    oq_url q1 = oq_url q \<and> oq_has_body q1 = oq_has_body q \<and>
    oq_request q1 = (oq_request q)\<lparr>rq_header := rq_header (oq_request q1)\<rparr> \<and>
    (\<forall>k. canonical_key k \<noteq> ''Traceparent'' \<longrightarrow>
       header_values (rq_header (oq_request q1)) k = header_values (rq_header (oq_request q)) k)"
proof -
  have "canonical_key ''Traceparent'' = ''Traceparent''" by code_simp
  moreover assume "with_traceparent rd q g = (q1, g1)"
  ultimately show ?thesis unfolding with_traceparent_def Let_def
    by (cases "fst (random_hex rd 8 g)") (auto simp: header_values_set split: if_splits prod.splits)
qed

lemma with_traceparent_propagates:
  assumes "with_traceparent rd q g = (q1, g1)" "random_hex rd 8 g = (Some sid, g1)"
    and "header_get (rq_header (oq_request q)) ''Traceparent'' = []"
    and "traceparent_ok ''00'' (trace_id_from (oq_request q)) sid (trace_flags_from (oq_request q))"
  shows "parse_traceparent (header_get (rq_header (oq_request q1)) ''Traceparent'') =
    Some (trace_id_from (oq_request q), trace_flags_from (oq_request q))"
proof -
  have "trace_id_from (oq_request q) \<noteq> []" using assms(4) by (auto simp: traceparent_ok_def)
  with assms(1-3) have "header_get (rq_header (oq_request q1)) ''Traceparent'' =
      traceparent ''00'' (trace_id_from (oq_request q)) sid (trace_flags_from (oq_request q))"
    by (auto simp: with_traceparent_def Let_def header_get_set traceparent_def)
  then show ?thesis using parse_print_traceparent [OF assms(4)] by simp
qed

section \<open>Failing fast\<close>

fun do_requests :: "(string \<Rightarrow> string option) \<Rightarrow> (string \<Rightarrow> 'v option) \<Rightarrow> 'b allow_op \<Rightarrow> 'b record_op \<Rightarrow> 'g source \<Rightarrow>
    transport \<Rightarrow> 'tls client \<Rightarrow> (times \<times> out_request) list \<Rightarrow> 'b \<Rightarrow> 'g \<Rightarrow> ('b, 'g, 'v) do_result list" where
  "do_requests media parse allow report rd send c [] b g = []"
| "do_requests media parse allow report rd send c ((tm, q) # qs) b g =
     (let r = do_request media parse allow report rd send c tm q b g in
      r # do_requests media parse allow report rd send c qs (dr_breaker r) (dr_source r))"

locale breaker_hook =
  fixes allow :: "'b allow_op"
    and report :: "'b record_op"
    and blocked :: "instant \<Rightarrow> 'b \<Rightarrow> bool"
  assumes rejects: "blocked t b \<Longrightarrow> \<exists>e. allow t b = (Some e, b)"
    and earlier: "blocked t b \<Longrightarrow> u \<le> t \<Longrightarrow> blocked u b"
    and late_report: "blocked t b \<Longrightarrow> report ok u v b = b"
begin

lemma blocked_request:
  assumes "blocked (tm_allow tm) b" "cl_breaker c"
  shows "\<exists>e. do_request media parse allow report rd send c tm q b g =
    \<lparr>dr_result = Inl (Circuit_Open e, None), dr_breaker = b, dr_source = g, dr_sent = None, dr_line = None\<rparr>"
  using rejects [OF assms(1)] assms(2) by (auto simp: do_request_def)

lemma blocked_requests:
  assumes "blocked t b" "cl_breaker c"
  shows "\<forall>(tm, q)\<in>set qs. tm_allow tm \<le> t \<Longrightarrow> r \<in> set (do_requests media parse allow report rd send c qs b g) \<Longrightarrow>
    \<exists>e. r = \<lparr>dr_result = Inl (Circuit_Open e, None), dr_breaker = b, dr_source = g, dr_sent = None, dr_line = None\<rparr>"
proof (induction qs)
  case (Cons p qs)
  obtain tm q where p: "p = (tm, q)" by (cases p)
  then have "blocked (tm_allow tm) b" using Cons.prems(1) earlier [OF assms(1)] by auto
  then obtain e where "allow (tm_allow tm) b = (Some e, b)" using rejects by blast
  with Cons assms(2) show ?case by (auto simp: p Let_def do_request_def)
qed simp

end

lemma do_request_granted:
  assumes "cl_breaker c \<Longrightarrow> allow (tm_allow tm) b = (None, b1)" "\<not> cl_breaker c \<Longrightarrow> b1 = b"
    and "with_traceparent rd q g = (q1, g1)"
  shows "dr_sent (do_request media parse allow report rd send c tm q b g) = Some q1 \<and>
    dr_source (do_request media parse allow report rd send c tm q b g) = g1 \<and>
    dr_result (do_request media parse allow report rd send c tm q b g) =
      (case snd (send q1) of Inl (e, r) \<Rightarrow> Inl (Transport_Error e, r) | Inr r \<Rightarrow> Inr r) \<and>
    dr_breaker (do_request media parse allow report rd send c tm q b g) =
      (if cl_breaker c then report (\<not> isl (snd (send q1))) (tm_record tm) (tm_record2 tm) b1 else b1)"
proof -
  obtain reads out where s: "send q1 = (reads, out)" by (cases "send q1")
  have "o1 = out" if "emit media parse c q1 out el cap = (l, o1)" for el cap l o1
    using emit_transparent [of media parse c q1 out el cap] that by simp
  moreover have "(if cl_breaker c then allow (tm_allow tm) b else (None, b)) = (None, b1)" using assms(1,2) by auto
  ultimately show ?thesis using assms(3)
    by (auto simp: do_request_def s Let_def split: prod.splits)
qed

end
