(* ===== verification/TracePath.thy ===== *)
theory TracePath
  imports HttpClient
begin

text \<open>
  A trace across services: the inbound middleware \<^verbatim>\<open>Trace\<close> of \<^verbatim>\<open>src/httpx/middleware/trace.go\<close> and the outbound
  client of \<^verbatim>\<open>src/httpx/client/client.go\<close> put together. A hop is one service that answers a request
  by sending one with the request's context; a path is a list of hops.
\<close>

section \<open>Hops\<close>

record 'g service =
  sv_inbound :: request  \<comment> \<open>all of the request but its \<^verbatim>\<open>Traceparent\<close>\<close>
  sv_outbound :: out_request  \<comment> \<open>what the handler builds, all of it but the context\<close>
  sv_source :: "'g source"
  sv_state :: 'g  \<comment> \<open>of the source when \<^verbatim>\<open>Trace\<close> reads it\<close>
  sv_client_state :: 'g  \<comment> \<open>of the source when the client reads it\<close>

definition arrives :: "'g service \<Rightarrow> string \<Rightarrow> request" where
  \<comment> \<open>the request with this \<^verbatim>\<open>Traceparent\<close>, none if empty\<close>
  "arrives sv x =
     (let r = sv_inbound sv in
      r\<lparr>rq_header := (if x = [] then header_del ''Traceparent'' (rq_header r) else header_set ''Traceparent'' x (rq_header r))\<rparr>)"

definition leaves_with :: "'g service \<Rightarrow> string \<Rightarrow> out_request" where
  \<comment> \<open>the request the handler hands to the client\<close>
  "leaves_with sv x =
     (let q = sv_outbound sv; r = fst (trace (sv_source sv) (sv_state sv) (arrives sv x)) in
      q\<lparr>oq_request := (oq_request q)\<lparr>rq_ctx := rq_ctx r\<rparr>\<rparr>)"

definition hop :: "'g service \<Rightarrow> string \<Rightarrow> string" where
  "hop sv x = header_get (rq_header (oq_request (fst (with_traceparent (sv_source sv) (leaves_with sv x) (sv_client_state sv)))))
     ''Traceparent''"

section \<open>Random identifiers\<close>

definition draws :: "'g source \<Rightarrow> nat \<Rightarrow> 'g \<Rightarrow> bool" where
  \<comment> \<open>the source gives that many bytes, not all zero\<close>
  "draws rd n g \<longleftrightarrow> (case fst (rd n g) of None \<Rightarrow> False | Some b \<Rightarrow> length b = n \<and> list_ex (\<lambda>c. c \<noteq> CHR 0x00) b)"

lemma hex_digit_zero: "n < 16 \<Longrightarrow> hex_digit n = CHR ''0'' \<longleftrightarrow> n = 0"
proof
  assume "n < 16" "hex_digit n = CHR ''0''"
  then have "byte_of (hex_digit n) = 48" by simp
  with \<open>n < 16\<close> show "n = 0" by (auto simp: hex_digit_def split: if_splits)
next
  have "hex_digit 0 = CHR ''0''" by code_simp
  then show "n = 0 \<Longrightarrow> hex_digit n = CHR ''0''" by simp
qed

lemma char_of_0: "char_of (0::nat) = CHR 0x00"
  by (simp add: char_of_def)

lemma hex_encode_nonzero: "list_ex (\<lambda>c. c \<noteq> CHR 0x00) b \<Longrightarrow> \<exists>c\<in>set (hex_encode b). c \<noteq> CHR ''0''"
proof -
  assume "list_ex (\<lambda>c. c \<noteq> CHR 0x00) b"
  then obtain c where c: "c \<in> set b" "c \<noteq> CHR 0x00" by (auto simp: list_ex_iff)
  have "c = char_of (byte_of c)" by simp
  with c(2) have "byte_of c \<noteq> 0" by (metis char_of_0)
  then have "byte_of c div 16 \<noteq> 0 \<or> byte_of c mod 16 \<noteq> 0" by presburger
  moreover have "byte_of c div 16 < 16" using byte_of_less [of c] by (simp add: less_mult_imp_div_less)
  ultimately have "hex_digit (byte_of c div 16) \<noteq> CHR ''0'' \<or> hex_digit (byte_of c mod 16) \<noteq> CHR ''0''"
    by (simp add: hex_digit_zero)
  with c(1) show ?thesis by (auto simp: hex_encode_def)
qed

lemma drawn_hex:
  assumes "draws rd n g"
  obtains b g' where "rd n g = (Some b, g')" "random_hex rd n g = (Some (hex_encode b), g')"
    "length (hex_encode b) = 2 * n" "is_lower_hex (hex_encode b)" "\<exists>c\<in>set (hex_encode b). c \<noteq> CHR ''0''"
proof -
  obtain b g' where b: "rd n g = (Some b, g')" "length b = n" "list_ex (\<lambda>c. c \<noteq> CHR 0x00) b"
    using assms by (cases "rd n g") (auto simp: draws_def split: option.splits)
  show ?thesis
    by (rule that [OF b(1)]) (use b in \<open>simp_all add: random_hex_def length_hex_encode is_lower_hex_encode hex_encode_nonzero\<close>)
qed

section \<open>One hop\<close>

lemma arrives_header [simp]: "header_get (rq_header (arrives sv x)) ''Traceparent'' = x"
  by (simp add: arrives_def Let_def header_get_set header_get_del)

lemma hop_in_context:
  assumes "header_get (rq_header (oq_request (sv_outbound sv))) ''Traceparent'' = []" "draws (sv_source sv) 8 (sv_client_state sv)"
    and "fst (trace (sv_source sv) (sv_state sv) (arrives sv x)) = r" "length (trace_id_from r) = 32"
    and "length (trace_flags_from r) = 2" "is_lower_hex (trace_id_from r)" "is_lower_hex (trace_flags_from r)"
    and "\<exists>c\<in>set (trace_id_from r). c \<noteq> CHR ''0''"
  shows "parse_traceparent (hop sv x) = Some (trace_id_from r, trace_flags_from r)"
proof -
  let ?q = "leaves_with sv x"
  obtain b g' where b: "random_hex (sv_source sv) 8 (sv_client_state sv) = (Some (hex_encode b), g')"
      "length (hex_encode b) = 16" "is_lower_hex (hex_encode b)" "\<exists>c\<in>set (hex_encode b). c \<noteq> CHR ''0''"
    by (rule drawn_hex [OF assms(2)]) simp
  have ctx: "trace_id_from (oq_request ?q) = trace_id_from r" "trace_flags_from (oq_request ?q) = trace_flags_from r"
    using assms(3) by (auto simp: leaves_with_def Let_def trace_id_from_def trace_flags_from_def ctx_get_def)
  have none: "header_get (rq_header (oq_request ?q)) ''Traceparent'' = []"
    using assms(1) by (simp add: leaves_with_def Let_def)
  obtain q1 g1 where w: "with_traceparent (sv_source sv) ?q (sv_client_state sv) = (q1, g1)" by fastforce
  have "trace_id_from (oq_request ?q) \<noteq> []" using assms(4) ctx by auto
  with w b(1) none have "g1 = g'" by (auto simp: with_traceparent_def Let_def)
  have "is_lower_hex ''00''" by code_simp
  then have "traceparent_ok ''00'' (trace_id_from r) (hex_encode b) (trace_flags_from r)"
    using assms(4-8) b by (simp add: traceparent_ok_def)
  with with_traceparent_propagates [OF w b(1) [folded \<open>g1 = g'\<close>] none] show ?thesis by (simp add: hop_def w ctx)
qed

lemma hop_keeps:
  assumes "header_get (rq_header (oq_request (sv_outbound sv))) ''Traceparent'' = []"
    "draws (sv_source sv) 8 (sv_state sv)" "draws (sv_source sv) 8 (sv_client_state sv)" "parse_traceparent x = Some (t, f)"
  shows "parse_traceparent (hop sv x) = Some (t, f)"
proof -
  obtain r g where r: "trace (sv_source sv) (sv_state sv) (arrives sv x) = (r, g)" by fastforce
  obtain b g' where b: "sv_source sv 8 (sv_state sv) = (Some b, g')" by (rule drawn_hex [OF assms(2)])
  have ad: "trace_id_from r = t" "trace_flags_from r = f"
    using trace_adopts(1,2) [where r = "arrives sv x" and t = t and f = f, OF _ b r] assms(4) by simp_all
  obtain v p where "traceparent_ok v t p f" using traceparent_fields [OF assms(4)] by blast
  then show ?thesis using hop_in_context [OF assms(1,3), of x r] r ad by (auto simp: traceparent_ok_def)
qed

lemma hop_mints:
  assumes "header_get (rq_header (oq_request (sv_outbound sv))) ''Traceparent'' = []"
    "sv_source sv 16 (sv_state sv) = (Some a, g)" "draws (sv_source sv) 16 (sv_state sv)" "draws (sv_source sv) 8 g"
    "draws (sv_source sv) 8 (sv_client_state sv)" "parse_traceparent x = None"
  shows "parse_traceparent (hop sv x) = Some (hex_encode a, ''01'')"
proof -
  obtain r g2 where r: "trace (sv_source sv) (sv_state sv) (arrives sv x) = (r, g2)" by fastforce
  obtain b g' where b: "sv_source sv 8 g = (Some b, g')" by (rule drawn_hex [OF assms(4)])
  have m: "trace_id_from r = hex_encode a" "trace_flags_from r = ''01''"
    using trace_mints(1,2) [where r = "arrives sv x", OF _ assms(2) b r] assms(6) by simp_all
  have "length (hex_encode a) = 32" "is_lower_hex (hex_encode a)" "\<exists>c\<in>set (hex_encode a). c \<noteq> CHR ''0''"
    using drawn_hex [OF assms(3)] assms(2) by force+
  moreover have "is_lower_hex ''01''" by code_simp
  ultimately show ?thesis using hop_in_context [OF assms(1,5), of x r] r m by simp
qed

section \<open>Paths\<close>

definition handled :: "'g service \<Rightarrow> string \<Rightarrow> request" where
  \<comment> \<open>the request as the handler, and every log line of the service, sees it\<close>
  "handled sv x = fst (trace (sv_source sv) (sv_state sv) (arrives sv x))"

fun path_of :: "'g service list \<Rightarrow> string \<Rightarrow> (request \<times> string) list" where
  \<comment> \<open>at each service the handled request and the header it sends on\<close>
  "path_of [] x = []"
| "path_of (sv # svs) x = (handled sv x, hop sv x) # path_of svs (hop sv x)"

definition forwards :: "'g service \<Rightarrow> bool" where
  "forwards sv \<longleftrightarrow> header_get (rq_header (oq_request (sv_outbound sv))) ''Traceparent'' = [] \<and>
     draws (sv_source sv) 8 (sv_state sv) \<and> draws (sv_source sv) 8 (sv_client_state sv)"

definition starts :: "'g service \<Rightarrow> string \<Rightarrow> bool" where
  \<comment> \<open>mints the trace id of these sixteen bytes\<close>
  "starts sv a \<longleftrightarrow> header_get (rq_header (oq_request (sv_outbound sv))) ''Traceparent'' = [] \<and>
     draws (sv_source sv) 16 (sv_state sv) \<and> fst (sv_source sv 16 (sv_state sv)) = Some a \<and>
     draws (sv_source sv) 8 (snd (sv_source sv 16 (sv_state sv))) \<and> draws (sv_source sv) 8 (sv_client_state sv)"

definition carries :: "string \<Rightarrow> string \<Rightarrow> request \<times> string \<Rightarrow> bool" where
  "carries t f = (\<lambda>(r, y). trace_id_from r = t \<and> trace_flags_from r = f \<and> parse_traceparent y = Some (t, f))"

lemma forwards_carries: "forwards sv \<Longrightarrow> parse_traceparent x = Some (t, f) \<Longrightarrow> carries t f (handled sv x, hop sv x)"
proof -
  assume sv: "forwards sv" and x: "parse_traceparent x = Some (t, f)"
  obtain r g where r: "trace (sv_source sv) (sv_state sv) (arrives sv x) = (r, g)" by fastforce
  obtain b g' where b: "sv_source sv 8 (sv_state sv) = (Some b, g')" using drawn_hex sv by (metis forwards_def)
  from trace_adopts(1,2) [where r = "arrives sv x" and t = t and f = f, OF _ b r] hop_keeps [of sv x t f] sv x r
  show ?thesis by (simp add: carries_def handled_def forwards_def)
qed

lemma starts_carries:
  "starts sv a \<Longrightarrow> parse_traceparent x = None \<Longrightarrow> carries (hex_encode a) ''01'' (handled sv x, hop sv x)"
proof -
  assume sv: "starts sv a" and x: "parse_traceparent x = None"
  obtain g where a: "sv_source sv 16 (sv_state sv) = (Some a, g)"
    using sv by (cases "sv_source sv 16 (sv_state sv)") (simp add: starts_def)
  obtain r g2 where r: "trace (sv_source sv) (sv_state sv) (arrives sv x) = (r, g2)" by fastforce
  obtain b g' where b: "sv_source sv 8 g = (Some b, g')" using drawn_hex sv a by (metis starts_def snd_conv)
  from trace_mints(1,2) [where r = "arrives sv x", OF _ a b r] hop_mints [of sv a g x] sv a x r
  show ?thesis by (simp add: carries_def handled_def starts_def)
qed

lemma path_carries:
  "list_all forwards svs \<Longrightarrow> parse_traceparent x = Some (t, f) \<Longrightarrow> list_all (carries t f) (path_of svs x)"
proof (induction svs arbitrary: x)
  case (Cons sv svs)
  then have "carries t f (handled sv x, hop sv x)" by (simp add: forwards_carries)
  moreover from this have "parse_traceparent (hop sv x) = Some (t, f)" by (simp add: carries_def)
  ultimately show ?case using Cons by simp
qed simp

text \<open>C4: One trace across any number of services, each with the inbound middleware \<^verbatim>\<open>Trace\<close> and answering
  through the outbound client without a \<^verbatim>\<open>Traceparent\<close> of its own. When the first request brings a well-formed header,
  every service handles its request under that trace id and those flags, and every request sent on carries a well-formed
  header with them; when it brings none, or a malformed one, the same holds of the id the first service mints, sampled.\<close>

theorem trace_survives_path:
  assumes "case parse_traceparent x of
      Some ids \<Rightarrow> ids = (t, f) \<and> list_all forwards svs
    | None \<Rightarrow> (case svs of [] \<Rightarrow> True | sv # rest \<Rightarrow> f = ''01'' \<and> (\<exists>a. t = hex_encode a \<and> starts sv a) \<and> list_all forwards rest)"
  shows "list_all (\<lambda>(r, y). trace_id_from r = t \<and> trace_flags_from r = f \<and> parse_traceparent y = Some (t, f)) (path_of svs x)"
proof -
  have "list_all (carries t f) (path_of svs x)"
  proof (cases "parse_traceparent x")
    case (Some ids)
    with assms show ?thesis by (simp add: path_carries)
  next
    case None
    show ?thesis
    proof (cases svs)
      case (Cons sv rest)
      with None assms obtain a where a: "f = ''01''" "t = hex_encode a" "starts sv a" "list_all forwards rest" by auto
      then have "carries t f (handled sv x, hop sv x)" using None by (simp add: starts_carries)
      moreover from this have "parse_traceparent (hop sv x) = Some (t, f)" by (simp add: carries_def)
      ultimately show ?thesis using a(4) by (simp add: Cons path_carries)
    qed simp
  qed
  then show ?thesis by (simp add: carries_def case_prod_unfold)
qed

definition demo_service :: "nat service" where
  "demo_service =
     \<lparr>sv_inbound = \<lparr>rq_method = ''GET'', rq_uri = ''/'', rq_path = ''/'', rq_header = [], rq_remote = [], rq_length = 0,
        rq_body = [], rq_body_fails = False, rq_body_cap = None, rq_ctx = []\<rparr>,
      sv_outbound =
        \<lparr>oq_request = \<lparr>rq_method = ''GET'', rq_uri = ''/'', rq_path = ''/'', rq_header = [], rq_remote = [], rq_length = 0,
           rq_body = [], rq_body_fails = False, rq_body_cap = None, rq_ctx = []\<rparr>,
         oq_url = \<lparr>ur_scheme = ''http'', ur_host = ''h'', ur_path = ''/'', ur_query = []\<rparr>, oq_has_body = False\<rparr>,
      sv_source = (\<lambda>n g. (Some (replicate n (CHR 0x01)), g + 1)), sv_state = 0, sv_client_state = 2\<rparr>"

lemma demo_header: "header_get [] k = []"
  by (simp add: header_get_def header_values_def)

theorem trace_survives_path_witness:
  "length (path_of [demo_service, demo_service, demo_service] []) = 3 \<and>
   list_all (\<lambda>(r, y). trace_id_from r = hex_encode (replicate 16 (CHR 0x01)) \<and> trace_flags_from r = ''01'' \<and>
      parse_traceparent y = Some (hex_encode (replicate 16 (CHR 0x01)), ''01''))
     (path_of [demo_service, demo_service, demo_service] [])"
proof
  have none: "parse_traceparent [] = None" by code_simp
  have "starts demo_service (replicate 16 (CHR 0x01))" "forwards demo_service"
    by (simp_all add: starts_def forwards_def draws_def demo_service_def demo_header list_ex_iff)
  then show "list_all (\<lambda>(r, y). trace_id_from r = hex_encode (replicate 16 (CHR 0x01)) \<and> trace_flags_from r = ''01'' \<and>
      parse_traceparent y = Some (hex_encode (replicate 16 (CHR 0x01)), ''01''))
     (path_of [demo_service, demo_service, demo_service] [])"
    by (intro trace_survives_path) (auto simp: none)
qed simp

text \<open>A service whose source fails sends no header at all, never a malformed one.\<close>

lemma hop_well_formed:
  assumes "\<And>n g. fst (sv_source sv n g) = None \<or> draws (sv_source sv) n g" "rq_ctx (sv_inbound sv) = []"
    "header_get (rq_header (oq_request (sv_outbound sv))) ''Traceparent'' = []"
  shows "hop sv x = [] \<or> parse_traceparent (hop sv x) \<noteq> None"
proof (cases "trace_id_from (handled sv x) = [] \<or> fst (sv_source sv 8 (sv_client_state sv)) = None")
  case True
  have "trace_id_from (oq_request (leaves_with sv x)) = trace_id_from (handled sv x)"
    by (simp add: leaves_with_def Let_def handled_def trace_id_from_def ctx_get_def)
  moreover have none: "header_get (rq_header (oq_request (leaves_with sv x))) ''Traceparent'' = []"
    using assms(3) by (simp add: leaves_with_def Let_def)
  ultimately have "fst (with_traceparent (sv_source sv) (leaves_with sv x) (sv_client_state sv)) = leaves_with sv x"
    using True by (auto simp: with_traceparent_def Let_def random_hex_def split: prod.splits)
  with none show ?thesis by (simp add: hop_def)
next
  case False
  then have c: "draws (sv_source sv) 8 (sv_client_state sv)" using assms(1) [of 8 "sv_client_state sv"] by auto
  obtain r g where r: "trace (sv_source sv) (sv_state sv) (arrives sv x) = (r, g)" by fastforce
  have ctx: "trace_id_from (arrives sv x) = []"
    using assms(2) by (simp add: trace_id_from_def ctx_get_def arrives_def Let_def)
  have "trace_id_from r \<noteq> []" using False r by (simp add: handled_def)
  show ?thesis
  proof (cases "parse_traceparent x")
    case (Some ids)
    have "fst (sv_source sv 8 (sv_state sv)) \<noteq> None"
      using \<open>trace_id_from r \<noteq> []\<close> r Some ctx by (cases ids) (auto simp: trace_def random_hex_def split: prod.splits option.splits)
    then have "draws (sv_source sv) 8 (sv_state sv)" using assms(1) [of 8 "sv_state sv"] by auto
    then show ?thesis using hop_keeps [OF assms(3) _ c, of x "fst ids" "snd ids"] Some by simp
  next
    case None
    obtain a g1 where a: "sv_source sv 16 (sv_state sv) = (Some a, g1)" "fst (sv_source sv 8 g1) \<noteq> None"
      using \<open>trace_id_from r \<noteq> []\<close> r None ctx by (auto simp: trace_def random_hex_def split: prod.splits option.splits)
    moreover from this have "draws (sv_source sv) 16 (sv_state sv)" "draws (sv_source sv) 8 g1"
      using assms(1) [of 16 "sv_state sv"] assms(1) [of 8 g1] by auto
    ultimately show ?thesis using hop_mints [OF assms(3) a(1) _ _ c None] by simp
  qed
qed

end
