(* ===== verification/ClientBreaker.thy ===== *)
theory ClientBreaker
  imports HttpClient Breaker
begin

text \<open>
  The client of \<^verbatim>\<open>src/httpx/client\<close> with the breaker of \<^verbatim>\<open>src/x/circuitbreaker\<close> wired into its
  \<^verbatim>\<open>Breaker\<close> hook: the interpretation of \<open>breaker_hook\<close>, and what holds of the two together.
\<close>

definition open_text :: string where "open_text = ''circuitbreaker: open''"

definition hook_allow :: "breaker allow_op" where
  "hook_allow t b = (case Breaker.allow t b of (e, b', fired) \<Rightarrow> (map_option (\<lambda>_. open_text) e, b'))"

definition hook_record :: "breaker record_op" where
  "hook_record ok t1 t2 b = fst (record_outcome ok t1 t2 b)"

definition blocked_until :: "instant \<Rightarrow> breaker \<Rightarrow> bool" where
  "blocked_until t b \<longleftrightarrow> st b = Open \<and> 0 < open_for (cfg b) \<and> open_for (cfg b) \<le> max_duration \<and>
     t < opened_at b + open_for (cfg b)"

interpretation circuit: breaker_hook hook_allow hook_record blocked_until
  by unfold_locales (auto simp: hook_allow_def hook_record_def blocked_until_def allow_rejects record_open)

lemma hook_allow_granted: "Breaker.allow t b = (None, b', fired) \<Longrightarrow> hook_allow t b = (None, b')"
  by (simp add: hook_allow_def)

lemma traceparent_kept:
  "header_get (rq_header (oq_request q)) ''Traceparent'' \<noteq> [] \<Longrightarrow> with_traceparent rd q g = (q, g)"
  by (simp add: with_traceparent_def Let_def)

text \<open>C40: The client with the circuit breaker in its hook. While the breaker is open and \<^verbatim>\<open>OpenFor\<close> has not
  passed, no call of any sequence of calls reaches the network, writes a log line or changes the breaker: each
  returns \<^verbatim>\<open>ErrCircuitOpen\<close>. A call the breaker lets through is sent once, as the caller built it but for the
  \<^verbatim>\<open>Traceparent\<close> header; the caller gets the transport's answer with its body whole, whatever the log captured of it,
  and the breaker has recorded exactly one outcome, a success for a response of any status. The header is the
  caller's if set; otherwise it parses to the trace id and flags of the request context.\<close>

theorem client_contract:
  assumes "cl_breaker c"
  shows "(blocked_until t b \<longrightarrow> (\<forall>(tm, q)\<in>set qs. tm_allow tm \<le> t) \<longrightarrow>
      (\<forall>r\<in>set (do_requests media parse hook_allow hook_record rd send c qs b g).
         (\<exists>e. dr_result r = Inl (Circuit_Open e, None)) \<and> dr_breaker r = b \<and> dr_sent r = None \<and> dr_line r = None)) \<and>
    (Breaker.allow (tm_allow tm) b = (None, b', fired) \<longrightarrow>
      (let r = do_request media parse hook_allow hook_record rd send c tm q b g; req = oq_request q in
       \<exists>q1. dr_sent r = Some q1 \<and> oq_url q1 = oq_url q \<and>
         oq_request q1 = req\<lparr>rq_header := rq_header (oq_request q1)\<rparr> \<and>
         (\<forall>k. canonical_key k \<noteq> ''Traceparent'' \<longrightarrow>
            header_values (rq_header (oq_request q1)) k = header_values (rq_header req) k) \<and>
         dr_result r = (case snd (send q1) of Inl (e, resp) \<Rightarrow> Inl (Transport_Error e, resp) | Inr resp \<Rightarrow> Inr resp) \<and>
         dr_breaker r = fst (record_outcome (\<not> isl (snd (send q1))) (tm_record tm) (tm_record2 tm) b') \<and>
         (header_get (rq_header req) ''Traceparent'' \<noteq> [] \<longrightarrow> q1 = q) \<and>
         (\<forall>sid. header_get (rq_header req) ''Traceparent'' = [] \<longrightarrow> fst (random_hex rd 8 g) = Some sid \<longrightarrow>
            traceparent_ok ''00'' (trace_id_from req) sid (trace_flags_from req) \<longrightarrow>
            parse_traceparent (header_get (rq_header (oq_request q1)) ''Traceparent'') =
              Some (trace_id_from req, trace_flags_from req))))"
proof (intro conjI impI)
  assume "blocked_until t b" "\<forall>(tm, q)\<in>set qs. tm_allow tm \<le> t"
  from circuit.blocked_requests [OF this(1) assms this(2)]
  show "\<forall>r\<in>set (do_requests media parse hook_allow hook_record rd send c qs b g).
      (\<exists>e. dr_result r = Inl (Circuit_Open e, None)) \<and> dr_breaker r = b \<and> dr_sent r = None \<and> dr_line r = None"
    by fastforce
next
  assume "Breaker.allow (tm_allow tm) b = (None, b', fired)"
  then have a: "hook_allow (tm_allow tm) b = (None, b')" by (rule hook_allow_granted)
  obtain q1 g1 where w: "with_traceparent rd q g = (q1, g1)" by (cases "with_traceparent rd q g")
  note sent = do_request_granted [where media = media and parse = parse and report = hook_record and send = send and
    c = c and allow = hook_allow and tm = tm and b = b, OF a _ w]
  have "parse_traceparent (header_get (rq_header (oq_request q1)) ''Traceparent'') =
      Some (trace_id_from (oq_request q), trace_flags_from (oq_request q))"
    if "header_get (rq_header (oq_request q)) ''Traceparent'' = []" "fst (random_hex rd 8 g) = Some sid"
      "traceparent_ok ''00'' (trace_id_from (oq_request q)) sid (trace_flags_from (oq_request q))" for sid
  proof -
    have "trace_id_from (oq_request q) \<noteq> []" using that(3) by (auto simp: traceparent_ok_def)
    with that(1,2) w have "random_hex rd 8 g = (Some sid, g1)"
      by (auto simp: with_traceparent_def Let_def split: prod.splits)
    from with_traceparent_propagates [OF w this that(1,3)] show ?thesis .
  qed
  moreover have "q1 = q" if "header_get (rq_header (oq_request q)) ''Traceparent'' \<noteq> []"
    using traceparent_kept [OF that, of rd g] w by simp
  ultimately show "let r = do_request media parse hook_allow hook_record rd send c tm q b g; req = oq_request q in
       \<exists>q1. dr_sent r = Some q1 \<and> oq_url q1 = oq_url q \<and>
         oq_request q1 = req\<lparr>rq_header := rq_header (oq_request q1)\<rparr> \<and>
         (\<forall>k. canonical_key k \<noteq> ''Traceparent'' \<longrightarrow>
            header_values (rq_header (oq_request q1)) k = header_values (rq_header req) k) \<and>
         dr_result r = (case snd (send q1) of Inl (e, resp) \<Rightarrow> Inl (Transport_Error e, resp) | Inr resp \<Rightarrow> Inr resp) \<and>
         dr_breaker r = fst (record_outcome (\<not> isl (snd (send q1))) (tm_record tm) (tm_record2 tm) b') \<and>
         (header_get (rq_header req) ''Traceparent'' \<noteq> [] \<longrightarrow> q1 = q) \<and>
         (\<forall>sid. header_get (rq_header req) ''Traceparent'' = [] \<longrightarrow> fst (random_hex rd 8 g) = Some sid \<longrightarrow>
            traceparent_ok ''00'' (trace_id_from req) sid (trace_flags_from req) \<longrightarrow>
            parse_traceparent (header_get (rq_header (oq_request q1)) ''Traceparent'') =
              Some (trace_id_from req, trace_flags_from req))"
    using sent assms with_traceparent_rest [OF w] unfolding Let_def hook_record_def [symmetric]
    by (intro exI [of _ q1]) simp
qed

definition demo_client :: "unit client" where
  "demo_client = new_client \<lparr>cc_timeout = 0, cc_idle_per_host = 0, cc_idle_timeout = 0, cc_tls = None, cc_breaker = True,
     cc_log = True, cc_log_request = True, cc_log_response = True, cc_max_body = 8\<rparr>"

definition demo_request :: out_request where
  "demo_request =
     \<lparr>oq_request = \<lparr>rq_method = ''POST'', rq_uri = ''/'', rq_path = ''/'', rq_header = [], rq_remote = [], rq_length = 3,
        rq_body = ''abc'', rq_body_fails = False, rq_body_cap = None,
        rq_ctx = [(trace_id_key, replicate 32 (CHR ''a'')), (trace_flags_key, ''01'')]\<rparr>,
      oq_url = \<lparr>ur_scheme = ''https'', ur_host = ''h'', ur_path = ''/'', ur_query = []\<rparr>, oq_has_body = True\<rparr>"

definition demo_transport :: transport where
  "demo_transport q = ([''ab'', ''c''],
     Inr \<lparr>rs_status = 503, rs_header = [], rs_length = 2, rs_body = \<lparr>sm_bytes = ''no'', sm_fails = False\<rparr>, rs_url = None\<rparr>)"

theorem client_contract_witness:
  "let r = do_request (\<lambda>s. None) (\<lambda>s. None :: unit option) hook_allow hook_record (\<lambda>n g. (Some (replicate n (CHR ''x'')), g + (1::nat)))
       demo_transport demo_client \<lparr>tm_allow = 1, tm_record = 2, tm_record2 = 3, tm_elapsed = 1000\<rparr> demo_request (new_breaker demo_cfg) 0
   in \<not> isl (dr_result r) \<and> dr_breaker r = fst (record_outcome True 2 3 (new_breaker demo_cfg))"
proof -
  have c: "cl_breaker demo_client" by (simp add: demo_client_def new_client_def)
  have "Breaker.allow 1 (new_breaker demo_cfg) = (None, new_breaker demo_cfg, None)"
    by (simp add: Breaker.allow_def new_breaker_def Let_def)
  with client_contract [OF c, where tm = "\<lparr>tm_allow = 1, tm_record = 2, tm_record2 = 3, tm_elapsed = 1000\<rparr>" and
      q = demo_request and b = "new_breaker demo_cfg" and b' = "new_breaker demo_cfg" and fired = None and
      media = "\<lambda>s. None" and parse = "\<lambda>s. None :: unit option" and send = demo_transport and g = 0 and
      rd = "\<lambda>n g. (Some (replicate n (CHR ''x'')), g + (1::nat))",
      THEN conjunct2]
  show ?thesis by (auto simp: Let_def demo_transport_def)
qed

end
