(* ===== verification/HttpCore.thy ===== *)
theory HttpCore
  imports Middleware "HOL-Library.Char_ord" "HOL-Library.List_Lexorder"
begin

text \<open>
  The core of \<^verbatim>\<open>src/httpx\<close>: route groups (\<^verbatim>\<open>router.go\<close>), the server and its unmatched routes
  (\<^verbatim>\<open>httpx.go\<close>), JSON and RFC 9457 problem responses (\<^verbatim>\<open>respond.go\<close>), the error map
  (\<^verbatim>\<open>errormap.go\<close>), request binding (\<^verbatim>\<open>bind.go\<close>) and rendering (\<^verbatim>\<open>render.go\<close>).

  A response is the list of calls on the writer. \<^verbatim>\<open>http.ServeMux\<close> is a parameter: whether it accepts a
  pattern beside those registered, and how it routes a request. So are \<^verbatim>\<open>json.Marshal\<close> of a string and of a
  value, the streaming decoder, \<^verbatim>\<open>strings.EqualFold\<close> and \<^verbatim>\<open>http.StatusText\<close>.
\<close>

section \<open>Groups\<close>

type_synonym 'h middleware = "'h \<Rightarrow> 'h"

record 'h group =
  gp_prefix :: string
  gp_chain :: "'h middleware list"

type_synonym 'h mux = "(string \<times> 'h) list"  \<comment> \<open>in the order of registration\<close>

definition child_group :: "'h group \<Rightarrow> string \<Rightarrow> 'h middleware list \<Rightarrow> 'h group" where
  "child_group g pre mw = \<lparr>gp_prefix = gp_prefix g @ pre, gp_chain = gp_chain g @ mw\<rparr>"

definition wrap :: "'h middleware list \<Rightarrow> 'h \<Rightarrow> 'h" where
  \<comment> \<open>\<^verbatim>\<open>slices.Backward\<close>: the first of the chain is outermost\<close>
  "wrap chain h = fold (\<lambda>mw h. mw h) (rev chain) h"

definition register :: "(string list \<Rightarrow> string \<Rightarrow> bool) \<Rightarrow> 'h group \<Rightarrow> string \<Rightarrow> string \<Rightarrow> 'h \<Rightarrow> 'h mux \<Rightarrow> 'h mux option" where
  \<comment> \<open>\<open>accepts\<close> is \<^verbatim>\<open>ServeMux.Handle\<close>, which panics on a bad or conflicting pattern\<close>
  "register accepts g meth pattern h mux =
     (let p = gp_prefix g @ pattern; p' = (if meth \<noteq> [] then meth @ '' '' @ p else p) in
      if accepts (map fst mux) p' then Some (mux @ [(p', wrap (gp_chain g) h)]) else None)"

definition is_blank :: "char \<Rightarrow> bool" where "is_blank c \<longleftrightarrow> c = CHR '' '' \<or> c = CHR 0x09"

definition handle :: "(string list \<Rightarrow> string \<Rightarrow> bool) \<Rightarrow> 'h group \<Rightarrow> string \<Rightarrow> 'h \<Rightarrow> 'h mux \<Rightarrow> 'h mux option" where
  "handle accepts g pattern h mux =
     (if list_ex is_blank pattern then
        register accepts g (takeWhile (\<lambda>c. \<not> is_blank c) pattern)
          (dropWhile is_blank (tl (dropWhile (\<lambda>c. \<not> is_blank c) pattern))) h mux
      else register accepts g [] pattern h mux)"

type_synonym 'h route = "(string list \<Rightarrow> string \<Rightarrow> bool) \<Rightarrow> 'h group \<Rightarrow> string \<Rightarrow> 'h \<Rightarrow> 'h mux \<Rightarrow> 'h mux option"

definition group_get :: "'h route" where "group_get accepts g = register accepts g ''GET''"
definition group_post :: "'h route" where "group_post accepts g = register accepts g ''POST''"
definition group_put :: "'h route" where "group_put accepts g = register accepts g ''PUT''"
definition group_patch :: "'h route" where "group_patch accepts g = register accepts g ''PATCH''"
definition group_delete :: "'h route" where "group_delete accepts g = register accepts g ''DELETE''"
definition group_head :: "'h route" where "group_head accepts g = register accepts g ''HEAD''"
definition group_options :: "'h route" where "group_options accepts g = register accepts g ''OPTIONS''"
definition group_query :: "'h route" where "group_query accepts g = register accepts g ''QUERY''"

section \<open>The server\<close>

definition default_read_header_timeout :: duration where "default_read_header_timeout = 5 * second"
definition default_read_timeout :: duration where "default_read_timeout = 10 * second"
definition default_write_timeout :: duration where "default_write_timeout = 30 * second"
definition default_server_idle :: duration where "default_server_idle = 120 * second"
definition default_shutdown_grace :: duration where "default_shutdown_grace = 15 * second"
definition default_max_header_bytes :: int where "default_max_header_bytes = 2 ^ 20"

record server_config =
  sc_read_header :: duration
  sc_read :: duration
  sc_write :: duration
  sc_idle :: duration
  sc_max_header :: int
  sc_grace :: duration

definition or_default :: "int \<Rightarrow> int \<Rightarrow> int" where
  "or_default v def = (if v = 0 then def else v)"

definition server_defaults :: "server_config \<Rightarrow> server_config" where
  "server_defaults cfg =
     \<lparr>sc_read_header = or_default (sc_read_header cfg) default_read_header_timeout,
      sc_read = or_default (sc_read cfg) default_read_timeout,
      sc_write = or_default (sc_write cfg) default_write_timeout,
      sc_idle = or_default (sc_idle cfg) default_server_idle,
      sc_max_header = or_default (sc_max_header cfg) default_max_header_bytes,
      sc_grace = or_default (sc_grace cfg) default_shutdown_grace\<rparr>"

type_synonym handler = "request \<Rightarrow> handler_run"

record server =
  sv_config :: server_config
  sv_errors :: "error_writer option"
  sv_chain :: "handler middleware list"
  sv_handler :: "handler option"

definition new_server :: "server_config \<Rightarrow> error_writer option \<Rightarrow> server" where
  "new_server cfg ew = \<lparr>sv_config = server_defaults cfg, sv_errors = ew, sv_chain = [], sv_handler = None\<rparr>"

definition use :: "handler middleware list \<Rightarrow> server \<Rightarrow> server option" where
  \<comment> \<open>\<open>None\<close> is the panic after the server started serving\<close>
  "use mw s = (if sv_handler s \<noteq> None then None else Some (s\<lparr>sv_chain := sv_chain s @ mw\<rparr>))"

definition build :: "(error_writer option \<Rightarrow> handler) \<Rightarrow> server \<Rightarrow> handler \<times> server" where
  \<comment> \<open>\<open>base\<close> is the mux, behind \<open>unmatched\<close> when there is an error writer\<close>
  "build base s =
     (case sv_handler s of
        Some h \<Rightarrow> (h, s)
      | None \<Rightarrow> (let h = wrap (sv_chain s) (base (sv_errors s)) in (h, s\<lparr>sv_handler := Some h\<rparr>)))"

record discard_writer =
  dw_header :: header
  dw_status :: int

fun discard_act :: "discard_writer \<Rightarrow> action \<Rightarrow> discard_writer" where
  "discard_act d (WriteHeader st) = d\<lparr>dw_status := st\<rparr>"
| "discard_act d (Write b) = d"
| "discard_act d a = d\<lparr>dw_header := header_action a (dw_header d)\<rparr>"

record mux_route =
  mr_handler :: handler_run  \<comment> \<open>what the handler of \<^verbatim>\<open>mux.Handler(r)\<close> does with the request\<close>
  mr_pattern :: string
  mr_serve :: handler_run  \<comment> \<open>what \<^verbatim>\<open>mux.ServeHTTP\<close> does\<close>

datatype unmatched_result = By_Mux handler_run | By_Error_Writer "action list" int | Unmatched_Panic outcome

definition unmatched :: "(request \<Rightarrow> mux_route) \<Rightarrow> request \<Rightarrow> unmatched_result" where
  "unmatched mux r =
     (let m = mux r in
      if mr_pattern m \<noteq> [] then By_Mux (mr_serve m)
      else case mr_handler m of
        (as, oc) \<Rightarrow>
          if oc \<noteq> Returned then Unmatched_Panic oc
          else (let d = foldl discard_act \<lparr>dw_header = [], dw_status = 0\<rparr> as in
            if dw_status d \<noteq> 404 \<and> dw_status d \<noteq> 405 then By_Mux (mr_serve m)
            else By_Error_Writer
              (let allow = header_get (dw_header d) ''Allow'' in if allow \<noteq> [] then [HSet ''Allow'' allow] else [])
              (dw_status d)))"

definition serve_unmatched :: "(request \<Rightarrow> mux_route) \<Rightarrow> error_writer \<Rightarrow> request \<Rightarrow> writer \<Rightarrow> writer \<times> outcome" where
  "serve_unmatched mux ew r w =
     (case unmatched mux r of
        By_Mux (as, oc) \<Rightarrow> (run_actions as w, oc)
      | By_Error_Writer as st \<Rightarrow> (ew r st [] (run_actions as w), Returned)
      | Unmatched_Panic oc \<Rightarrow> (w, oc))"

datatype 'e run_event = Serve_Failed 'e | Context_Done

definition server_run :: "(duration \<Rightarrow> 'e option) \<Rightarrow> server \<Rightarrow> 'e run_event \<Rightarrow> 'e option" where
  \<comment> \<open>which of the two cases of the \<^verbatim>\<open>select\<close> is taken, and the drain within the grace\<close>
  "server_run shutdown s ev =
     (case ev of Serve_Failed e \<Rightarrow> Some e | Context_Done \<Rightarrow> shutdown (sc_grace (sv_config s)))"

section \<open>Responses\<close>

record 'v problem =
  pb_type :: string
  pb_title :: string
  pb_status :: int
  pb_detail :: string
  pb_instance :: string
  pb_extensions :: "(string \<times> 'v) list"  \<comment> \<open>a map: no key twice, in no order\<close>

definition no_problem :: "int \<Rightarrow> string \<Rightarrow> 'v problem" where
  \<comment> \<open>\<^verbatim>\<open>Problem{Status: status, Detail: detail}\<close>\<close>
  "no_problem status detail =
     \<lparr>pb_type = [], pb_title = [], pb_status = status, pb_detail = detail, pb_instance = [], pb_extensions = []\<rparr>"

record 'v json_ops =
  js_string :: "string \<Rightarrow> string"
  js_value :: "'v \<Rightarrow> string option"
  js_equal_fold :: "string \<Rightarrow> string \<Rightarrow> bool"
  js_status_text :: "int \<Rightarrow> string"

definition json_object :: "'v json_ops \<Rightarrow> (string \<times> string) list \<Rightarrow> string" where
  \<comment> \<open>of the encoded members, in order\<close>
  "json_object js ms = ''{'' @ join '','' (map (\<lambda>(k, v). js_string js k @ '':'' @ v) ms) @ ''}''"

definition omit_empty :: "'v json_ops \<Rightarrow> string \<Rightarrow> string \<Rightarrow> (string \<times> string) list" where
  "omit_empty js k s = (if s = [] then [] else [(k, js_string js s)])"

definition problem_members :: "'v json_ops \<Rightarrow> 'v problem \<Rightarrow> (string \<times> string) list" where
  \<comment> \<open>the fields of the struct with their tags\<close>
  "problem_members js p =
     omit_empty js ''type'' (pb_type p) @ omit_empty js ''title'' (pb_title p) @ [(''status'', format_int (pb_status p))]
     @ omit_empty js ''detail'' (pb_detail p) @ omit_empty js ''instance'' (pb_instance p)"

definition standard_members :: "string list" where
  "standard_members = [''type'', ''title'', ''status'', ''detail'', ''instance'']"

fun encode_members :: "('v \<Rightarrow> string option) \<Rightarrow> (string \<times> 'v) list \<Rightarrow> (string \<times> string) list option" where
  "encode_members enc [] = Some []"
| "encode_members enc ((k, v) # ms) =
     (case enc v of
        None \<Rightarrow> None
      | Some s \<Rightarrow> map_option ((#) (k, s)) (encode_members enc ms))"

definition marshal_map :: "'v json_ops \<Rightarrow> (string \<times> 'v) list \<Rightarrow> string option" where
  \<comment> \<open>\<^verbatim>\<open>json.Marshal\<close> of a map: its keys sorted\<close>
  "marshal_map js ms = map_option (json_object js) (encode_members (js_value js) (sort_key fst ms))"

definition own_extensions :: "'v json_ops \<Rightarrow> 'v problem \<Rightarrow> (string \<times> 'v) list" where
  "own_extensions js p =
     filter (\<lambda>(k, v). \<not> list_ex (\<lambda>s. js_equal_fold js s k) standard_members) (pb_extensions p)"

definition marshal_problem :: "'v json_ops \<Rightarrow> 'v problem \<Rightarrow> string option" where
  "marshal_problem js p =
     (let b = json_object js (problem_members js p) in
      if pb_extensions p = [] then Some b
      else let ext = own_extensions js p in
        if ext = [] then Some b
        else case marshal_map js ext of
          None \<Rightarrow> None
        | Some e \<Rightarrow> Some (b[length b - 1 := CHR '',''] @ tl e))"

definition fill_problem :: "'v json_ops \<Rightarrow> 'v problem \<Rightarrow> 'v problem" where
  "fill_problem js p =
     (let p1 = (if pb_status p = 0 then p\<lparr>pb_status := 500\<rparr> else p);
          p2 = (if pb_type p1 = [] then p1\<lparr>pb_type := ''about:blank''\<rparr> else p1)
      in if pb_title p2 = [] then p2\<lparr>pb_title := js_status_text js (pb_status p2)\<rparr> else p2)"

definition respond :: "'v json_ops \<Rightarrow> 'v problem \<Rightarrow> action list" where
  "respond js p0 =
     (let p = fill_problem js p0;
          b = (case marshal_problem js p of
                 Some b \<Rightarrow> b
               | None \<Rightarrow> json_object js (problem_members js (p\<lparr>pb_extensions := []\<rparr>)))
      in [HDel ''Content-Length'', HSet ''Content-Type'' ''application/problem+json'', WriteHeader (pb_status p), Write b])"

definition error_response :: "'v json_ops \<Rightarrow> int \<Rightarrow> string \<Rightarrow> action list" where
  "error_response js status detail = respond js (no_problem status detail)"

definition default_error_writer :: "'v json_ops \<Rightarrow> error_writer" where
  \<comment> \<open>what a nil \<^verbatim>\<open>ErrorWriter\<close> means wherever httpx writes an error\<close>
  "default_error_writer js r status detail w = run_actions (error_response js status detail) w"

definition json_response :: "'v json_ops \<Rightarrow> int \<Rightarrow> 'v \<Rightarrow> action list" where
  "json_response js status v =
     (case js_value js v of
        None \<Rightarrow> error_response js 500 ''response encoding failed''
      | Some b \<Rightarrow> [HSet ''Content-Type'' ''application/json'', WriteHeader status, Write b])"

section \<open>The error map\<close>

record ('e, 'v) error_map =
  em_enrich :: "(request \<Rightarrow> 'v problem \<Rightarrow> 'v problem) option"
  em_entries :: "('e \<times> 'v problem) list"

definition new_error_map :: "('e, 'v) error_map" where
  "new_error_map = \<lparr>em_enrich = None, em_entries = []\<rparr>"

definition map_error :: "'e \<Rightarrow> 'v problem \<Rightarrow> ('e, 'v) error_map \<Rightarrow> ('e, 'v) error_map" where
  "map_error target p m = m\<lparr>em_entries := em_entries m @ [(target, p)]\<rparr>"

record ('e, 'v) error_ops =
  eo_problemer :: "'e \<Rightarrow> 'v problem option"  \<comment> \<open>\<^verbatim>\<open>errors.As\<close> to a \<^verbatim>\<open>Problemer\<close>, and its \<^verbatim>\<open>Problem\<close>\<close>
  eo_is :: "'e \<Rightarrow> 'e \<Rightarrow> bool"  \<comment> \<open>\<^verbatim>\<open>errors.Is\<close>\<close>

definition problem_for :: "('e, 'v) error_ops \<Rightarrow> ('e, 'v) error_map \<Rightarrow> 'e \<Rightarrow> 'v problem" where
  "problem_for eo m err =
     (case eo_problemer eo err of
        Some p \<Rightarrow> p
      | None \<Rightarrow>
          (case List.find (\<lambda>(target, p). eo_is eo err target) (em_entries m) of
             Some (target, p) \<Rightarrow> p
           | None \<Rightarrow> no_problem 500 []))"

definition map_respond :: "('e, 'v) error_ops \<Rightarrow> 'v json_ops \<Rightarrow> ('e, 'v) error_map \<Rightarrow> 'e \<Rightarrow> action list" where
  "map_respond eo js m err = respond js (problem_for eo m err)"

definition map_respond_request :: "('e, 'v) error_ops \<Rightarrow> 'v json_ops \<Rightarrow> ('e, 'v) error_map \<Rightarrow> request \<Rightarrow> 'e \<Rightarrow> action list" where
  \<comment> \<open>the problem \<^verbatim>\<open>Enrich\<close> adjusts is a copy, so the map itself stays as it is\<close>
  "map_respond_request eo js m r err =
     respond js (case em_enrich m of None \<Rightarrow> problem_for eo m err | Some enrich \<Rightarrow> enrich r (problem_for eo m err))"

section \<open>Binding and rendering\<close>

datatype 'j bind_error = Not_JSON string | No_Content_Type | Trailing_Data | Decode_Error 'j

definition capped_body :: "int \<Rightarrow> request \<Rightarrow> string \<times> read_error option" where
  \<comment> \<open>what \<^verbatim>\<open>http.MaxBytesReader\<close> lets through, and the error it ends with if it is not the end of the body\<close>
  "capped_body n r =
     (let r1 = max_bytes_reader n r; cap = nat (the (rq_body_cap r1)) in
      if cap < length (rq_body r) then (take cap (rq_body r), Some Body_Too_Large)
      else (rq_body r, if rq_body_fails r then Some Body_Read_Failed else None))"

definition bind_request :: "(string \<Rightarrow> string option) \<Rightarrow> (string \<times> read_error option \<Rightarrow> 'j + 'v \<times> bool) \<Rightarrow> int option \<Rightarrow>
    request \<Rightarrow> 'j bind_error + 'v" where
  \<comment> \<open>\<open>decode\<close> is the streaming decoder over the capped body: the value, and whether the next token is the end\<close>
  "bind_request media decode max_body r =
     (let ct = header_get (rq_header r) ''Content-Type'' in
      if rq_method r = ''QUERY'' \<and> ct = [] then Inl No_Content_Type
      else if ct \<noteq> [] \<and> (case media ct of None \<Rightarrow> True | Some mt \<Rightarrow> mt \<noteq> ''application/json'' \<and> \<not> has_suffix mt ''+json'')
      then Inl (Not_JSON ct)
      else case decode (capped_body (case max_body of None \<Rightarrow> default_max_bind | Some n \<Rightarrow> n) r) of
        Inl e \<Rightarrow> Inl (Decode_Error e)
      | Inr (v, at_end) \<Rightarrow> if at_end then Inr v else Inl Trailing_Data)"

definition render :: "int \<Rightarrow> string list \<times> 'e option \<Rightarrow> action list \<times> 'e option" where
  \<comment> \<open>the writes of the renderer and its error\<close>
  "render status out =
     (case out of (ws, err) \<Rightarrow>
        ([HSet ''Content-Type'' ''text/html; charset=utf-8'', WriteHeader status] @ map Write ws, err))"

section \<open>Groups: lemmas\<close>

lemma wrap_foldr: "wrap chain h = foldr (\<lambda>mw h. mw h) chain h"
  by (simp add: wrap_def foldr_conv_fold)

lemma wrap_append: "wrap (a @ b) h = wrap a (wrap b h)"
  by (simp add: wrap_foldr)

text \<open>A child group is sugar: its routes are the parent's with the prefix written out and the handler wrapped.\<close>

lemma child_group_register:
  "register accepts (child_group g pre mw) meth pattern h mux = register accepts g meth (pre @ pattern) (wrap mw h) mux"
  by (simp add: register_def child_group_def wrap_append Let_def)

text \<open>\<^verbatim>\<open>Handle\<close> with a method token registers what the helper of that method does, however many blanks follow.\<close>

lemma handle_method:
  assumes "list_all (\<lambda>c. \<not> is_blank c) meth" "bs \<noteq> []" "list_all is_blank bs" "pattern \<noteq> [] \<Longrightarrow> \<not> is_blank (hd pattern)"
  shows "handle accepts g (meth @ bs @ pattern) h mux = register accepts g meth pattern h mux"
proof -
  obtain b bs' where bs: "bs = b # bs'" using assms(2) by (cases bs) auto
  have "takeWhile (\<lambda>c. \<not> is_blank c) (meth @ bs @ pattern) = meth" "dropWhile (\<lambda>c. \<not> is_blank c) (meth @ bs @ pattern) = bs @ pattern"
    using assms(1,3) by (auto simp: bs list_all_iff takeWhile_append2 dropWhile_append2)
  moreover have "dropWhile is_blank (bs' @ pattern) = pattern"
    using assms(3,4) unfolding bs by (induction bs') (auto simp: dropWhile_eq_self_iff)
  ultimately show ?thesis using assms(3) by (simp add: handle_def bs)
qed

section \<open>The server: lemmas\<close>

text \<open>The handler is built once, with the first middleware outermost, and the chain is frozen from then on.\<close>

lemma build_frozen:
  assumes "build base s = (h, s')"
  shows "build base' s' = (h, s')" "use mw s' = None"
  using assms by (auto simp: build_def use_def Let_def split: option.splits)

lemma use_then_build:
  assumes "use mw s = Some s'" "build base s' = (h, s'')"
  shows "h = wrap (sv_chain s) (wrap mw (base (sv_errors s)))"
  using assms by (auto simp: build_def use_def wrap_append Let_def split: if_splits option.splits)

text \<open>Only what the mux would answer 404 or 405 without a matching pattern goes to the error writer.\<close>

lemma unmatched_error:
  "unmatched mux r = By_Error_Writer as st \<Longrightarrow> mr_pattern (mux r) = [] \<and> (st = 404 \<or> st = 405)"
  by (auto simp: unmatched_def Let_def split: if_splits prod.splits)

section \<open>Problem responses\<close>

lemma join_append: "xs \<noteq> [] \<Longrightarrow> ys \<noteq> [] \<Longrightarrow> join sep (xs @ ys) = join sep xs @ sep @ join sep ys"
proof (induction xs rule: induct_list012)
  case (2 x)
  then show ?case by (cases ys) auto
qed auto

text \<open>The byte surgery of \<^verbatim>\<open>marshalProblem\<close> gives the encoding of one object with the members of both.\<close>

lemma splice_objects:
  assumes "ms \<noteq> []" "ns \<noteq> []" "b = json_object js ms"
  shows "b[length b - 1 := CHR '',''] @ tl (json_object js ns) = json_object js (ms @ ns)"
  using assms by (simp add: json_object_def join_append list_update_append)

lemma problem_members_ne: "problem_members js p \<noteq> []"
  by (simp add: problem_members_def)

lemma encode_members_Nil: "encode_members enc ms = Some [] \<longleftrightarrow> ms = []"
  by (cases "(enc, ms)" rule: encode_members.cases) (auto split: option.splits)

lemma marshal_problem_object:
  "marshal_problem js p =
    map_option (\<lambda>ext. json_object js (problem_members js p @ ext))
      (encode_members (js_value js) (sort_key fst (own_extensions js p)))"
proof (cases "own_extensions js p = []")
  case False
  then have "pb_extensions p \<noteq> []" by (auto simp: own_extensions_def)
  moreover have "sort_key fst (own_extensions js p) \<noteq> []" using False by (metis length_0_conv length_sort)
  then have "encode_members (js_value js) (sort_key fst (own_extensions js p)) \<noteq> Some []"
    by (simp add: encode_members_Nil)
  ultimately show ?thesis using False
    by (auto simp: marshal_problem_def Let_def marshal_map_def splice_objects [OF problem_members_ne, simplified] split: option.split)
qed (auto simp: marshal_problem_def Let_def)

definition encoded_extensions :: "'v json_ops \<Rightarrow> 'v problem \<Rightarrow> (string \<times> string) list" where
  \<comment> \<open>sorted by key, none if one of them cannot be encoded\<close>
  "encoded_extensions js p =
     (case encode_members (js_value js) (sort_key fst (own_extensions js p)) of None \<Rightarrow> [] | Some ext \<Rightarrow> ext)"

lemma problem_members_ext: "problem_members js (p\<lparr>pb_extensions := e\<rparr>) = problem_members js p"
  by (simp add: problem_members_def)

lemma respond_actions:
  "respond js p0 = [HDel ''Content-Length'', HSet ''Content-Type'' ''application/problem+json'',
     WriteHeader (pb_status (fill_problem js p0)),
     Write (json_object js (problem_members js (fill_problem js p0) @ encoded_extensions js (fill_problem js p0)))]"
  by (auto simp: respond_def Let_def marshal_problem_object encoded_extensions_def problem_members_ext split: option.split)

lemma run_problem:
  assumes "wr_status w = 0" "200 \<le> st"
  shows "let w' = run_actions [HDel ''Content-Length'', HSet ''Content-Type'' ct, WriteHeader st, Write b] w in
    wr_status w' = st \<and> header_values (wr_sent w') ''Content-Type'' = [ct] \<and>
    header_values (wr_sent w') ''Content-Length'' = [] \<and> wr_body w' = wr_body w @ b"
proof -
  have k: "canonical_key ''Content-Type'' = ''Content-Type''" "canonical_key ''Content-Length'' = ''Content-Length''" by code_simp+
  show ?thesis using assms
    by (simp add: run_actions_def write_header_final write_body_def Let_def header_values_set header_values_del k)
qed

lemma problem_for_first:
  assumes "eo_problemer eo err = None" "em_entries m = as @ (target, q) # bs" "eo_is eo err target"
    and "list_all (\<lambda>(t, p). \<not> eo_is eo err t) as"
  shows "problem_for eo m err = q"
proof -
  have "List.find (\<lambda>(t, p). eo_is eo err t) (as @ (target, q) # bs) = Some (target, q)"
    using assms(3,4) by (induction as) auto
  then show ?thesis using assms(1,2) by (simp add: problem_for_def)
qed

lemma problem_for_unmapped:
  assumes "eo_problemer eo err = None" "list_all (\<lambda>(t, p). \<not> eo_is eo err t) (em_entries m)"
  shows "problem_for eo m err = no_problem 500 []"
proof -
  have "List.find (\<lambda>(t, p). eo_is eo err t) (em_entries m) = None"
    using assms(2) by (subst find_None_iff) (auto simp: list_all_iff)
  then show ?thesis using assms(1) by (simp add: problem_for_def)
qed

text \<open>C6: What the error map writes for an error, on a writer that has sent nothing. The problem is the error's
  own, else that of the first registration it matches, adjusted by \<^verbatim>\<open>Enrich\<close> if one is set; its empty fields are filled. On
  the wire it is one JSON object: the standard members in order, then the extension members sorted by key, without those
  that name a standard member, or without extensions when one cannot be encoded; with the problem's status, the
  problem content type and no \<^verbatim>\<open>Content-Length\<close>. For an error that is neither its own problem nor registered the bytes are
  those of a bare 500, whatever the error says.\<close>

theorem error_map_response:
  assumes "wr_status w = 0"
    and "q = (case em_enrich m of None \<Rightarrow> problem_for eo m err | Some enrich \<Rightarrow> enrich r (problem_for eo m err))"
    and "p = fill_problem js q" and "200 \<le> pb_status p"
  shows "(let w' = run_actions (map_respond_request eo js m r err) w in
      wr_status w' = pb_status p \<and> header_values (wr_sent w') ''Content-Type'' = [''application/problem+json''] \<and>
      header_values (wr_sent w') ''Content-Length'' = [] \<and>
      wr_body w' = wr_body w @ json_object js (problem_members js p @ encoded_extensions js p)) \<and>
    (\<forall>k v. (k, v) \<in> set (own_extensions js p) \<longrightarrow> (k, v) \<in> set (pb_extensions p) \<and>
      (\<forall>s\<in>set standard_members. \<not> js_equal_fold js s k)) \<and>
    (\<forall>as target q' bs. eo_problemer eo err = None \<longrightarrow> em_entries m = as @ (target, q') # bs \<longrightarrow> eo_is eo err target \<longrightarrow>
      list_all (\<lambda>(t, p). \<not> eo_is eo err t) as \<longrightarrow> problem_for eo m err = q') \<and>
    (eo_problemer eo err = None \<longrightarrow> list_all (\<lambda>(t, p). \<not> eo_is eo err t) (em_entries m) \<longrightarrow>
      map_respond eo js m err = error_response js 500 [])"
proof -
  have "map_respond_request eo js m r err =
      [HDel ''Content-Length'', HSet ''Content-Type'' ''application/problem+json'', WriteHeader (pb_status p),
       Write (json_object js (problem_members js p @ encoded_extensions js p))]"
    unfolding map_respond_request_def assms(2) [symmetric] respond_actions assms(3) [symmetric] ..
  moreover have "(k, v) \<in> set (own_extensions js p) \<Longrightarrow> (k, v) \<in> set (pb_extensions p) \<and>
      (\<forall>s\<in>set standard_members. \<not> js_equal_fold js s k)" for k v
    by (auto simp: own_extensions_def list_ex_iff)
  ultimately show ?thesis using run_problem [OF assms(1,4)]
    by (auto simp: map_respond_def error_response_def problem_for_unmapped intro: problem_for_first)
qed

definition demo_json :: "int json_ops" where
  "demo_json = \<lparr>js_string = (\<lambda>s. [CHR 0x22] @ s @ [CHR 0x22]), js_value = (\<lambda>n. if n < 0 then None else Some (format_int n)),
     js_equal_fold = equal_fold_ascii, js_status_text = (\<lambda>st. if st = 404 then ''Not Found'' else [])\<rparr>"

definition demo_errors :: "(string, int) error_ops" where
  "demo_errors = \<lparr>eo_problemer = (\<lambda>e. None), eo_is = (=)\<rparr>"

definition demo_map :: "(string, int) error_map" where
  "demo_map = map_error ''missing'' ((no_problem 404 ''gone'')\<lparr>pb_extensions := [(''b'', 2), (''Status'', 9), (''a'', 1)]\<rparr>) new_error_map"

lemma demo_problem_bytes:
  "wr_body (run_actions (map_respond demo_errors demo_json demo_map ''missing'') fresh_writer) =
     json_object demo_json [(''type'', js_string demo_json ''about:blank''), (''title'', js_string demo_json ''Not Found''),
       (''status'', ''404''), (''detail'', js_string demo_json ''gone''), (''a'', ''1''), (''b'', ''2'')]"
  by code_simp

theorem error_map_response_witness:
  "\<forall>r. let w' = run_actions (map_respond_request demo_errors demo_json demo_map r ''missing'') fresh_writer in
   wr_status w' = 404 \<and> header_values (wr_sent w') ''Content-Length'' = []"
proof
  fix r
  define q where "q = problem_for demo_errors demo_map ''missing''"
  have w: "wr_status fresh_writer = 0" by (simp add: fresh_writer_def)
  have e: "em_enrich demo_map = None" by (simp add: demo_map_def map_error_def new_error_map_def)
  then have q: "q = (case em_enrich demo_map of None \<Rightarrow> problem_for demo_errors demo_map ''missing''
      | Some enrich \<Rightarrow> enrich r (problem_for demo_errors demo_map ''missing''))" by (simp add: q_def)
  have "pb_status (fill_problem demo_json q) = 404" unfolding q_def by code_simp
  with error_map_response [OF w q refl, of demo_json] show "let w' = run_actions (map_respond_request demo_errors demo_json demo_map r ''missing'') fresh_writer in
      wr_status w' = 404 \<and> header_values (wr_sent w') ''Content-Length'' = []" by (simp add: Let_def)
qed

end
