(* ===== verification/SshClient.thy ===== *)
theory SshClient
  imports Ssh GoBase
begin

text \<open>
  The life of one SSH connection, \<^verbatim>\<open>src/x/sshx\<close>: its close and keepalive loop and the ping
  (\<^verbatim>\<open>client.go\<close>), interactive sessions (\<^verbatim>\<open>session.go\<close>) and the known-hosts file (\<^verbatim>\<open>hostkey.go\<close>).
  The goroutines that share a connection or a session interleave: each of their actions is a step of a relation, and
  \<^verbatim>\<open>sync.Once\<close> makes a close one action. The calls into \<^verbatim>\<open>golang.org/x/crypto\<close> are arguments.
\<close>

section \<open>Deadlines\<close>

definition default_dial_timeout :: duration where "default_dial_timeout = 10 * second"
definition default_ping_timeout :: duration where "default_ping_timeout = 5 * second"

definition with_deadline :: "duration \<Rightarrow> instant \<Rightarrow> instant option \<Rightarrow> instant" where
  \<comment> \<open>the deadline of the context, or the default from now on\<close>
  "with_deadline def now deadline = (case deadline of Some t \<Rightarrow> t | None \<Rightarrow> now + def)"

datatype ping_event = Answered "ssh_err option" | Ping_Expired ssh_err

definition ping :: "ping_event \<Rightarrow> ssh_err option" where
  \<comment> \<open>which case of the \<^verbatim>\<open>select\<close> is taken\<close>
  "ping ev = (case ev of Answered e \<Rightarrow> e | Ping_Expired e \<Rightarrow> Some e)"

section \<open>Closing a connection\<close>

datatype ka_pc = KA_Select | KA_Ping | KA_Returned

record connection =
  cn_closed :: bool  \<comment> \<open>\<^verbatim>\<open>closeOnce\<close> has run, \<^verbatim>\<open>done\<close> is closed\<close>
  cn_close_err :: "ssh_err option"
  cn_closes :: nat  \<comment> \<open>calls of the transport's \<^verbatim>\<open>Close\<close>\<close>
  cn_keepalive :: ka_pc

definition dialed :: connection where
  "dialed = \<lparr>cn_closed = False, cn_close_err = None, cn_closes = 0, cn_keepalive = KA_Select\<rparr>"

definition client_close :: "ssh_err option \<Rightarrow> connection \<Rightarrow> ssh_err option \<times> connection" where
  \<comment> \<open>\<open>err\<close> is what the transport's \<^verbatim>\<open>Close\<close> would return\<close>
  "client_close err c =
     (let c1 = (if cn_closed c then c else c\<lparr>cn_closed := True, cn_close_err := err, cn_closes := cn_closes c + 1\<rparr>)
      in (cn_close_err c1, c1))"

definition closed_err :: "connection \<Rightarrow> ssh_err option" where
  "closed_err c = (if cn_closed c then Some Err_Closed else None)"

inductive conn_step :: "connection \<Rightarrow> connection \<Rightarrow> bool" where
  user_close: "conn_step c (snd (client_close err c))"
| ka_done: "cn_keepalive c = KA_Select \<Longrightarrow> cn_closed c \<Longrightarrow> conn_step c (c\<lparr>cn_keepalive := KA_Returned\<rparr>)"
| ka_tick: "cn_keepalive c = KA_Select \<Longrightarrow> conn_step c (c\<lparr>cn_keepalive := KA_Ping\<rparr>)"
| ka_alive: "cn_keepalive c = KA_Ping \<Longrightarrow> ping ev = None \<Longrightarrow> conn_step c (c\<lparr>cn_keepalive := KA_Select\<rparr>)"
| ka_dead: "cn_keepalive c = KA_Ping \<Longrightarrow> ping ev = Some e \<Longrightarrow>
    conn_step c ((snd (client_close err c))\<lparr>cn_keepalive := KA_Returned\<rparr>)"

inductive_cases conn_stepE: "conn_step c c'"

definition conn_ok :: "connection \<Rightarrow> bool" where
  "conn_ok c \<longleftrightarrow> cn_closes c = (if cn_closed c then 1 else 0) \<and> (cn_keepalive c = KA_Returned \<longrightarrow> cn_closed c)"

lemma client_close_closed: "cn_closed c \<Longrightarrow> client_close err c = (cn_close_err c, c)"
  by (simp add: client_close_def)

lemma conn_step_ok: "conn_step c c' \<Longrightarrow> conn_ok c \<Longrightarrow> conn_ok c'"
  by (erule conn_stepE) (auto simp: conn_ok_def client_close_def Let_def)

lemma conn_step_closed: "conn_step c c' \<Longrightarrow> cn_closed c \<Longrightarrow> cn_closed c' \<and> cn_close_err c' = cn_close_err c"
  by (erule conn_stepE) (auto simp: client_close_closed)

text \<open>The transport is closed at most once, every close returns the first one's error, and the keepalive loop only
  ends on a closed connection, on which commands and sessions are refused.\<close>

lemma dialed_ok: "conn_ok dialed"
  by (simp add: conn_ok_def dialed_def)

lemma reachable_conn_ok: "conn_step\<^sup>*\<^sup>* dialed c \<Longrightarrow> conn_ok c"
  by (induction rule: rtranclp_induct) (auto intro: conn_step_ok dialed_ok)

lemma closed_stays:
  assumes "conn_step\<^sup>*\<^sup>* c c'" "cn_closed c"
  shows "cn_closed c' \<and> client_close err c' = (cn_close_err c, c')"
proof -
  have "cn_closed c' \<and> cn_close_err c' = cn_close_err c"
    using assms by (induction rule: rtranclp_induct) (auto dest: conn_step_closed)
  then show ?thesis by (simp add: client_close_closed)
qed

lemma keepalive_ended:
  assumes "conn_step\<^sup>*\<^sup>* dialed c" "cn_keepalive c = KA_Returned"
  shows "closed_err c = Some Err_Closed \<and> run_command (cn_closed c) ns st wt = Some Err_Closed"
  using reachable_conn_ok [OF assms(1)] assms(2) by (simp add: conn_ok_def closed_err_def run_command_def)

text \<open>A failed ping leaves the connection closed, and once it is closed the loop can return within two steps.\<close>

lemma dead_peer_closed:
  "cn_keepalive c = KA_Ping \<Longrightarrow> ping ev = Some e \<Longrightarrow>
    \<exists>c'. conn_step c c' \<and> cn_closed c' \<and> cn_keepalive c' = KA_Returned"
  by (rule exI, rule conjI, rule ka_dead) (auto simp: client_close_def Let_def)

lemma closed_loop_returns:
  assumes "cn_closed c"
  shows "\<exists>c'. conn_step\<^sup>*\<^sup>* c c' \<and> cn_keepalive c' = KA_Returned"
proof (cases "cn_keepalive c")
  case KA_Select
  then have "conn_step c (c\<lparr>cn_keepalive := KA_Returned\<rparr>)" using assms by (rule ka_done)
  then show ?thesis by (intro exI [of _ "c\<lparr>cn_keepalive := KA_Returned\<rparr>"]) auto
next
  case KA_Ping
  have "ping (Ping_Expired Ctx_Deadline) = Some Ctx_Deadline" by (simp add: ping_def)
  from dead_peer_closed [OF KA_Ping this] show ?thesis by blast
qed blast

section \<open>Interactive sessions\<close>

definition default_term :: string where "default_term = ''xterm-256color''"
definition default_cols :: int where "default_cols = 80"
definition default_rows :: int where "default_rows = 24"
definition default_term_speed :: nat where "default_term_speed = 14400"

record tty_config =
  ty_term :: string
  ty_cols :: int
  ty_rows :: int

record pty_request =
  py_term :: string
  py_rows :: int
  py_cols :: int
  py_modes :: "(string \<times> nat) list"

definition pty_for :: "tty_config \<Rightarrow> pty_request" where
  "pty_for t =
     \<lparr>py_term = (if ty_term t = [] then default_term else ty_term t),
      py_rows = (if ty_rows t \<le> 0 then default_rows else ty_rows t),
      py_cols = (if ty_cols t \<le> 0 then default_cols else ty_cols t),
      py_modes = [(''ECHO'', 1), (''TTY_OP_ISPEED'', default_term_speed), (''TTY_OP_OSPEED'', default_term_speed)]\<rparr>"

text \<open>The calls \<^verbatim>\<open>Shell\<close> makes on the session it opened, in order.\<close>

datatype session_call = Request_Pty pty_request | Start_Shell | Close_Session | Watch_Ctx

definition start_shell :: "bool \<Rightarrow> ssh_err option \<Rightarrow> tty_config option \<Rightarrow> (pty_request \<Rightarrow> ssh_err option) \<Rightarrow> ssh_err option \<Rightarrow>
    session_call list \<times> ssh_err option" where
  \<comment> \<open>arguments: the client is closed; the errors of \<^verbatim>\<open>NewSession\<close>, \<^verbatim>\<open>RequestPty\<close> and \<^verbatim>\<open>Shell\<close>\<close>
  "start_shell closed new_session tty request_pty shell_err =
     (if closed then ([], Some Err_Closed)
      else case new_session of
        Some e \<Rightarrow> ([], Some e)
      | None \<Rightarrow>
          (let calls = (case tty of None \<Rightarrow> [] | Some t \<Rightarrow> [Request_Pty (pty_for t)]) in
           case Option.bind tty (\<lambda>t. request_pty (pty_for t)) of
             Some e \<Rightarrow> (calls @ [Close_Session], Some e)
           | None \<Rightarrow>
               (case shell_err of
                  Some e \<Rightarrow> (calls @ [Start_Shell, Close_Session], Some e)
                | None \<Rightarrow> (calls @ [Start_Shell, Watch_Ctx], None))))"

lemma start_shell_no_leak:
  "start_shell closed ns tty rp sh = (calls, err) \<Longrightarrow> calls \<noteq> [] \<Longrightarrow>
    (err = None \<longrightarrow> last calls = Watch_Ctx) \<and> (err \<noteq> None \<longrightarrow> last calls = Close_Session)"
  by (auto simp: start_shell_def Let_def split: if_splits option.splits)

lemma pty_for_positive: "0 < py_rows (pty_for t) \<and> 0 < py_cols (pty_for t) \<and> py_term (pty_for t) \<noteq> []"
  by (auto simp: pty_for_def default_rows_def default_cols_def default_term_def)

text \<open>
  A session after \<^verbatim>\<open>Shell\<close> has started it: the watcher of the context is registered by
  \<^verbatim>\<open>context.AfterFunc\<close>, and its \<^verbatim>\<open>stop\<close> is stored in the session afterwards. A call of the nil \<^verbatim>\<open>stop\<close> panics.
\<close>

record session =
  sn_watching :: bool
  sn_stop_set :: bool  \<comment> \<open>\<^verbatim>\<open>s.stop\<close> is assigned; \<^verbatim>\<open>Shell\<close> then returns\<close>
  sn_detached :: bool
  sn_fired :: bool  \<comment> \<open>the context is done and the watcher's goroutine runs\<close>
  sn_closed :: bool
  sn_close_err :: "ssh_err option"
  sn_closes :: nat
  sn_panicked :: bool

definition new_session :: session where
  "new_session = \<lparr>sn_watching = False, sn_stop_set = False, sn_detached = False, sn_fired = False, sn_closed = False,
     sn_close_err = None, sn_closes = 0, sn_panicked = False\<rparr>"

definition session_close :: "ssh_err option \<Rightarrow> session \<Rightarrow> session" where
  "session_close err s =
     (if sn_closed s then s
      else if \<not> sn_stop_set s then s\<lparr>sn_closed := True, sn_panicked := True\<rparr>
      else s\<lparr>sn_closed := True, sn_detached := True, sn_close_err := err, sn_closes := sn_closes s + 1\<rparr>)"

definition session_wait :: "session \<Rightarrow> session" where
  \<comment> \<open>after the remote shell has exited\<close>
  "session_wait s = s\<lparr>sn_detached := True\<rparr>"

inductive session_step :: "session \<Rightarrow> session \<Rightarrow> bool" where
  register: "\<not> sn_watching s \<Longrightarrow> session_step s (s\<lparr>sn_watching := True\<rparr>)"
| store_stop: "sn_watching s \<Longrightarrow> session_step s (s\<lparr>sn_stop_set := True\<rparr>)"
| fire: "sn_watching s \<Longrightarrow> \<not> sn_detached s \<Longrightarrow> session_step s (s\<lparr>sn_fired := True\<rparr>)"
| watcher_close: "sn_fired s \<Longrightarrow> session_step s (session_close err s)"
| user_close: "sn_stop_set s \<Longrightarrow> session_step s (session_close err s)"
| waited: "sn_stop_set s \<Longrightarrow> session_step s (session_wait s)"

inductive_cases session_stepE: "session_step s s'"

definition session_ok :: "session \<Rightarrow> bool" where
  "session_ok s \<longleftrightarrow> sn_closes s = (if sn_closed s \<and> \<not> sn_panicked s then 1 else 0) \<and> (sn_panicked s \<longrightarrow> sn_closed s)"

lemma session_step_ok: "session_step s s' \<Longrightarrow> session_ok s \<Longrightarrow> session_ok s'"
  by (erule session_stepE) (auto simp: session_ok_def session_close_def session_wait_def)

lemma new_session_ok: "session_ok new_session"
  by (simp add: session_ok_def new_session_def)

lemma reachable_session_ok: "session_step\<^sup>*\<^sup>* new_session s \<Longrightarrow> session_ok s"
  by (induction rule: rtranclp_induct) (auto intro: session_step_ok new_session_ok)

text \<open>Once \<^verbatim>\<open>stop\<close> is stored on a session that is still open, no close panics.\<close>

lemma stored_stop_safe:
  assumes "session_step\<^sup>*\<^sup>* s s'" "sn_stop_set s" "\<not> sn_panicked s"
  shows "sn_stop_set s' \<and> \<not> sn_panicked s'"
  using assms
  by (induction rule: rtranclp_induct) (auto simp: session_close_def session_wait_def elim!: session_stepE split: if_splits)

text \<open>A context that ends between the two statements, or had ended before, lets the watcher call the nil \<^verbatim>\<open>stop\<close>.\<close>

lemma early_cancel_panics: "\<exists>s. session_step\<^sup>*\<^sup>* new_session s \<and> sn_panicked s"
proof -
  let ?s1 = "new_session\<lparr>sn_watching := True\<rparr>"
  let ?s2 = "?s1\<lparr>sn_fired := True\<rparr>"
  have "session_step new_session ?s1" by (rule register) (simp add: new_session_def)
  moreover have "session_step ?s1 ?s2" by (rule fire) (simp_all add: new_session_def)
  moreover have "session_step ?s2 (session_close None ?s2)" by (rule watcher_close) (simp add: new_session_def)
  moreover have "sn_panicked (session_close None ?s2)" by (simp add: session_close_def new_session_def)
  ultimately show ?thesis by (meson converse_rtranclp_into_rtranclp rtranclp.rtrancl_refl)
qed

section \<open>The known-hosts file\<close>

definition open_known_hosts :: "'k known_hosts_ops \<Rightarrow> ssh_err option \<Rightarrow> ssh_err option \<Rightarrow> string option \<Rightarrow>
    (ssh_err + 'k kh_verifier) \<times> string option" where
  \<comment> \<open>arguments: the errors of \<^verbatim>\<open>MkdirAll\<close> and of opening with \<^verbatim>\<open>O_CREATE\<close>, the file's content if it exists\<close>
  "open_known_hosts kh mkdir_err open_err content =
     (case mkdir_err of
        Some e \<Rightarrow> (Inl e, content)
      | None \<Rightarrow>
          (case open_err of
             Some e \<Rightarrow> (Inl e, content)
           | None \<Rightarrow> (let pins = (case content of None \<Rightarrow> [] | Some s \<Rightarrow> s) in (kh_parse kh pins, Some pins))))"

definition known_hosts :: "'k known_hosts_ops \<Rightarrow> ssh_err option \<Rightarrow> ssh_err option \<Rightarrow> string option \<Rightarrow>
    (ssh_err + (string \<Rightarrow> string option \<Rightarrow> 'k \<Rightarrow> ssh_err option)) \<times> string option" where
  "known_hosts kh mkdir_err open_err content =
     (case open_known_hosts kh mkdir_err open_err content of
        (Inl e, content') \<Rightarrow> (Inl e, content')
      | (Inr verify, content') \<Rightarrow> (Inr (strict_check kh verify), content'))"

definition insecure_accept_any :: "string \<Rightarrow> string option \<Rightarrow> 'k \<Rightarrow> ssh_err option" where
  "insecure_accept_any hostname remote key = None"

lemma known_hosts_keeps: "known_hosts kh me oe (Some pins) = (r, content) \<Longrightarrow> content = Some pins"
  by (auto simp: known_hosts_def open_known_hosts_def Let_def split: option.splits sum.splits)

definition tofu :: "'k known_hosts_ops \<Rightarrow> (string \<Rightarrow> string option \<Rightarrow> 'k \<Rightarrow> ssh_err + bool) option \<Rightarrow>
    ssh_err option \<Rightarrow> ssh_err option \<Rightarrow> string option \<Rightarrow>
    (ssh_err + (file_outcome \<Rightarrow> string \<Rightarrow> string \<Rightarrow> string option \<Rightarrow> 'k \<Rightarrow> ssh_err option \<times> string \<times> bool)) \<times> string option" where
  \<comment> \<open>the callback \<^verbatim>\<open>TOFU\<close> returns holds the verifier of the file as it was then\<close>
  "tofu kh confirm mkdir_err open_err content =
     (case open_known_hosts kh mkdir_err open_err content of
        (Inl e, content') \<Rightarrow> (Inl e, content')
      | (Inr verify, content') \<Rightarrow> (Inr (tofu_check kh verify confirm), content'))"

text \<open>Without a \<open>confirm\<close>, trust on first use is the strict policy and never writes.\<close>

lemma tofu_strict:
  assumes "tofu kh None me oe content = (Inr callback, content')"
  obtains check where "known_hosts kh me oe content = (Inr check, content')"
    "\<And>fo pins h r k. callback fo pins h r k = (check h r k, pins, False)"
proof -
  obtain verify where open': "open_known_hosts kh me oe content = (Inr verify, content')" "callback = tofu_check kh verify None"
    using assms by (auto simp: tofu_def split: prod.splits sum.splits)
  then have "known_hosts kh me oe content = (Inr (strict_check kh verify), content')" by (simp add: known_hosts_def)
  moreover have "callback fo pins h r k = (strict_check kh verify h r k, pins, False)" for fo pins h r k
    by (auto simp: open' tofu_check_def split: option.split)
  ultimately show ?thesis by (rule that)
qed

end
