(* ===== verification/SshExec.thy ===== *)
theory SshExec
  imports Ssh
begin

text \<open>
  What a remote command printed, \<^verbatim>\<open>src/x/sshx/exec.go\<close>: the transport pumps standard output and standard error
  from two goroutines into \<^verbatim>\<open>syncBuffer\<close>s, one shared buffer for \<^verbatim>\<open>CombinedOutput\<close>. The copy of a chunk is not atomic:
  it is one step per byte, and only the lock keeps a chunk in one piece.
\<close>

section \<open>Buffers shared by the two pumps\<close>

datatype stream = Std_Out | Std_Err

record sync_buffer =
  sb_todo :: "stream \<Rightarrow> string list"  \<comment> \<open>the chunks each pump still has to write\<close>
  sb_lock :: "(stream \<times> string) option"  \<comment> \<open>who holds \<^verbatim>\<open>mu\<close>, and the bytes of its chunk not yet copied\<close>
  sb_data :: string

definition sync_start :: "(stream \<Rightarrow> string list) \<Rightarrow> sync_buffer" where
  "sync_start queue = \<lparr>sb_todo = queue, sb_lock = None, sb_data = []\<rparr>"

inductive write_step :: "sync_buffer \<Rightarrow> sync_buffer \<Rightarrow> bool" where
  write_lock: "sb_lock b = None \<Longrightarrow> sb_todo b s = c # cs \<Longrightarrow>
    write_step b (b\<lparr>sb_todo := (sb_todo b)(s := cs), sb_lock := Some (s, c)\<rparr>)"
| write_byte: "sb_lock b = Some (s, x # rest) \<Longrightarrow>
    write_step b (b\<lparr>sb_lock := Some (s, rest), sb_data := sb_data b @ [x]\<rparr>)"
| write_unlock: "sb_lock b = Some (s, []) \<Longrightarrow> write_step b (b\<lparr>sb_lock := None\<rparr>)"

inductive_cases write_stepE: "write_step b b'"

definition snapshot :: "sync_buffer \<Rightarrow> string option" where
  \<comment> \<open>\<^verbatim>\<open>String\<close> and \<^verbatim>\<open>Bytes\<close>, which wait for the lock\<close>
  "snapshot b = (if sb_lock b = None then Some (sb_data b) else None)"

definition combined_output :: "sync_buffer \<Rightarrow> ssh_err option \<Rightarrow> (string \<times> ssh_err option) option" where
  \<comment> \<open>of the buffer when \<open>run_command\<close> has returned \<open>err\<close>\<close>
  "combined_output b err = map_option (\<lambda>s. (s, err)) (snapshot b)"

definition separate_output :: "sync_buffer \<Rightarrow> sync_buffer \<Rightarrow> ssh_err option \<Rightarrow> (result \<times> ssh_err option) option" where
  "separate_output out_buf err_buf err =
     (case (snapshot out_buf, snapshot err_buf) of
        (Some out, Some errs) \<Rightarrow> Some (command_output out errs err)
      | _ \<Rightarrow> None)"

section \<open>Chunks stay whole and in order\<close>

definition written :: "(stream \<times> string) list \<Rightarrow> stream \<Rightarrow> string list" where
  "written ws s = map snd (filter (\<lambda>(t, c). t = s) ws)"

lemma written_simps [simp]:
  "written [] s = []" "written (ws @ [(t, c)]) s = (if t = s then written ws s @ [c] else written ws s)"
  by (simp_all add: written_def)

definition interleaved :: "(stream \<Rightarrow> string list) \<Rightarrow> sync_buffer \<Rightarrow> (stream \<times> string) list \<Rightarrow> bool" where
  \<comment> \<open>\<open>ws\<close> are the writes that have finished\<close>
  "interleaved queue b ws \<longleftrightarrow>
     (case sb_lock b of
        None \<Rightarrow> sb_data b = concat (map snd ws) \<and> (\<forall>s. queue s = written ws s @ sb_todo b s)
      | Some (t, rest) \<Rightarrow>
          (\<exists>copied. sb_data b = concat (map snd ws) @ copied \<and>
             (\<forall>s. queue s = written ws s @ (if s = t then [copied @ rest] else []) @ sb_todo b s)))"

lemma write_step_interleaved:
  assumes "write_step b b'" "interleaved queue b ws"
  shows "\<exists>ws'. interleaved queue b' ws'"
  using assms
proof (cases rule: write_step.cases)
  case (write_lock s c cs)
  with assms(2) have "interleaved queue b' ws" by (auto simp: interleaved_def)
  then show ?thesis ..
next
  case (write_byte s x rest)
  with assms(2) have "interleaved queue b' ws" by (auto simp: interleaved_def)
  then show ?thesis ..
next
  case (write_unlock s)
  with assms(2) obtain copied where "sb_data b = concat (map snd ws) @ copied"
    "\<forall>t. queue t = written ws t @ (if t = s then [copied] else []) @ sb_todo b t"
    by (auto simp: interleaved_def)
  with write_unlock have "interleaved queue b' (ws @ [(s, copied)])" by (auto simp: interleaved_def)
  then show ?thesis ..
qed

lemma reachable_interleaved:
  "write_step\<^sup>*\<^sup>* (sync_start queue) b \<Longrightarrow> \<exists>ws. interleaved queue b ws"
proof (induction rule: rtranclp_induct)
  case base
  have "interleaved queue (sync_start queue) []" by (simp add: interleaved_def sync_start_def)
  then show ?case ..
qed (blast intro: write_step_interleaved)

text \<open>
  Whatever the scheduling, and also when the context ends while the pumps are still at work: what
  \<^verbatim>\<open>CombinedOutput\<close> returns is a sequence of whole chunks, those of each stream in their order and from its beginning.
\<close>

theorem combined_output_interleaves:
  assumes "write_step\<^sup>*\<^sup>* (sync_start queue) b" "combined_output b err = Some (s, err')"
  shows "err' = err \<and> (\<exists>ws. s = concat (map snd ws) \<and> (\<forall>t. queue t = written ws t @ sb_todo b t))"
  using reachable_interleaved [OF assms(1)] assms(2)
  by (auto simp: combined_output_def snapshot_def interleaved_def split: if_splits)

lemma single_stream: "(\<And>t. t \<noteq> s \<Longrightarrow> written ws t = []) \<Longrightarrow> map snd ws = written ws s"
proof (induction ws)
  case (Cons w ws)
  obtain t c where w: "w = (t, c)" by (cases w)
  have "t = s" using Cons.prems [of t] by (auto simp: w written_def)
  with Cons w show ?case by (auto simp: written_def split: if_splits)
qed (simp add: written_def)

text \<open>With a buffer of its own, a stream is returned up to a chunk, and all of it once its pump has ended.\<close>

lemma own_buffer_prefix:
  assumes "write_step\<^sup>*\<^sup>* (sync_start ((\<lambda>_. [])(s := cs))) b" "snapshot b = Some data"
  shows "\<exists>n. data = concat (take n cs) \<and> sb_todo b s = drop n cs"
proof -
  obtain ws where ws: "interleaved ((\<lambda>_. [])(s := cs)) b ws" using reachable_interleaved [OF assms(1)] by blast
  have free: "sb_lock b = None" "data = sb_data b" using assms(2) by (auto simp: snapshot_def split: if_splits)
  have eq: "((\<lambda>_. [])(s := cs)) t = written ws t @ sb_todo b t" for t using ws free by (simp add: interleaved_def)
  have "written ws t = []" if "t \<noteq> s" for t using eq [of t] that by simp
  then have "map snd ws = written ws s" by (rule single_stream)
  with ws free eq [of s] show ?thesis by (intro exI [of _ "length (written ws s)"]) (auto simp: interleaved_def)
qed

text \<open>The buffer never blocks for good: whoever holds the lock can go on and gives it back.\<close>

lemma lock_released:
  "sb_lock b = Some (s, rest) \<Longrightarrow>
    write_step\<^sup>*\<^sup>* b (b\<lparr>sb_lock := None, sb_data := sb_data b @ rest\<rparr>)"
proof (induction rest arbitrary: b)
  case Nil
  then show ?case using write_unlock [of b s] by auto
next
  case (Cons x rest)
  let ?b = "b\<lparr>sb_lock := Some (s, rest), sb_data := sb_data b @ [x]\<rparr>"
  have "write_step b ?b" using Cons.prems by (rule write_byte)
  moreover have "write_step\<^sup>*\<^sup>* ?b (?b\<lparr>sb_lock := None, sb_data := sb_data ?b @ rest\<rparr>)" by (rule Cons.IH) simp
  ultimately show ?case by (simp add: converse_rtranclp_into_rtranclp)
qed

section \<open>Error texts\<close>

definition unknown_host_text :: "string \<Rightarrow> string \<Rightarrow> string \<Rightarrow> string" where
  "unknown_host_text host key_type fingerprint =
     ''sshx: unknown host key for '' @ host @ '' ('' @ key_type @ '' '' @ fingerprint @ '')''"

definition host_mismatch_text :: "string \<Rightarrow> string \<Rightarrow> string \<Rightarrow> string" where
  "host_mismatch_text host key_type fingerprint =
     ''sshx: host key mismatch for '' @ host @ '' ('' @ key_type @ '' '' @ fingerprint @ '')''"

fun error_text :: "(ssh_err \<Rightarrow> string) \<Rightarrow> ssh_err \<Rightarrow> string" where
  \<comment> \<open>\<open>lib\<close> gives the texts of the errors of other packages\<close>
  "error_text lib Host_Key_Required = ''sshx: host key policy required''"
| "error_text lib Auth_Required = ''sshx: at least one auth method required''"
| "error_text lib Err_Closed = ''sshx: closed''"
| "error_text lib Not_Ready = ''sshx: connection not ready''"
| "error_text lib Ctx_Canceled = ''context canceled''"
| "error_text lib Ctx_Deadline = ''context deadline exceeded''"
| "error_text lib (Unknown_Host_Key host key_type fingerprint) = unknown_host_text host key_type fingerprint"
| "error_text lib (Host_Key_Mismatch host key_type fingerprint) = host_mismatch_text host key_type fingerprint"
| "error_text lib (Dial_Error stage addr e) = ''sshx: dial '' @ addr @ '': '' @ stage @ '': '' @ error_text lib e"
| "error_text lib (Join a b) = error_text lib a @ [LF] @ error_text lib b"
| "error_text lib e = lib e"

text \<open>A client of a closed pool, or one that waited too long, is not taken for a rejected key.\<close>

lemma contains_chars: "contains s p \<Longrightarrow> set p \<subseteq> set s"
  by (auto simp: contains_iff)

lemma own_errors_no_auth_failure:
  assumes "e \<in> {Host_Key_Required, Auth_Required, Err_Closed, Not_Ready, Ctx_Canceled, Ctx_Deadline}"
  shows "\<not> is_auth_failure (error_text lib) (Some e)"
proof -
  have "CHR ''b'' \<notin> set (error_text lib e)" "err_find is_dial_error e = None"
    using assms by (auto simp: err_find.simps is_dial_error_def)
  moreover have "CHR ''b'' \<in> set ''unable to authenticate''" by simp
  ultimately have "\<not> contains (error_text lib e) ''unable to authenticate''" by (blast dest: contains_chars)
  with \<open>err_find is_dial_error e = None\<close> show ?thesis by (simp add: is_auth_failure_def)
qed

end
