(* ===== verification/MigrateCommand.thy ===== *)
theory MigrateCommand
  imports CliSpec
begin

text \<open>
  The command tree of \<^verbatim>\<open>src/cli/migrationx/command.go\<close>, as a value of the command type of \<^verbatim>\<open>src/cli\<close>. What
  the four verbs run is an argument; the migrator's side of \<^verbatim>\<open>up\<close> and \<^verbatim>\<open>down\<close>, given the flags read here,
  is in \<open>Migrator\<close>.
\<close>

section \<open>The tree\<close>

fun declare_all :: "('f::zero, 'p, 'c) value_ops \<Rightarrow> (string \<times> ('f, 'p, 'c) fval \<times> string) list \<Rightarrow>
    ('f, 'p, 'c) fval flag_set \<Rightarrow> ('f, 'p, 'c) fval flag_set option" where
  "declare_all vo [] fs = Some fs"
| "declare_all vo ((n, v, usage) # ds) fs =
     (case declare_flag n (typed_flag vo v usage) fs of None \<Rightarrow> None | Some fs' \<Rightarrow> declare_all vo ds fs')"

definition create_flags :: "(string \<times> ('f, 'p, 'c) fval \<times> string) list" where
  "create_flags = [(''dir'', V_String ''migrations'', ''migrations directory'')]"

definition up_flags :: "(string \<times> ('f, 'p, 'c) fval \<times> string) list" where
  "up_flags =
     [(''one'', V_Bool False, ''apply exactly one migration''),
      (''to'', V_Int64 0, ''apply up to and including this version''),
      (''allow-out-of-order'', V_Bool False, ''apply late-merged migrations older than the newest applied'')]"

definition down_flags :: "(string \<times> ('f, 'p, 'c) fval \<times> string) list" where
  "down_flags =
     [(''all'', V_Bool False, ''roll back everything''),
      (''to'', V_Int64 0, ''roll back to (and keep) this version'')]"

record ('f, 'p, 'c) migrate_runs =
  mr_create :: "('f, 'p, 'c) fval run"
  mr_up :: "('f, 'p, 'c) fval run"
  mr_down :: "('f, 'p, 'c) fval run"
  mr_status :: "('f, 'p, 'c) fval run"

definition verb_command :: "('f::zero, 'p, 'c) value_ops \<Rightarrow> string \<Rightarrow> string \<Rightarrow> (string \<times> ('f, 'p, 'c) fval \<times> string) list \<Rightarrow>
    ('f, 'p, 'c) fval run \<Rightarrow> ('f, 'p, 'c) fval command" where
  "verb_command vo name short flags run = Command name short [] (the (declare_all vo flags new_flag_set)) (Some run) []"

definition migrate_command :: "('f::zero, 'p, 'c) value_ops \<Rightarrow> ('f, 'p, 'c) migrate_runs \<Rightarrow> ('f, 'p, 'c) fval command" where
  "migrate_command vo rs =
     Command ''migrate'' ''manage database migrations'' [] new_flag_set None
       [verb_command vo ''create'' ''scaffold a timestamped migration pair'' create_flags (mr_create rs),
        verb_command vo ''up'' ''apply pending migrations'' up_flags (mr_up rs),
        verb_command vo ''down'' ''roll back the newest migration'' down_flags (mr_down rs),
        verb_command vo ''status'' ''show applied and pending migrations'' [] (mr_status rs)]"

section \<open>Reading the flags\<close>

definition bool_of :: "(string \<times> ('f, 'p, 'c) fval) list \<Rightarrow> string \<Rightarrow> bool" where
  "bool_of vals n = (case map_of vals n of Some (V_Bool b) \<Rightarrow> b | _ \<Rightarrow> False)"

definition int_of :: "(string \<times> ('f, 'p, 'c) fval) list \<Rightarrow> string \<Rightarrow> int" where
  "int_of vals n = (case map_of vals n of Some (V_Int64 v) \<Rightarrow> v | _ \<Rightarrow> 0)"

definition up_args :: "(string \<times> ('f, 'p, 'c) fval) list \<Rightarrow> bool \<times> int \<times> bool" where
  \<comment> \<open>the variables \<^verbatim>\<open>one\<close>, \<^verbatim>\<open>upTo\<close> and \<^verbatim>\<open>allowOOO\<close>\<close>
  "up_args vals = (bool_of vals ''one'', int_of vals ''to'', bool_of vals ''allow-out-of-order'')"

definition down_args :: "(string \<times> ('f, 'p, 'c) fval) list \<Rightarrow> bool \<times> int" where
  "down_args vals = (bool_of vals ''all'', int_of vals ''to'')"

definition create_usage :: string where
  "create_usage = ''migrationx: create takes exactly one argument: the migration name''"

definition create_run :: "(string \<Rightarrow> string \<Rightarrow> string + string \<times> string) \<Rightarrow> (string \<times> ('f, 'p, 'c) fval) list \<Rightarrow> string list \<Rightarrow>
    string + string" where
  \<comment> \<open>\<open>create\<close> is \<^verbatim>\<open>Create\<close>; the result is what is printed\<close>
  "create_run create vals args =
     (case args of
        [name] \<Rightarrow>
          (case create (case map_of vals ''dir'' of Some (V_String d) \<Rightarrow> d | _ \<Rightarrow> ''migrations'') name of
             Inl e \<Rightarrow> Inl e
           | Inr (up, down) \<Rightarrow> Inr (up @ [LF] @ down @ [LF]))
      | _ \<Rightarrow> Inl create_usage)"

section \<open>Below any root\<close>

lemma declared_names:
  "declare_all vo ds fs = Some fs' \<Longrightarrow> flag_names fs' = flag_names fs @ map fst ds"
proof (induction ds arbitrary: fs)
  case (Cons p ds)
  obtain n v usage where p: "p = (n, v, usage)" by (cases p)
  with Cons obtain fs1 where "declare_flag n (typed_flag vo v usage) fs = Some fs1" "declare_all vo ds fs1 = Some fs'"
    by (auto split: option.splits)
  moreover from this(1) have "flag_names fs1 = flag_names fs @ [n]" by (auto simp: declare_flag_def flag_names_def split: if_splits)
  ultimately show ?case using Cons.IH by (simp add: p)
qed simp

lemma declare_all_total:
  "distinct (flag_names fs @ map fst ds) \<Longrightarrow> list_all (\<lambda>(n, v, u). \<not> has_prefix n ''-'' \<and> CHR ''='' \<notin> set n) ds \<Longrightarrow>
    declare_all vo ds fs \<noteq> None"
proof (induction ds arbitrary: fs)
  case (Cons p ds)
  obtain n v usage where p: "p = (n, v, usage)" by (cases p)
  define fs1 where "fs1 = fs\<lparr>fs_flags := fs_flags fs @ [(n, typed_flag vo v usage)]\<rparr>"
  have "lookup_flag fs n = None"
    using Cons.prems(1) by (auto simp: p lookup_flag_def flag_names_def map_of_eq_None_iff)
  then have d: "declare_flag n (typed_flag vo v usage) fs = Some fs1"
    using Cons.prems(2) by (simp add: p declare_flag_def fs1_def)
  have "flag_names fs1 = flag_names fs @ [n]" by (simp add: fs1_def flag_names_def)
  then have "declare_all vo ds fs1 \<noteq> None"
    using Cons.prems by (intro Cons.IH) (simp_all add: p)
  then show ?case by (simp add: p d)
qed simp

lemma verb_names:
  assumes "distinct (map fst flags)" "list_all (\<lambda>(n, v, u). \<not> has_prefix n ''-'' \<and> CHR ''='' \<notin> set n) flags"
  shows "flag_names (cm_flags (verb_command vo name short flags run)) = map fst flags"
proof -
  have "declare_all vo flags new_flag_set \<noteq> None"
    using assms by (intro declare_all_total) (simp_all add: flag_names_def new_flag_set_def)
  then obtain fs where "declare_all vo flags new_flag_set = Some fs" by blast
  with declared_names [OF this] show ?thesis by (simp add: verb_command_def flag_names_def new_flag_set_def)
qed

text \<open>The tree fits below every root that does not use one of its flag names, and only there.\<close>

lemma migrate_tree_ok:
  "tree_ok seen (migrate_command vo rs) \<longleftrightarrow>
    distinct seen \<and> set seen \<inter> {''dir'', ''one'', ''to'', ''allow-out-of-order'', ''all''} = {}"
proof -
  have "tree_ok seen (verb_command vo n s flags run) \<longleftrightarrow> distinct (seen @ map fst flags)"
    if "distinct (map fst flags)" "list_all (\<lambda>(n, v, u). \<not> has_prefix n ''-'' \<and> CHR ''='' \<notin> set n) flags" for n s flags run
    using verb_names [OF that, of vo n s run] by (subst tree_ok_unfold) (simp add: verb_command_def)
  then show ?thesis
    by (auto simp: migrate_command_def create_flags_def up_flags_def down_flags_def flag_names_def new_flag_set_def
        has_prefix_def)
qed

text \<open>From the command line to the variables \<^verbatim>\<open>Run\<close> reads.\<close>

definition sample_ops :: "(int, unit, unit) value_ops" where
  "sample_ops =
     \<lparr>vo_int0 = (\<lambda>s. case parse_int64 s of None \<Rightarrow> Inl parse_error | Some n \<Rightarrow> Inr n), vo_float = (\<lambda>s. Inl parse_error),
      vo_duration = (\<lambda>s. Inl parse_error), vo_prefix = (\<lambda>s. Inl parse_error), vo_custom = (\<lambda>c s. Inl parse_error),
      vo_format_float = (\<lambda>x. []), vo_format_duration = (\<lambda>n. []), vo_format_prefix = (\<lambda>p. []), vo_format_custom = (\<lambda>c. [])\<rparr>"

definition sample_root :: "(int, unit, unit) fval root_config" where
  "sample_root = \<lparr>rt_version = [], rt_env_prefix = [], rt_config_flag = [], rt_config_decl = typed_flag sample_ops (V_String []) [],
     rt_decoder = (\<lambda>data. Inr [])\<rparr>"

definition sample_runs :: "(int, unit, unit) migrate_runs" where
  "sample_runs = \<lparr>mr_create = (\<lambda>vals args. None), mr_up = (\<lambda>vals args. None), mr_down = (\<lambda>vals args. None),
     mr_status = (\<lambda>vals args. None)\<rparr>"

definition sample_run :: "string list \<Rightarrow> ((string \<times> (int, unit, unit) fval) list \<times> string list) option" where
  "sample_run args =
     Option.bind (execute (demo_world []) sample_root
       (Command ''app'' [] [] new_flag_set None [migrate_command sample_ops sample_runs]) args) oc_ran"

lemma migrate_up_dispatch:
  "map_option (\<lambda>(vals, ops). (up_args vals, ops)) (sample_run [''migrate'', ''up'', ''--to=5'', ''--one'']) =
     Some ((True, 5, False), [])"
  by code_simp

lemma migrate_down_dispatch:
  "map_option (\<lambda>(vals, ops). (down_args vals, ops)) (sample_run [''migrate'', ''down'', ''-to'', ''7'', ''x'']) =
     Some ((False, 7), [''x''])"
  by code_simp

end
