(* ===== verification/ErrorWriters.thy ===== *)
theory ErrorWriters
  imports HttpCore TokenBucket
begin

text \<open>
  The errors \<^verbatim>\<open>src/httpx\<close> and its middleware write on a service's behalf. The locale \<open>error_reply\<close> is
  the contract of an \<^verbatim>\<open>ErrorWriter\<close>: on a writer that has sent nothing it answers with the status it is given and
  keeps the header set so far. Its lemmas say what a refused request gets from the body limit, the rate
  limit, panic recovery and the unmatched routes; the interpretation is the default, the problem response.
\<close>

locale error_reply =
  fixes ew :: error_writer
  assumes answers: "wr_status w = 0 \<Longrightarrow> 400 \<le> st \<Longrightarrow> wr_status (ew r st d w) = st"
    and after_sent: "wr_status w \<noteq> 0 \<Longrightarrow> wr_status (ew r st d w) = wr_status w"
    and keeps: "wr_status w = 0 \<Longrightarrow> 400 \<le> st \<Longrightarrow> canonical_key k \<noteq> ''Content-Type'' \<Longrightarrow> canonical_key k \<noteq> ''Content-Length'' \<Longrightarrow>
      header_values (wr_sent (ew r st d w)) k = header_values (wr_header w) k"
begin

lemma body_limit_reply:
  assumes "bl_error_writer cfg = ew" "wr_status w = 0" "pos_or_default (bl_max cfg) default_max_bind < rq_length r"
  shows "\<exists>w'. body_limit cfg r w = Done w' \<and> wr_status w' = 413"
  using assms by (simp add: body_limit_def Let_def answers)

lemma rate_limit_reply:
  assumes "allow (key r) now l = ((False, retry), l')" "wr_status w = 0"
  shows "\<exists>w'. rate_limit allow key ew next r now l w = (w', l') \<and> wr_status w' = 429 \<and>
    (0 < retry \<longrightarrow> header_values (wr_sent w') ''Retry-After'' = [retry_after retry])"
proof -
  have "canonical_key ''Retry-After'' = ''Retry-After''" by code_simp
  then show ?thesis using assms
    by (simp add: rate_limit_def Let_def answers keeps header_values_set)
qed

lemma sent_run_status:
  "sw_sent s = (wr_status (sw_writer s) \<noteq> 0) \<Longrightarrow>
    list_all (\<lambda>a. case a of WriteHeader st \<Rightarrow> 200 \<le> st | _ \<Rightarrow> True) as \<Longrightarrow>
    sw_sent (foldl sent_act s as) = (wr_status (sw_writer (foldl sent_act s as)) \<noteq> 0)"
proof (induction as arbitrary: s)
  case (Cons a as)
  have "sw_sent (sent_act s a) = (wr_status (sw_writer (sent_act s a)) \<noteq> 0)"
    using Cons.prems by (cases a) (auto simp: write_header_def write_body_def Let_def)
  then show ?case using Cons by simp
qed simp

text \<open>A panic before anything was sent is answered 500; after that the response stays as sent.\<close>

lemma recover_reply:
  assumes "next r = (as, Panicked p)" "wr_status w = 0"
    and "list_all (\<lambda>a. case a of WriteHeader st \<Rightarrow> 200 \<le> st | _ \<Rightarrow> True) as"
  shows "\<exists>w'. recover ew next r w = (w', Returned, Some p) \<and>
    wr_status w' = (let s = foldl sent_act \<lparr>sw_writer = w, sw_sent = False\<rparr> as in
      if wr_status (sw_writer s) = 0 then 500 else wr_status (sw_writer s))"
  using sent_run_status [OF _ assms(3), of "\<lparr>sw_writer = w, sw_sent = False\<rparr>"] assms(1,2)
  by (auto simp: recover_def Let_def answers)

lemma allow_status: "wr_status (run_actions (if b then [HSet k v] else []) w) = wr_status w"
  by (simp add: run_actions_def)

lemma unmatched_reply:
  assumes "unmatched mux r = By_Error_Writer as st" "wr_status w = 0"
  shows "\<exists>w'. serve_unmatched mux ew r w = (w', Returned) \<and> wr_status w' = st \<and> (st = 404 \<or> st = 405)"
proof -
  note st = unmatched_error [OF assms(1)]
  have "wr_status (run_actions as w) = 0"
    using assms by (auto simp: unmatched_def Let_def run_actions_def split: if_splits prod.splits)
  with st assms(1) show ?thesis by (auto simp: serve_unmatched_def answers)
qed

end

interpretation problem_reply: error_reply "default_error_writer js" for js
proof
  fix w :: writer and st :: int and r d k
  assume "wr_status w = 0" and st: "400 \<le> st"
  moreover have fill: "pb_status (fill_problem js (no_problem st d)) = st"
    using st by (simp add: fill_problem_def no_problem_def Let_def)
  ultimately show "wr_status (default_error_writer js r st d w) = st"
    using run_problem [of w st "''application/problem+json''"]
    by (simp add: default_error_writer_def error_response_def respond_actions Let_def)
  have key: "canonical_key ''Content-Type'' = ''Content-Type''" "canonical_key ''Content-Length'' = ''Content-Length''" by code_simp+
  assume "canonical_key k \<noteq> ''Content-Type''" "canonical_key k \<noteq> ''Content-Length''"
  with \<open>wr_status w = 0\<close> st show "header_values (wr_sent (default_error_writer js r st d w)) k = header_values (wr_header w) k"
    by (simp add: default_error_writer_def error_response_def respond_actions fill run_actions_def write_body_def
        write_header_final Let_def header_values_set header_values_del key)
next
  fix w :: writer and st :: int and r d
  assume "wr_status w \<noteq> 0"
  then show "wr_status (default_error_writer js r st d w) = wr_status w"
    unfolding default_error_writer_def by (simp add: run_actions_final)
qed

text \<open>What a client sees with the default error writer.\<close>

lemma limited_request:
  assumes "allow (key r) now l = ((False, retry), l')"
  shows "wr_status (fst (rate_limit allow key (default_error_writer js) h r now l fresh_writer)) = 429"
proof -
  have "wr_status fresh_writer = 0" by (simp add: fresh_writer_def)
  with problem_reply.rate_limit_reply [where allow = allow and key = key and w = fresh_writer, OF assms]
  obtain w' where "rate_limit allow key (default_error_writer js) h r now l fresh_writer = (w', l')" "wr_status w' = 429"
    by blast
  then show ?thesis by simp
qed

lemma oversized_request:
  assumes "bl_error_writer cfg = default_error_writer js" "pos_or_default (bl_max cfg) default_max_bind < rq_length r"
  shows "\<exists>w'. body_limit cfg r fresh_writer = Done w' \<and> wr_status w' = 413"
  using problem_reply.body_limit_reply [OF assms(1) _ assms(2)] by (simp add: fresh_writer_def)

end
