(* ===== verification/LogBuffers.thy ===== *)
theory LogBuffers
  imports GoBase
begin

text \<open>
  The capture buffers of the access log, \<^verbatim>\<open>src/httpx/middleware/logger.go\<close>: requests served at the same
  time take buffers from one \<^verbatim>\<open>sync.Pool\<close> and give them back. A buffer is a number; the heap knows its capacity and
  bytes. \<^verbatim>\<open>sync.Pool\<close> may hand out any buffer it holds or a new one, and may forget buffers at any time.
\<close>

section \<open>The pool\<close>

record buffer =
  bu_cap :: nat
  bu_data :: string

record buffer_pool =
  bp_heap :: "nat \<Rightarrow> buffer"
  bp_next :: nat  \<comment> \<open>the number of the next new buffer\<close>
  bp_free :: "nat list"
  bp_held :: "(nat \<times> nat) list"  \<comment> \<open>requests and the buffers they hold\<close>

definition empty_pool :: buffer_pool where
  "empty_pool = \<lparr>bp_heap = (\<lambda>_. \<lparr>bu_cap = 0, bu_data = []\<rparr>), bp_next = 0, bp_free = [], bp_held = []\<rparr>"

definition get_buffer :: "nat option \<Rightarrow> nat \<Rightarrow> buffer_pool \<Rightarrow> nat \<times> buffer_pool" where
  \<comment> \<open>the buffer \<^verbatim>\<open>Get\<close> picks from the pool, or none; then \<^verbatim>\<open>Reset\<close>, which keeps the capacity\<close>
  "get_buffer pick r p =
     (let i = (case pick of Some i \<Rightarrow> i | None \<Rightarrow> bp_next p) in
      (i, p\<lparr>bp_heap := (bp_heap p)(i := \<lparr>bu_cap = (if pick = None then 0 else bu_cap (bp_heap p i)), bu_data = []\<rparr>),
            bp_next := (if pick = None then Suc (bp_next p) else bp_next p),
            bp_free := (if pick = None then bp_free p else removeAll i (bp_free p)),
            bp_held := (r, i) # bp_held p\<rparr>))"

definition put_buffer :: "int \<Rightarrow> nat option \<Rightarrow> buffer_pool \<Rightarrow> buffer_pool" where
  \<comment> \<open>after which the request no longer holds the buffer\<close>
  "put_buffer max_body buf p =
     (case buf of
        None \<Rightarrow> p
      | Some i \<Rightarrow>
          (let p' = p\<lparr>bp_held := filter (\<lambda>(r, j). j \<noteq> i) (bp_held p)\<rparr> in
           if wrap64 (2 * max_body) < int (bu_cap (bp_heap p i)) then p' else p'\<lparr>bp_free := i # bp_free p\<rparr>))"

inductive pool_step :: "int \<Rightarrow> buffer_pool \<Rightarrow> buffer_pool \<Rightarrow> bool" for max_body where
  pool_new: "pool_step max_body p (snd (get_buffer None r p))"
| pool_reuse: "i \<in> set (bp_free p) \<Longrightarrow> pool_step max_body p (snd (get_buffer (Some i) r p))"
| pool_fill: "(r, i) \<in> set (bp_held p) \<Longrightarrow> bu_cap (bp_heap p i) \<le> cap \<Longrightarrow> length data \<le> cap \<Longrightarrow>
    pool_step max_body p (p\<lparr>bp_heap := (bp_heap p)(i := \<lparr>bu_cap = cap, bu_data = data\<rparr>)\<rparr>)"
| pool_put: "(r, i) \<in> set (bp_held p) \<Longrightarrow> pool_step max_body p (put_buffer max_body (Some i) p)"
| pool_forget: "pool_step max_body p (p\<lparr>bp_free := removeAll i (bp_free p)\<rparr>)"
| pool_panic: "pool_step max_body p (p\<lparr>bp_held := filter (\<lambda>(r, j). r \<noteq> q) (bp_held p)\<rparr>)"

section \<open>Its invariant\<close>

definition pool_ok :: "int \<Rightarrow> buffer_pool \<Rightarrow> bool" where
  "pool_ok max_body p \<longleftrightarrow>
     distinct (bp_free p) \<and> distinct (map snd (bp_held p)) \<and>
     list_all (\<lambda>(r, i). i \<notin> set (bp_free p) \<and> i < bp_next p) (bp_held p) \<and>
     list_all (\<lambda>i. i < bp_next p \<and> int (bu_cap (bp_heap p i)) \<le> wrap64 (2 * max_body)) (bp_free p)"

lemma pool_ok_empty: "pool_ok max_body empty_pool"
  by (simp add: pool_ok_def empty_pool_def)

lemma get_new_ok:
  assumes "pool_ok max_body p"
  shows "pool_ok max_body (snd (get_buffer None r p))"
proof -
  have "bp_next p \<notin> snd ` set (bp_held p)" "bp_next p \<notin> set (bp_free p)"
    using assms by (force simp: pool_ok_def list_all_iff)+
  with assms show ?thesis by (auto simp: pool_ok_def get_buffer_def Let_def list_all_iff intro: less_SucI)
qed

lemma get_reused_ok:
  assumes "pool_ok max_body p" "i \<in> set (bp_free p)"
  shows "pool_ok max_body (snd (get_buffer (Some i) r p))"
proof -
  have "i \<notin> snd ` set (bp_held p)" "i < bp_next p" using assms by (force simp: pool_ok_def list_all_iff)+
  with assms(1) show ?thesis by (auto simp: pool_ok_def get_buffer_def Let_def list_all_iff distinct_removeAll)
qed

lemma put_buffer_ok:
  assumes "pool_ok max_body p" "(r, i) \<in> set (bp_held p)"
  shows "pool_ok max_body (put_buffer max_body (Some i) p)"
proof -
  have "distinct (map snd (filter (\<lambda>(r, j). j \<noteq> i) (bp_held p)))"
    using assms(1) by (intro distinct_map_filter) (simp add: pool_ok_def)
  with assms show ?thesis by (fastforce simp: pool_ok_def put_buffer_def list_all_iff Let_def)
qed

lemma pool_step_ok: "pool_step max_body p p' \<Longrightarrow> pool_ok max_body p \<Longrightarrow> pool_ok max_body p'"
proof (induction rule: pool_step.induct)
  case (pool_fill r i p cap data)
  then show ?case by (auto simp: pool_ok_def list_all_iff)
next
  case (pool_panic p q)
  have "distinct (map snd (filter (\<lambda>(r, j). r \<noteq> q) (bp_held p)))"
    using pool_panic by (intro distinct_map_filter) (simp add: pool_ok_def)
  with pool_panic show ?case by (auto simp: pool_ok_def list_all_iff)
next
  case (pool_forget p i)
  then show ?case by (auto simp: pool_ok_def list_all_iff distinct_removeAll)
qed (auto intro: get_new_ok get_reused_ok put_buffer_ok)

lemma reachable_pool_ok: "(pool_step max_body)\<^sup>*\<^sup>* empty_pool p \<Longrightarrow> pool_ok max_body p"
  by (induction rule: rtranclp_induct) (auto intro: pool_step_ok pool_ok_empty)

text \<open>No two requests ever hold the same buffer, so the body of one request cannot show up in the line of another.\<close>

lemma buffers_private:
  assumes "(pool_step max_body)\<^sup>*\<^sup>* empty_pool p" "(r, i) \<in> set (bp_held p)" "(q, i) \<in> set (bp_held p)"
  shows "r = q \<and> i \<notin> set (bp_free p)"
proof -
  have ok: "pool_ok max_body p" using assms(1) by (rule reachable_pool_ok)
  then have "inj_on snd (set (bp_held p))" by (simp add: pool_ok_def distinct_map)
  with assms(2,3) have "(r, i) = (q, i)" by (metis inj_onD snd_conv)
  with ok assms(2) show ?thesis by (auto simp: pool_ok_def list_all_iff)
qed

text \<open>A buffer is handed out empty, so what an earlier request left in it is not seen.\<close>

lemma got_buffer_empty: "get_buffer pick r p = (i, p') \<Longrightarrow> bu_data (bp_heap p' i) = []"
  by (auto simp: get_buffer_def Let_def)

text \<open>The memory the pool keeps: at most twice the cap for each of its buffers.\<close>

lemma pool_memory_bounded:
  assumes "(pool_step max_body)\<^sup>*\<^sup>* empty_pool p" "0 \<le> max_body" "max_body < 2 ^ 62"
  shows "(\<Sum>i\<leftarrow>bp_free p. int (bu_cap (bp_heap p i))) \<le> int (length (bp_free p)) * (2 * max_body)"
proof -
  have "wrap64 (2 * max_body) = 2 * max_body" using assms(2,3) by (intro wrap64_id) auto
  then have "\<forall>i \<in> set (bp_free p). int (bu_cap (bp_heap p i)) \<le> 2 * max_body"
    using reachable_pool_ok [OF assms(1)] by (auto simp: pool_ok_def list_all_iff)
  then have "(\<Sum>i\<leftarrow>bp_free p. int (bu_cap (bp_heap p i))) \<le> (\<Sum>i\<leftarrow>bp_free p. 2 * max_body)"
    by (intro sum_list_mono) auto
  then show ?thesis by (simp add: sum_list_triv)
qed

end
