(* ===== verification/Spec2Isabelle.thy ===== *)
theory Spec2Isabelle
  imports GoBase GoStrings GoRunes Float64 Breaker SqlScanner MigrationFiles Migrator MigratorSpec MigratorRun MigratorAudit
    Base64 HttpBase MemStore Idempotency
    NetAddr TokenBucket Middleware RealIP PasswordHash Redaction Ssh SshPool CliFlags CliBind CliRun CliSpec
    HttpClient TracePath ClientBreaker HttpCore SshClient SshExec MigrateCommand ErrorWriters LogBuffers
begin

text \<open>
  Verification of w-tools, a collection of Go modules for services: a command framework with SQL
  migrations (\<^verbatim>\<open>src/cli\<close>), an HTTP toolkit (\<^verbatim>\<open>src/httpx\<close>), a redacting logger (\<^verbatim>\<open>src/logger\<close>), and, under
  \<^verbatim>\<open>src/x\<close>, a circuit breaker, a password hasher and managed SSH connections.

  \<^bold>\<open>Parts and how they interact.\<close> A service starts in \<^verbatim>\<open>cli\<close>: the command tree is dispatched, its flags are
  resolved through the layers of configuration, and the command's \<^verbatim>\<open>Run\<close> is called; one such tree is the migrate command
  of \<^verbatim>\<open>cli/migrationx\<close>, which loads migration files, scans their SQL and applies them through a database driver. Requests
  enter \<^verbatim>\<open>httpx\<close> through a chain of middleware (correlation, trace context, CORS, rate limit, idempotency over a
  store) around the routes of a mux; errors leave as RFC 9457 problems. Outbound requests go through \<^verbatim>\<open>httpx/client\<close>,
  which consults a breaker (\<^verbatim>\<open>x/circuitbreaker\<close>) and carries the trace of the inbound request on. Everything is logged
  through handlers that redact (\<^verbatim>\<open>logger\<close>). \<^verbatim>\<open>x/hasher\<close> and \<^verbatim>\<open>x/sshx\<close> stand alone.

  \<^bold>\<open>Conventions.\<close> A Go struct is a record, an enumeration or an interface with a fixed set of implementations a datatype. A
  method is a function from the state to the new state and the result; a fallible one returns \<open>error + result\<close>, and a panic
  at construction or declaration is an \<open>Inl\<close> or \<open>None\<close>. A clock reading, a random source and a call into a package that is
  not in the repository are arguments, and what the proofs need of such a package is a named hypothesis or the
  assumption of a locale. Where goroutines share state, an operation that holds its mutex throughout is one function, and a
  concurrent run is a sequence of such calls; where several critical sections interleave, the state machine is an
  inductive step relation with one rule per section or channel operation. Maps of Go are association lists or functions
  to an option; strings are byte strings, decoded to runes where the code ranges over runes.

  \<^bold>\<open>Prelude.\<close> \<open>GoBase\<close> (instants, durations, truncating division, saturating time differences, 64-bit wrap-around, the
  collections \<open>go_defs\<close> and \<open>go_inv\<close>), \<open>GoStrings\<close> (the functions of \<^verbatim>\<open>strings\<close> and \<^verbatim>\<open>strconv\<close> used), \<open>GoRunes\<close> (UTF-8 as
  Go ranges over it, white space), \<open>Float64\<close> (float64 as rationals rounded to 53 bits; its locale \<open>rounding\<close> is all the
  components use of it), \<open>HttpBase\<close> (headers, requests, response writers and handlers of \<^verbatim>\<open>net/http\<close>), \<open>NetAddr\<close>, \<open>Base64\<close>.

  \<^bold>\<open>Theories and code.\<close>

  \<^item> \<open>Breaker\<close>: \<^verbatim>\<open>x/circuitbreaker/circuitbreaker.go\<close>. \<open>new_breaker\<close>, \<open>allow\<close>, \<open>record_outcome\<close>, \<open>round_trip\<close>. The ring of
    buckets refines a sliding window of outcomes; trips, fail-fast, probing and recovery of the state machine.

  \<^item> \<open>SqlScanner\<close>, \<open>MigrationFiles\<close>: \<^verbatim>\<open>cli/migrationx/scanner.go\<close>, \<^verbatim>\<open>load.go\<close>, \<^verbatim>\<open>merge.go\<close>, \<^verbatim>\<open>create.go\<close>. The scanner against a
    reference lexer, losslessness and round trips; file names, loading, merging and paging.

  \<^item> \<open>Migrator\<close>, \<open>MigratorSpec\<close>, \<open>MigratorRun\<close>, \<open>MigratorAudit\<close>: \<^verbatim>\<open>migrationx.go\<close> and \<^verbatim>\<open>dialect.go\<close> over a driver that is a record of calls.
    \<open>MigratorSpec\<close> states the driver's behaviour (a failed statement may have had its effect, a failed COMMIT may have
    committed) and shows both dialects meet the contract the engine uses, transactions being atomic; \<open>MigratorRun\<close> has whole
    runs of \<^verbatim>\<open>Up\<close> and \<^verbatim>\<open>Down\<close>, several runners, refusals and dirty versions; \<open>MigratorAudit\<close> the log lines a rollback run leaves.

  \<^item> \<open>CliFlags\<close>: \<^verbatim>\<open>cli/flags.go\<close>, \<^verbatim>\<open>bind.go\<close>, \<^verbatim>\<open>dotenv.go\<close> and the names of the environment. A flag is its current value with its
    \<^verbatim>\<open>Set\<close> and \<^verbatim>\<open>String\<close>. Declarations and struct binding keep flag sets well formed; a dotenv file never overrides the
    environment. \<open>CliBind\<close>: binding a struct equals a reference that flattens its sections, reads each leaf on its own
    and writes the flag set down.

  \<^item> \<open>CliRun\<close>, \<open>CliSpec\<close>: \<^verbatim>\<open>cli/cli.go\<close>, \<^verbatim>\<open>dispatch.go\<close>, \<^verbatim>\<open>config.go\<close>, \<^verbatim>\<open>help.go\<close>, with \<^verbatim>\<open>flag.FlagSet.Parse\<close> as \<open>parse_args\<close>. A
    \<open>path\<close> is the chain of commands chosen so far with their flag sets. \<open>CliSpec\<close>: the precedence of the layers, rejected
    secrets that have no influence on any output, the outcomes of an execution and its totality.

  \<^item> \<open>MigrateCommand\<close>: \<^verbatim>\<open>cli/migrationx/command.go\<close> as a value of the command type of \<open>CliRun\<close>: under which roots it can be
    registered, and the flags its verbs read.

  \<^item> \<open>HttpCore\<close>: \<^verbatim>\<open>httpx/httpx.go\<close>, \<^verbatim>\<open>router.go\<close>, \<^verbatim>\<open>respond.go\<close>, \<^verbatim>\<open>errormap.go\<close>, \<^verbatim>\<open>bind.go\<close>, \<^verbatim>\<open>render.go\<close>. A response is the list of
    calls on the writer. Groups and chains, unmatched routes, and the bytes of problem responses.

  \<^item> \<open>ErrorWriters\<close>: the contract of an \<^verbatim>\<open>ErrorWriter\<close> as the locale \<open>error_reply\<close>, what the body limit, the rate limit, panic
    recovery and the unmatched routes answer under it, and its interpretation on the problem response.

  \<^item> \<open>Middleware\<close>, \<open>RealIP\<close>: \<^verbatim>\<open>httpx/middleware\<close> request IDs, trace context, CORS, security headers, body limit, recovery, access
    line; client addresses behind proxies. \<open>LogBuffers\<close>: the pooled capture buffers of the access line, never shared by two
    requests.

  \<^item> \<open>MemStore\<close>, \<open>Idempotency\<close>: \<^verbatim>\<open>memorystore.go\<close> and \<^verbatim>\<open>idempotency.go\<close>. The interface \<^verbatim>\<open>Store\<close> is the locale \<open>kv_store\<close>, interpreted on
    the memory store and extended to \<open>record_store\<close>; interleaved requests are a step relation whose invariants are
    proved inside the locale.

  \<^item> \<open>TokenBucket\<close>: \<^verbatim>\<open>ratelimit.go\<close> in float64 arithmetic, with an explicit bound on the rounding.

  \<^item> \<open>HttpClient\<close>, \<open>ClientBreaker\<close>: \<^verbatim>\<open>httpx/client/client.go\<close>. What it needs of a breaker is the locale \<open>breaker_hook\<close>; the
    interpretation on the model of \<^verbatim>\<open>x/circuitbreaker\<close> gives what holds of the two together. \<open>TracePath\<close>: the inbound trace
    middleware and the client put together, a trace across any number of services.

  \<^item> \<open>Redaction\<close>: \<^verbatim>\<open>logger/redact.go\<close>, \<^verbatim>\<open>mask.go\<close>, \<^verbatim>\<open>ctxattrs.go\<close>, \<^verbatim>\<open>logger.go\<close>. Logged values are codatatypes, so cyclic values are
    values too; non-interference of what is redacted, and the bound on the walk.

  \<^item> \<open>PasswordHash\<close>: \<^verbatim>\<open>x/hasher/hasher.go\<close>. The grammar and caps of stored hashes, and the round trip of \<^verbatim>\<open>Hash\<close> and \<^verbatim>\<open>Verify\<close>.

  \<^item> \<open>Ssh\<close>, \<open>SshExec\<close>, \<open>SshClient\<close>, \<open>SshPool\<close>: \<^verbatim>\<open>x/sshx\<close> errors, dialing, commands, host keys and keys; the output of a
    command, written by two pumps under a lock; the life of a connection and of a session; the pool of self-healing
    connections. The last three are step relations.

  \<^bold>\<open>Bounds and termination.\<close> No definition runs on fuel. Recursion on bytes, arguments or files is structural or has a
  measure; the redaction walk is bounded by the depth limit of the code (16 levels) and resolves at most 10
  \<^verbatim>\<open>LogValuer\<close>s; the pool and the sessions are relations, so their runs may be infinite. Counters that would need \<open>2 ^ 63\<close> steps
  to wrap are integers; sizes and parameters whose width matters (hash parameters, addresses, time differences,
  flag and version numbers) keep it.

  \<^bold>\<open>Not modelled.\<close> The programs under \<^verbatim>\<open>examples/\<close> and the package comments (\<^verbatim>\<open>doc.go\<close>) are glue and prose. The standard library is modelled where the code's behaviour rests on its
  details (\<^verbatim>\<open>flag\<close>, \<^verbatim>\<open>net/http\<close> headers and writers, \<^verbatim>\<open>strings\<close>, \<^verbatim>\<open>base64\<close>, UTF-8) and an argument elsewhere (\<^verbatim>\<open>ServeMux\<close>, \<^verbatim>\<open>http.Transport\<close>,
  \<^verbatim>\<open>encoding/json\<close>, \<^verbatim>\<open>mime\<close>, number and duration parsers, \<^verbatim>\<open>database/sql\<close>, \<^verbatim>\<open>slog\<close>), as are \<^verbatim>\<open>golang.org/x/crypto\<close>, SHA-256
  and the key-derivation functions. Sharing of one variable by two flags, custom flag values that are boolean, and data
  races proper (a read during a write) are outside the model.
\<close>

end
